(* ===== verification/GwPrelude.thy ===== *)
theory GwPrelude
  imports Main "HOL-Library.Word" "HOL-Library.Multiset"
begin

text \<open>
  Shared material of the GNUWeebBot2 development: the machine integer types, the errno values the
  code returns, the power-of-two rounding loop that both the submission ring (core/ring.c) and the
  work queue (core/workqueue.c) run, unsigned distance on ring indices (include/gw/ring.h),
  acquisition traces for the goto-style error paths, allocation oracles, and the counting lemmas
  on lists the thread models use.
\<close>

unbundle bit_operations_syntax

section \<open>Types and collections\<close>

type_synonym u8 = "8 word"
type_synonym u32 = "32 word"
type_synonym u64 = "64 word"

text \<open>\<open>int64_t\<close> values are 64-bit words read with \<open>sint\<close>.\<close>

type_synonym i64 = "64 word"

text \<open>Pointers are addresses; address 0 is \<open>NULL\<close>.\<close>

type_synonym ptr = nat

abbreviation (input) NULL :: ptr where "NULL \<equiv> 0"

named_theorems wf_simps \<open>well-formedness predicates and the fields they fix\<close>
named_theorems step_defs \<open>the critical sections a thread runs under the lock\<close>

section \<open>Error numbers\<close>

text \<open>The Linux values; the README says the program runs on Linux only.\<close>

definition ENOENT :: int where "ENOENT = 2"
definition EAGAIN :: int where "EAGAIN = 11"
definition ENOMEM :: int where "ENOMEM = 12"
definition EINVAL :: int where "EINVAL = 22"
definition EOPNOTSUPP :: int where "EOPNOTSUPP = 95"
definition EOWNERDEAD :: int where "EOWNERDEAD = 130"

lemmas errno_defs =
  ENOENT_def EAGAIN_def ENOMEM_def EINVAL_def EOPNOTSUPP_def EOWNERDEAD_def

section \<open>Unsigned distance of two indices\<close>

text \<open>
  \<open>u32_diff\<close> of include/gw/ring.h: both operands are widened to \<open>int64_t\<close>, subtracted,
  and the absolute value is cut back to 32 bits. It is not the modular distance
  \<open>a - b\<close>: the two differ as soon as one index has wrapped and the other has not.
\<close>

definition u32_diff :: "u32 \<Rightarrow> u32 \<Rightarrow> u32" where
  "u32_diff a b = word_of_int \<bar>uint a - uint b\<bar>"

lemma uint_u32_diff: "uint (u32_diff a b) = \<bar>uint a - uint b\<bar>"
proof -
  have "0 \<le> uint a" "uint a < 2 ^ 32" "0 \<le> uint b" "uint b < 2 ^ 32"
    using uint_lt2p [of a] uint_lt2p [of b] by simp_all
  then have "\<bar>uint a - uint b\<bar> < 2 ^ 32" by arith
  then show ?thesis
    by (simp add: u32_diff_def uint_word_of_int take_bit_int_eq_self)
qed

lemma unat_u32_diff:
  "unat (u32_diff a b) = (if unat b \<le> unat a then unat a - unat b else unat b - unat a)"
proof -
  have *: "d = (if y \<le> x then x - y else y - x)" if "int d = \<bar>int x - int y\<bar>" for d x y :: nat
    using that by auto
  show ?thesis by (rule *) (simp add: uint_u32_diff)
qed

text \<open>Where the larger index has not wrapped below the smaller one the two distances agree;
  otherwise \<open>u32_diff\<close> is the complement to \<open>2 ^ 32\<close>.\<close>

lemma unat_diff_le: "b \<le> a \<Longrightarrow> unat (u32_diff a b) = unat (a - b)"
  for a b :: u32
  by (simp add: unat_u32_diff unat_sub word_le_nat_alt)

lemma unat_diff_wrapped:
  fixes a b :: u32
  assumes "a < b"
  shows "unat (u32_diff a b) = 2 ^ 32 - unat (a - b)"
proof -
  have lt: "unat a < unat b" using assms by (simp add: word_less_nat_alt)
  have b: "unat b < 2 ^ 32" using unsigned_less [of b] by simp
  have "unat (a - b) = unat a + 2 ^ 32 - unat b"
    using lt by (simp add: unat_sub_if_size word_size)
  with lt b show ?thesis by (simp add: unat_u32_diff)
qed

section \<open>Rounding up to a power of two\<close>

text \<open>
  The loop \<open>while (max < size) max *= 2u;\<close> of \<open>gw_ring_init\<close> and of
  \<open>validate_and_adjust_workqueue_attr\<close>. \<open>max\<close> wraps to 0 after \<open>2 ^ 31\<close>, so the loop
  need not end: not returning is \<open>None\<close>.
\<close>

partial_function (option) round_up_pow2 :: "u32 \<Rightarrow> u32 \<Rightarrow> u32 option" where
  "round_up_pow2 mx sz =
     (if mx < sz then round_up_pow2 (mx * 2) sz else Some mx)"

lemma unat_two_pow: "k < 32 \<Longrightarrow> unat ((2::u32) ^ k) = 2 ^ k"
proof -
  assume "k < 32"
  then have "(2::nat) ^ k < 2 ^ 32" by (rule power_strict_increasing) simp
  then have "unat (of_nat (2 ^ k) :: u32) = 2 ^ k"
    by (simp add: unat_of_nat del: of_nat_power)
  then show ?thesis by simp
qed

lemma round_up_pow2_le:
  assumes "k \<le> 31" and "sz \<le> 2 ^ 31"
  shows "\<exists>m. k \<le> m \<and> m \<le> 31 \<and> round_up_pow2 (2 ^ k) sz = Some (2 ^ m) \<and> sz \<le> 2 ^ m \<and>
           (m = k \<or> 2 ^ (m - 1) < sz)"
  using assms
proof (induction "31 - k" arbitrary: k)
  case 0
  then have "k = 31" and "\<not> 2 ^ 31 < sz" by (simp_all add: not_less)
  with 0 show ?case
    by (intro exI [of _ 31]) (subst round_up_pow2.simps, simp)
next
  case (Suc n)
  then have k: "Suc k \<le> 31" "n = 31 - Suc k" by simp_all
  show ?case
  proof (cases "2 ^ k < sz")
    case True
    from Suc.hyps(1) [OF k(2) k(1) Suc.prems(2)] obtain m where
      m: "Suc k \<le> m" "m \<le> 31" "round_up_pow2 (2 ^ Suc k) sz = Some (2 ^ m)"
        "sz \<le> 2 ^ m" "m = Suc k \<or> 2 ^ (m - 1) < sz"
      by blast
    have "round_up_pow2 (2 ^ k) sz = Some (2 ^ m)"
      using True m(3) by (subst round_up_pow2.simps) (simp add: mult.commute)
    with m True show ?thesis
      by (intro exI [of _ m]) auto
  next
    case False
    then have "round_up_pow2 (2 ^ k) sz = Some (2 ^ k)"
      by (subst round_up_pow2.simps) (rule if_not_P)
    with False Suc.prems show ?thesis
      by (intro exI [of _ k]) (simp add: not_less)
  qed
qed

lemma two_pow_31_top: "j < 32 \<Longrightarrow> (2::u32) ^ j \<le> 2 ^ 31"
proof -
  assume "j < 32"
  moreover from this have "(2::nat) ^ j \<le> 2 ^ 31" by (intro power_increasing) simp_all
  ultimately show ?thesis
    using unat_two_pow [of j] unat_two_pow [of 31] by (simp add: word_le_nat_alt)
qed

lemma round_up_pow2_diverges:
  assumes "2 ^ 31 < sz"
  shows "round_up_pow2 (2 ^ k) sz = None"
proof (cases "round_up_pow2 (2 ^ k) sz")
  case (Some r)
  have "\<not> r < sz \<and> ((\<exists>j. 2 ^ k = (2::u32) ^ j) \<longrightarrow> (\<exists>j. r = 2 ^ j))"
  proof (rule round_up_pow2.raw_induct
      [where P = "\<lambda>mx sz r. \<not> r < sz \<and> ((\<exists>j. mx = 2 ^ j) \<longrightarrow> (\<exists>j. r = 2 ^ j))", OF _ Some])
    fix f mx sz r
    assume IH: "\<And>mx sz r. f mx sz = Some r \<Longrightarrow>
        \<not> r < sz \<and> ((\<exists>j. mx = (2::u32) ^ j) \<longrightarrow> (\<exists>j. r = 2 ^ j))"
      and eq: "(if mx < sz then f (mx * 2) sz else Some mx) = Some (r :: u32)"
    show "\<not> r < sz \<and> ((\<exists>j. mx = 2 ^ j) \<longrightarrow> (\<exists>j. r = 2 ^ j))"
    proof (cases "mx < sz")
      case True
      with eq have "f (mx * 2) sz = Some r" by simp
      from IH [OF this] have "\<not> r < sz" and r: "(\<exists>j. mx * 2 = 2 ^ j) \<Longrightarrow> (\<exists>j. r = 2 ^ j)"
        by blast+
      moreover have "(\<exists>j. mx = 2 ^ j) \<Longrightarrow> (\<exists>j. mx * 2 = (2::u32) ^ j)"
        by (metis power_Suc2)
      ultimately show ?thesis by blast
    next
      case False
      with eq show ?thesis by simp
    qed
  qed
  then obtain j where r: "r = (2::u32) ^ j" and "\<not> r < sz" by auto
  have "r \<le> 2 ^ 31"
  proof (cases "j < 32")
    case True
    then show ?thesis using r two_pow_31_top by simp
  next
    case False
    then have "r = 0" using r by (simp add: exp_eq_zero_iff)
    then show ?thesis by simp
  qed
  with assms \<open>\<not> r < sz\<close> show ?thesis by simp
qed simp

section \<open>Acquisition traces\<close>

text \<open>
  An initialiser with a goto-style unwinding is modelled with the trace of what it acquires and
  releases. \<open>held\<close> replays a trace: \<open>None\<close> is a release of something not held (a double
  free, a destroy of something never initialised).
\<close>

datatype 'r trace_ev = Acquire 'r | Release 'r

fun held :: "'r list \<Rightarrow> 'r trace_ev list \<Rightarrow> 'r list option" where
  "held rs [] = Some rs"
| "held rs (Acquire r # es) = held (r # rs) es"
| "held rs (Release r # es) = (if r \<in> set rs then held (remove1 r rs) es else None)"

lemma held_append: "held rs (xs @ ys) = Option.bind (held rs xs) (\<lambda>rs'. held rs' ys)"
  by (induction rs xs rule: held.induct) auto

lemma held_acquires: "held rs (map Acquire xs) = Some (rev xs @ rs)"
  by (induction xs arbitrary: rs) auto

lemma held_releases: "held (xs @ rs) (map Release xs) = Some rs"
  by (induction xs) auto

lemma held_releases_mset:
  "mset rs = mset xs + mset ys \<Longrightarrow>
   \<exists>zs. held rs (map Release xs) = Some zs \<and> mset zs = mset ys"
proof (induction xs arbitrary: rs)
  case (Cons x xs)
  then have "x \<in> set rs" by (metis list.set_intros(1) set_mset_mset set_mset_union Un_iff)
  moreover have "mset (remove1 x rs) = mset xs + mset ys" using Cons.prems by simp
  ultimately show ?case using Cons.IH by simp
qed simp

lemma held_all_released: "mset rs = mset xs \<Longrightarrow> held rs (map Release xs) = Some []"
  using held_releases_mset [of rs xs "[]"] by auto

text \<open>Releasing something that is not held is noticed, wherever it stands in the trace.\<close>

lemma held_release_missing:
  assumes "x \<in> set xs" and "x \<notin> set rs"
  shows "held rs (map Release xs) = None"
  using assms
proof (induction xs arbitrary: rs)
  case (Cons y ys)
  then show ?case by (auto dest: notin_set_remove1)
qed simp

text \<open>The trace of a part, seen from the whole that holds other things as well.\<close>

lemma held_map:
  assumes "held rs es = Some rs'" and "inj f"
  shows "held (map f rs @ zs) (map (map_trace_ev f) es) = Some (map f rs' @ zs)"
  using assms(1)
proof (induction rs es rule: held.induct)
  case (3 rs r es)
  then have r: "r \<in> set rs" "held (remove1 r rs) es = Some rs'" by (auto split: if_splits)
  have "remove1 (f r) (map f rs) = map f (remove1 r rs)" for rs
    by (induction rs) (simp_all add: inj_eq [OF assms(2)])
  moreover have "f r \<in> set (map f rs)" using r(1) by simp
  ultimately have "remove1 (f r) (map f rs @ zs) = map f (remove1 r rs) @ zs"
    by (simp add: remove1_append)
  moreover note "3.IH" [OF r(1)] r
  ultimately show ?case by simp
qed (simp_all split: if_splits)

section \<open>Allocation oracles\<close>

text \<open>
  \<open>malloc\<close>, \<open>calloc\<close> and \<open>realloc\<close> may fail. Which calls fail is a list of answers,
  one per call in the order the code makes them; past its end every call succeeds.
\<close>

type_synonym allocs = "bool list"

fun next_alloc :: "allocs \<Rightarrow> bool \<times> allocs" where
  "next_alloc [] = (True, [])"
| "next_alloc (b # bs) = (b, bs)"

text \<open>
  A heap of blocks of one kind is an association list from addresses to contents. A new block gets
  an address above all live ones, so it is not \<open>NULL\<close> and not in use, and addresses are used again.
\<close>

type_synonym 'a heap = "(ptr \<times> 'a) list"

definition fresh_ptr :: "'a heap \<Rightarrow> ptr" where
  "fresh_ptr h = Suc (fold max (map fst h) 0)"

lemma fold_max_ge: "(x :: nat) \<in> set xs \<or> x \<le> m \<Longrightarrow> x \<le> fold max xs m"
proof (induction xs arbitrary: m)
  case (Cons y ys)
  have "x \<in> set ys \<or> x \<le> max y m" using Cons.prems by auto
  from Cons.IH [OF this] show ?case by simp
qed simp

lemma fresh_ptr_unused [simp]: "map_of h (fresh_ptr h) = None" and fresh_ptr_pos [simp]: "fresh_ptr h \<noteq> NULL" "NULL < fresh_ptr h"
proof -
  have "x \<le> fold max (map fst h) 0" if "x \<in> fst ` set h" for x
    using that by (intro fold_max_ge) simp
  then have "fresh_ptr h \<notin> fst ` set h" by (force simp: fresh_ptr_def)
  then show "map_of h (fresh_ptr h) = None" by (simp add: map_of_eq_None_iff)
qed (simp_all add: fresh_ptr_def)

definition heap_free :: "ptr \<Rightarrow> 'a heap \<Rightarrow> 'a heap" where
  "heap_free p h = filter (\<lambda>(q, v). q \<noteq> p) h"

lemma map_of_heap_free [simp]: "map_of (heap_free p h) q = (if q = p then None else map_of h q)"
  by (induction h) (auto simp: heap_free_def)

section \<open>Counting in lists\<close>

definition cnt :: "('a \<Rightarrow> bool) \<Rightarrow> 'a list \<Rightarrow> nat" where
  "cnt P xs = length (filter P xs)"

lemma cnt_simps [simp]:
  "cnt P [] = 0"
  "cnt P (x # xs) = (if P x then Suc (cnt P xs) else cnt P xs)"
  by (simp_all add: cnt_def)

lemma cnt_le: "cnt P xs \<le> length xs"
  by (simp add: cnt_def)

lemma cnt_update:
  "i < length xs \<Longrightarrow>
   cnt P (xs[i := x]) + of_bool (P (xs ! i)) = cnt P xs + of_bool (P x)"
proof (induction xs arbitrary: i)
  case (Cons y ys)
  show ?case
  proof (cases i)
    case (Suc j)
    with Cons.prems Cons.IH [of j] show ?thesis by simp
  qed simp
qed simp

lemma cnt_0_iff: "cnt P xs = 0 \<longleftrightarrow> (\<forall>x \<in> set xs. \<not> P x)"
  by (simp add: cnt_def filter_empty_conv)

lemma cnt_pos_ex: "0 < cnt P xs \<longleftrightarrow> (\<exists>i < length xs. P (xs ! i))"
  by (metis cnt_0_iff in_set_conv_nth neq0_conv)

lemma cnt_map: "cnt P (map f xs) = cnt (P \<circ> f) xs"
  by (induction xs) auto

lemma cnt_cong: "(\<And>x. x \<in> set xs \<Longrightarrow> P x = Q x) \<Longrightarrow> cnt P xs = cnt Q xs"
  by (simp add: cnt_def cong: filter_cong)

lemma nth_list_update_at: "i < length xs \<Longrightarrow> xs[j := x] ! i = (if i = j then x else xs ! i)"
  by (cases "i = j") simp_all

text \<open>The same law in a word, the form the \<open>uint32_t\<close> counters of the code need.\<close>

lemma of_nat_cnt_update:
  "i < length xs \<Longrightarrow>
   of_nat (cnt P (xs[i := x])) =
     (of_nat (cnt P xs) + of_bool (P x) - of_bool (P (xs ! i)) :: 'w :: len word)"
proof -
  assume "i < length xs"
  from cnt_update [OF this, of P x]
  have "of_nat (cnt P (xs[i := x]) + of_bool (P (xs ! i))) =
      (of_nat (cnt P xs + of_bool (P x)) :: 'w word)"
    by simp
  then show ?thesis by (simp add: eq_diff_eq)
qed

lemma of_nat_cnt_0:
  "length xs < 2 ^ 32 \<Longrightarrow> (of_nat (cnt P xs) :: u32) = 0 \<longleftrightarrow> cnt P xs = 0"
proof -
  assume "length xs < 2 ^ 32"
  then have "cnt P xs < 2 ^ 32" using cnt_le [of P xs] by simp
  then have "unat (of_nat (cnt P xs) :: u32) = cnt P xs" by (simp add: unat_of_nat)
  then show ?thesis by (metis unsigned_0 of_nat_0 of_nat_unat)
qed


section \<open>Sums over thread lists\<close>

lemma sum_list_map_update:
  fixes f :: "'a \<Rightarrow> 'b :: comm_monoid_add"
  assumes "i < length xs"
  shows "sum_list (map f (xs[i := x])) + f (xs ! i) = sum_list (map f xs) + f x"
  using assms
proof (induction xs arbitrary: i)
  case (Cons y ys)
  show ?case
  proof (cases i)
    case (Suc j)
    with Cons.prems Cons.IH [of j] show ?thesis by (simp add: ac_simps)
  qed (simp add: ac_simps)
qed simp

section \<open>Condition variables\<close>

text \<open>
  The threads that may sleep on a condition variable are a list of program counters. \<open>wake_one\<close>
  is \<open>pthread_cond_signal\<close>: the sleeper at index \<open>n\<close> is woken, or the first sleeper if there is
  none at \<open>n\<close>, or nobody if nobody sleeps, so that \<open>n\<close> ranges over the choices the system has.
  \<open>wake_all\<close> is \<open>pthread_cond_broadcast\<close>.
\<close>

definition wake_one :: "('a \<Rightarrow> bool) \<Rightarrow> ('a \<Rightarrow> 'a) \<Rightarrow> nat \<Rightarrow> 'a list \<Rightarrow> 'a list" where
  "wake_one asleep wake n xs =
     (if n < length xs \<and> asleep (xs ! n) then xs[n := wake (xs ! n)]
      else case List.find (\<lambda>i. asleep (xs ! i)) [0..<length xs] of
             None \<Rightarrow> xs
           | Some i \<Rightarrow> xs[i := wake (xs ! i)])"

definition wake_all :: "('a \<Rightarrow> bool) \<Rightarrow> ('a \<Rightarrow> 'a) \<Rightarrow> 'a list \<Rightarrow> 'a list" where
  "wake_all asleep wake xs = map (\<lambda>x. if asleep x then wake x else x) xs"

lemma wake_one_cases:
  "(\<exists>i < length xs. asleep (xs ! i) \<and> wake_one asleep wake n xs = xs[i := wake (xs ! i)]) \<or>
   ((\<forall>i < length xs. \<not> asleep (xs ! i)) \<and> wake_one asleep wake n xs = xs)"
  by (auto simp: wake_one_def find_None_iff find_Some_iff split: option.splits)

lemma length_wake [simp]:
  "length (wake_one asleep wake n xs) = length xs"
  "length (wake_all asleep wake xs) = length xs"
  using wake_one_cases [of xs asleep wake n] by (auto simp: wake_all_def)

lemma nth_wake_one:
  "i < length xs \<Longrightarrow> wake_one asleep wake n xs ! i = xs ! i \<or>
     asleep (xs ! i) \<and> wake_one asleep wake n xs ! i = wake (xs ! i)"
  using wake_one_cases [of xs asleep wake n]
  by (auto simp: nth_list_update_at split: if_splits)

lemma nth_wake_all:
  "i < length xs \<Longrightarrow>
   wake_all asleep wake xs ! i = (if asleep (xs ! i) then wake (xs ! i) else xs ! i)"
  by (simp add: wake_all_def)

lemma map_wake:
  assumes "\<And>x. asleep x \<Longrightarrow> f (wake x) = f x"
  shows "map f (wake_one asleep wake n xs) = map f xs"
    and "map f (wake_all asleep wake xs) = map f xs"
  using wake_one_cases [of xs asleep wake n] assms
  by (auto simp: wake_all_def map_update list_update_same_conv)

lemma cnt_wake:
  assumes "\<And>x. asleep x \<Longrightarrow> P (wake x) = P x"
  shows "cnt P (wake_one asleep wake n xs) = cnt P xs"
    and "cnt P (wake_all asleep wake xs) = cnt P xs"
proof -
  have *: "cnt P ys = cnt (\<lambda>b. b) (map P ys)" for ys
    by (simp add: cnt_map comp_def)
  show "cnt P (wake_one asleep wake n xs) = cnt P xs"
    and "cnt P (wake_all asleep wake xs) = cnt P xs"
    unfolding * [of "wake_one _ _ _ _"] * [of "wake_all _ _ _"] * [of xs]
    by (simp_all add: map_wake [of asleep P wake, OF assms])
qed

end
