(* ===== verification/GwCirc.thy ===== *)
theory GwCirc
  imports GwPrelude
begin

text \<open>
  The circular buffer discipline the program uses three times: the submission and completion
  queues of core/ring.c and the work list of core/workqueue.c. Slots are addressed by
  \<open>index & mask\<close> with free-running 32-bit head and tail indices. \<open>circ_contents\<close> is the
  list the indices denote; the locale \<open>bounded_fifo\<close> is the contract the three users rely on.
\<close>

section \<open>Slots and contents\<close>

definition slot :: "u32 \<Rightarrow> u32 \<Rightarrow> nat" where
  "slot i msk = unat (i AND msk)"

definition circ_ok :: "'a list \<Rightarrow> u32 \<Rightarrow> bool" where
  "circ_ok xs msk = (\<exists>k \<in> {..<32}. msk = 2 ^ k - 1 \<and> length xs = 2 ^ k)"

definition circ_contents :: "'a list \<Rightarrow> u32 \<Rightarrow> u32 \<Rightarrow> u32 \<Rightarrow> 'a list" where
  "circ_contents xs msk head tail =
     map (\<lambda>i. xs ! slot (head + of_nat i) msk) [0..<unat (tail - head)]"

lemma circ_okE:
  assumes "circ_ok xs msk"
  obtains k where "k < 32" "msk = 2 ^ k - 1" "length xs = 2 ^ k"
  using assms by (auto simp: circ_ok_def)

lemma circ_ok_update [simp]: "circ_ok (xs[i := x]) msk = circ_ok xs msk"
  by (simp add: circ_ok_def)

lemma circ_ok_length: "circ_ok xs msk \<Longrightarrow> 0 < length xs \<and> length xs \<le> 2 ^ 31"
proof (erule circ_okE)
  fix k assume "k < 32" and "length xs = 2 ^ k"
  moreover from \<open>k < 32\<close> have "(2::nat) ^ k \<le> 2 ^ 31" by (intro power_increasing) simp_all
  ultimately show ?thesis by simp
qed

lemma circ_ok_mask: "circ_ok xs msk \<Longrightarrow> unat (msk + 1) = length xs"
  by (erule circ_okE) (simp add: unat_two_pow)

lemma slot_mod: "circ_ok xs msk \<Longrightarrow> slot i msk = unat i mod length xs"
proof (erule circ_okE)
  fix k assume "k < 32" and msk: "msk = 2 ^ k - 1" and len: "length xs = 2 ^ k"
  have "i AND msk = take_bit k i"
    by (simp add: msk mask_eq_exp_minus_1 take_bit_eq_mask)
  then have "slot i msk = take_bit k (unat i)"
    by (simp only: slot_def unsigned_take_bit_eq)
  then show ?thesis by (simp add: len take_bit_eq_mod)
qed

lemma slot_less: "circ_ok xs msk \<Longrightarrow> slot i msk < length xs"
  using circ_ok_length [of xs msk] by (simp add: slot_mod)

lemma slot_add:
  assumes "circ_ok xs msk"
  shows "slot (h + of_nat i) msk = (unat h + i) mod length xs"
proof -
  obtain k where "k < 32" and len: "length xs = 2 ^ k"
    using assms by (rule circ_okE)
  then have dvd: "length xs dvd 2 ^ 32" by (simp only: len, intro le_imp_power_dvd) simp
  have "unat (h + of_nat i) = (unat h + i) mod 2 ^ 32"
    by (simp add: unat_word_ariths unat_of_nat mod_simps)
  then show ?thesis
    using assms dvd by (simp add: slot_mod mod_mod_cancel)
qed

lemma length_circ_contents [simp]:
  "length (circ_contents xs msk head tail) = unat (tail - head)"
  by (simp add: circ_contents_def)

lemma circ_contents_empty [simp]: "circ_contents xs msk h h = []"
  by (simp add: circ_contents_def)

lemma circ_contents_Nil_iff: "circ_contents xs msk h t = [] \<longleftrightarrow> h = t"
  by (simp add: circ_contents_def unat_eq_0) (metis eq_iff_diff_eq_0)

lemma unat_plus_one: "unat (w :: u32) < 2 ^ 32 - 1 \<Longrightarrow> unat (w + 1) = Suc (unat w)"
  by (simp add: unat_word_ariths)

lemma unat_diff_pop:
  fixes h t :: u32
  assumes "h \<noteq> t"
  shows "unat (t - h) = Suc (unat (t - (h + 1)))"
proof -
  from assms have nz: "t - h \<noteq> 0" by simp
  have "t - (h + 1) = (t - h) - 1" by simp
  then have "unat (t - (h + 1)) = unat (t - h) - 1"
    by (simp only: unat_minus_one [OF nz])
  moreover have "0 < unat (t - h)" using nz unat_gt_0 by blast
  ultimately show ?thesis by simp
qed

lemma slot_distinct:
  assumes ok: "circ_ok xs msk" and "i < n" and "n - i < length xs"
  shows "slot (h + of_nat i) msk \<noteq> slot (h + of_nat n) msk"
proof
  assume "slot (h + of_nat i) msk = slot (h + of_nat n) msk"
  then have "(unat h + n) mod length xs = (unat h + i) mod length xs"
    by (simp add: slot_add [OF ok])
  then have "length xs dvd (unat h + n) - (unat h + i)"
    by (rule mod_eq_dvd_iff_nat [THEN iffD1, rotated]) (use assms in simp)
  with assms show False by (auto dest: dvd_imp_le)
qed

section \<open>Insertion at the tail, removal at the head\<close>

lemma circ_contents_push:
  assumes ok: "circ_ok xs msk" and room: "unat (tail - head) < length xs"
  shows "circ_contents (xs[slot tail msk := x]) msk head (tail + 1) =
           circ_contents xs msk head tail @ [x]"
proof -
  let ?n = "unat (tail - head)"
  have len: "length xs \<le> 2 ^ 31" using circ_ok_length [OF ok] by simp
  have n1: "unat (tail + 1 - head) = Suc ?n"
  proof -
    have "tail + 1 - head = (tail - head) + 1" by simp
    moreover have "?n < 2 ^ 32 - 1" using room len by simp
    ultimately show ?thesis using unat_plus_one [of "tail - head"] by (simp only:)
  qed
  have tl: "tail = head + of_nat ?n" by simp
  have old: "xs[slot tail msk := x] ! slot (head + of_nat i) msk =
      xs ! slot (head + of_nat i) msk" if "i < ?n" for i
    using slot_distinct [OF ok that, of head] that room
    by (metis less_imp_diff_less nth_list_update_neq tl)
  show ?thesis
    unfolding circ_contents_def n1 upt_Suc_append [OF le0]
    using old slot_less [OF ok] by simp
qed

lemma circ_contents_pop:
  assumes "head \<noteq> tail"
  shows "circ_contents xs msk head tail =
           xs ! slot head msk # circ_contents xs msk (head + 1) tail"
  unfolding circ_contents_def unat_diff_pop [OF assms] map_upt_Suc
  by (simp add: add.assoc)

section \<open>The test for a full buffer\<close>

text \<open>
  All users compare the unsigned distance of the indices with the capacity. The answer is also
  "full" when the tail has wrapped below the head.
\<close>

lemma circ_full_iff:
  assumes ok: "circ_ok xs msk" and len: "unat (tail - head) \<le> length xs"
  shows "msk + 1 \<le> u32_diff tail head \<longleftrightarrow> unat (tail - head) = length xs \<or> tail < head"
proof (cases "tail < head")
  case True
  have n: "length xs \<le> 2 ^ 31" using circ_ok_length [OF ok] by simp
  have "unat (u32_diff tail head) = 2 ^ 32 - unat (tail - head)" by (rule unat_diff_wrapped [OF True])
  with n len have "length xs \<le> unat (u32_diff tail head)" by simp
  with True show ?thesis by (simp add: word_le_nat_alt circ_ok_mask [OF ok])
next
  case False
  then have "head \<le> tail" by simp
  from unat_diff_le [OF this] len False show ?thesis
    by (simp only: word_le_nat_alt circ_ok_mask [OF ok]) (auto simp: word_le_nat_alt)
qed

lemma u32_diff_commute: "u32_diff a b = u32_diff b a"
  by (simp add: u32_diff_def abs_minus_commute)

text \<open>Read as an \<open>int\<close>, the distance is the number of elements, or negative after a wrap.\<close>

lemma sint_small:
  fixes w :: u32
  assumes "n < 2 ^ 31" and "unat w = n"
  shows "sint w = int n"
proof -
  have u: "uint w = int n" using assms(2) by (metis of_nat_unat)
  have "sint w = signed_take_bit 31 (uint w)" by (simp add: sint_uint)
  also have "\<dots> = int n" unfolding u by (rule signed_take_bit_int_eq_self) (use assms(1) in simp_all)
  finally show ?thesis .
qed

lemma sint_big:
  fixes w :: u32
  assumes "2 ^ 31 \<le> n" and "unat w = n"
  shows "sint w < 0"
proof (rule ccontr)
  assume "\<not> sint w < 0"
  then obtain m where m: "sint w = int m" by (metis int_ops(1) linorder_not_less zero_le_imp_eq_int)
  have "m < 2 ^ 31" using sint_less [of w] by (simp add: m)
  have "uint w = take_bit 32 (sint w)" by (simp add: uint_sint)
  also have "\<dots> = int m"
    unfolding m by (rule take_bit_int_eq_self) (use \<open>m < 2 ^ 31\<close> in simp_all)
  finally have "unat w = m" by (metis nat_int unat_eq_nat_uint)
  with assms \<open>m < 2 ^ 31\<close> show False by simp
qed

lemma sint_u32_diff:
  assumes "unat (tail - head) < 2 ^ 31" and "head \<le> tail"
  shows "sint (u32_diff tail head) = int (unat (tail - head))"
  using assms(1) unat_diff_le [OF assms(2)] by (rule sint_small)

lemma sint_u32_diff_wrapped:
  assumes "unat (tail - head) \<le> 2 ^ 31" and "tail < head"
  shows "sint (u32_diff tail head) < 0"
proof (rule sint_big)
  show "2 ^ 31 \<le> 2 ^ 32 - unat (tail - head)" using assms(1) by simp
qed (rule unat_diff_wrapped [OF assms(2)])

section \<open>The contract of a bounded FIFO\<close>

text \<open>
  What the users of a circular buffer rely on: under the invariant, an insertion with room appends,
  a removal from a non-empty buffer takes the first element, and both keep the invariant.
\<close>

locale bounded_fifo =
  fixes push :: "'a \<Rightarrow> 's \<Rightarrow> 's"
    and pop :: "'s \<Rightarrow> 'a \<times> 's"
    and contents :: "'s \<Rightarrow> 'a list"
    and capacity :: "'s \<Rightarrow> nat"
    and invar :: "'s \<Rightarrow> bool"
  assumes contents_push: "invar s \<Longrightarrow> length (contents s) < capacity s \<Longrightarrow>
      contents (push x s) = contents s @ [x]"
    and inv_push: "invar s \<Longrightarrow> length (contents s) < capacity s \<Longrightarrow> invar (push x s)"
    and capacity_push: "invar s \<Longrightarrow> capacity (push x s) = capacity s"
    and pop_contents: "invar s \<Longrightarrow> contents s = y # ys \<Longrightarrow>
      fst (pop s) = y \<and> contents (snd (pop s)) = ys"
    and inv_pop: "invar s \<Longrightarrow> contents s \<noteq> [] \<Longrightarrow> invar (snd (pop s))"

text \<open>Repeated insertion and removal.\<close>

fun pushes :: "('a \<Rightarrow> 's \<Rightarrow> 's) \<Rightarrow> 'a list \<Rightarrow> 's \<Rightarrow> 's" where
  "pushes push [] s = s"
| "pushes push (x # xs) s = pushes push xs (push x s)"

fun pops :: "('s \<Rightarrow> 'a \<times> 's) \<Rightarrow> nat \<Rightarrow> 's \<Rightarrow> 'a list \<times> 's" where
  "pops pop 0 s = ([], s)"
| "pops pop (Suc n) s =
     (let (x, s1) = pop s; (xs, s2) = pops pop n s1 in (x # xs, s2))"

context bounded_fifo begin

lemma pushes_contents:
  "invar s \<Longrightarrow> length (contents s) + length xs \<le> capacity s \<Longrightarrow>
   contents (pushes push xs s) = contents s @ xs \<and> invar (pushes push xs s) \<and>
   capacity (pushes push xs s) = capacity s"
  by (induction xs arbitrary: s) (simp_all add: contents_push inv_push capacity_push)

lemma pops_contents:
  "invar s \<Longrightarrow> n \<le> length (contents s) \<Longrightarrow>
   fst (pops pop n s) = take n (contents s) \<and>
   contents (snd (pops pop n s)) = drop n (contents s) \<and> invar (snd (pops pop n s))"
proof (induction n arbitrary: s)
  case (Suc n)
  then obtain y ys where c: "contents s = y # ys" by (cases "contents s") auto
  with pop_contents [OF Suc.prems(1) c] inv_pop [OF Suc.prems(1)] Suc.prems
  show ?case
    using Suc.IH [of "snd (pop s)"] by (simp add: split_beta Let_def)
qed simp

text \<open>First in, first out: what is inserted comes out after what was there, in order.\<close>

lemma fifo:
  assumes "invar s" and "length (contents s) + length xs \<le> capacity s"
  shows "fst (pops pop (length (contents s) + length xs) (pushes push xs s)) = contents s @ xs"
  using pushes_contents [OF assms] pops_contents by simp

end

end
