(* ===== verification/Workqueue.thy ===== *)
theory Workqueue
  imports GwCirc
begin

text \<open>
  core/workqueue.c and include/gw/workqueue.h: the data of the work queue and its operations.

  Everything the code does between taking \<open>work_list_lock\<close> and the next \<open>mutex_unlock\<close> or
  \<open>cond_wait\<close> is one function here, a critical section: it maps the queue to the new queue and
  the events (signals, threads started, deleters called) it causes, in order. Theory WorkqueueSys
  interleaves the sections of many threads. Condition variables and the mutex have no field in the
  record: who waits on them is the state of the threads.
\<close>

section \<open>Data\<close>

record workqueue_attr =
  attr_name :: string
  flags :: u32
  max_threads :: u32
  min_threads :: u32
  max_pending_works :: u32

definition WQ_F_LAZY_THREAD_CREATION :: u32 where
  "WQ_F_LAZY_THREAD_CREATION = 1"

definition WQ_F_ALL :: u32 where
  "WQ_F_ALL = WQ_F_LAZY_THREAD_CREATION"

record work_struct =
  func :: ptr
  arg :: ptr
  deleter :: ptr

definition zero_work :: work_struct where
  "zero_work = \<lparr>func = NULL, arg = NULL, deleter = NULL\<rparr>"

text \<open>\<open>thread\<close> says whether \<open>thread_create\<close> has stored a thread in the handle, \<open>worker_wq\<close>
  whether the field \<open>wq\<close> of the slot is set, which is how the code marks a slot as taken.\<close>

record worker_thread =
  worker_id :: u32
  thread :: bool
  worker_wq :: bool

record workqueue_struct =
  should_stop :: bool
  queue_is_blocked :: bool
  wait_all_is_waiting :: bool
  nr_sleeping_workers :: u32
  nr_sleeping_queuers :: u32
  nr_online_workers :: u32
  nr_running_workers :: u32
  attr :: workqueue_attr
  workers :: "worker_thread list"
  wq_mask :: u32
  wq_head :: u32
  wq_tail :: u32
  work_list :: "work_struct list"

datatype wq_cond = Worker_cond | Wait_all_cond | Queue_work_cond

datatype wq_event =
    Signal wq_cond
  | Broadcast wq_cond
  | Thread_started nat
  | Deleter_called work_struct

text \<open>What an initialiser acquires.\<close>

datatype wq_resource =
  R_wq | R_work_list_lock | R_cond wq_cond | R_workers | R_thread nat

section \<open>The attributes\<close>

definition count_pending_works :: "workqueue_struct \<Rightarrow> int" where
  "count_pending_works wq = \<bar>uint (wq_tail wq) - uint (wq_head wq)\<bar>"

text \<open>\<open>None\<close>: the rounding loop never ends.\<close>

definition validate_and_adjust_workqueue_attr ::
    "workqueue_attr \<Rightarrow> (int \<times> workqueue_attr) option" where
  "validate_and_adjust_workqueue_attr at =
     (if flags at AND NOT WQ_F_ALL \<noteq> 0 then Some (- EINVAL, at)
      else
        let at1 = (if max_threads at = 0 then at\<lparr>max_threads := 4\<rparr> else at)
        in if max_threads at1 < min_threads at1 then Some (- EINVAL, at1)
           else map_option (\<lambda>mx. (0, at1\<lparr>max_pending_works := mx\<rparr>))
                  (round_up_pow2 2 (max_pending_works at1)))"

section \<open>Allocation\<close>

text \<open>The answers of the allocator and of the thread library while a queue is set up.\<close>

record wq_env =
  env_calloc_wq :: bool
  env_mutex_init :: int
  env_cond_init :: "wq_cond \<Rightarrow> int"
  env_calloc_workers :: bool
  env_thread_create :: "nat \<Rightarrow> int"

text \<open>The creation loop of \<open>alloc_workers\<close>, from slot \<open>i\<close> with \<open>n\<close> threads still to create:
  the return value of the last \<open>thread_create\<close>, the slot it stopped at and the slots.\<close>

fun create_workers ::
    "(nat \<Rightarrow> int) \<Rightarrow> nat \<Rightarrow> nat \<Rightarrow> worker_thread list \<Rightarrow> int \<times> nat \<times> worker_thread list" where
  "create_workers tc i 0 ws = (0, i, ws)"
| "create_workers tc i (Suc n) ws =
     (let ret = tc i;
          ws1 = ws[i := (ws ! i)\<lparr>worker_wq := True, thread := (ret = 0)\<rparr>]
      in if ret \<noteq> 0 then (ret, i, ws1) else create_workers tc (Suc i) n ws1)"

definition nr_thread_to_create :: "workqueue_attr \<Rightarrow> u32" where
  "nr_thread_to_create at =
     (if flags at AND WQ_F_LAZY_THREAD_CREATION \<noteq> 0 then min_threads at else max_threads at)"

definition zero_workers :: "u32 \<Rightarrow> worker_thread list" where
  "zero_workers n = map (\<lambda>i. \<lparr>worker_id = of_nat i, thread = False, worker_wq = False\<rparr>) [0..<unat n]"

definition alloc_workers ::
    "wq_env \<Rightarrow> workqueue_struct \<Rightarrow> int \<times> workqueue_struct \<times> wq_event list \<times> wq_resource trace_ev list" where
  "alloc_workers env wq =
     (if \<not> env_calloc_workers env then (- ENOMEM, wq, [], [])
      else
        let (ret, i, ws) = create_workers (env_thread_create env) 0
              (unat (nr_thread_to_create (attr wq))) (zero_workers (max_threads (attr wq)));
            started = Acquire R_workers # map (Acquire \<circ> R_thread) [0..<i]
        in if ret \<noteq> 0
           then (ret, wq\<lparr>should_stop := True\<rparr>, [Broadcast Worker_cond],
                 started @ map (Release \<circ> R_thread) (rev [0..<i]) @ [Release R_workers])
           else (0, wq\<lparr>workers := ws\<rparr>, map Thread_started [0..<i], started))"

text \<open>The queue as \<open>calloc\<close> and the first assignments of \<open>alloc_workqueue\<close> leave it.\<close>

definition fresh_wq :: "workqueue_attr \<Rightarrow> workqueue_struct" where
  "fresh_wq at = \<lparr>should_stop = False, queue_is_blocked = False, wait_all_is_waiting = False,
     nr_sleeping_workers = 0, nr_sleeping_queuers = 0, nr_online_workers = 0,
     nr_running_workers = 0, attr = at, workers = [], wq_mask = max_pending_works at - 1,
     wq_head = 0, wq_tail = 0,
     work_list = replicate (unat (max_pending_works at)) zero_work\<rparr>"

text \<open>The label chain of \<open>alloc_workqueue\<close>, innermost label first.\<close>

definition err_free_wq :: "wq_resource trace_ev list" where
  "err_free_wq = [Release R_wq]"

definition err_free_work_list_lock :: "wq_resource trace_ev list" where
  "err_free_work_list_lock = Release R_work_list_lock # err_free_wq"

definition err_free_work_list_cond :: "wq_resource trace_ev list" where
  "err_free_work_list_cond = Release (R_cond Worker_cond) # err_free_work_list_lock"

definition err_free_wait_all_cond :: "wq_resource trace_ev list" where
  "err_free_wait_all_cond = Release (R_cond Wait_all_cond) # err_free_work_list_cond"

definition err_free_queue_work_cond :: "wq_resource trace_ev list" where
  "err_free_queue_work_cond = Release (R_cond Queue_work_cond) # err_free_wait_all_cond"

lemmas err_label_defs = err_free_wq_def err_free_work_list_lock_def err_free_work_list_cond_def
  err_free_wait_all_cond_def err_free_queue_work_cond_def

definition alloc_workqueue ::
    "wq_env \<Rightarrow> workqueue_attr \<Rightarrow>
     (int \<times> workqueue_struct option \<times> wq_event list \<times> wq_resource trace_ev list) option" where
  "alloc_workqueue env attr_arg =
     (case validate_and_adjust_workqueue_attr attr_arg of
        None \<Rightarrow> None
      | Some (ret, at) \<Rightarrow>
          if ret \<noteq> 0 then Some (ret, None, [], [])
          else if \<not> env_calloc_wq env then Some (- ENOMEM, None, [], [])
          else
            let wq = fresh_wq at;
                t0 = [Acquire R_wq];
                r1 = env_mutex_init env;
                t1 = t0 @ [Acquire R_work_list_lock];
                r2 = env_cond_init env Worker_cond;
                t2 = t1 @ [Acquire (R_cond Worker_cond)];
                r3 = env_cond_init env Wait_all_cond;
                t3 = t2 @ [Acquire (R_cond Wait_all_cond)];
                r4 = env_cond_init env Queue_work_cond;
                t4 = t3 @ [Acquire (R_cond Queue_work_cond)]
            in if r1 \<noteq> 0 then Some (r1, None, [], t0 @ err_free_wq)
               else if r2 \<noteq> 0 then Some (r2, None, [], t1 @ err_free_work_list_lock)
               else if r3 \<noteq> 0 then Some (r3, None, [], t2 @ err_free_work_list_cond)
               else if r4 \<noteq> 0 then Some (r4, None, [], t3 @ err_free_wait_all_cond)
               else
                 (case alloc_workers env wq of
                    (r5, wq5, ev5, t5) \<Rightarrow>
                      if r5 \<noteq> 0 then Some (r5, None, ev5, t4 @ t5 @ err_free_queue_work_cond)
                      else Some (0, Some wq5, ev5, t4 @ t5)))"

section \<open>Queueing work\<close>

text \<open>The two accesses to the circular list: \<open>work_list[tail++ & mask] = work\<close> and
  \<open>work_list[head++ & mask]\<close>.\<close>

definition wq_push :: "work_struct \<Rightarrow> workqueue_struct \<Rightarrow> workqueue_struct" where
  "wq_push work wq =
     wq\<lparr>work_list := (work_list wq)[slot (wq_tail wq) (wq_mask wq) := work],
        wq_tail := wq_tail wq + 1\<rparr>"

definition wq_pop :: "workqueue_struct \<Rightarrow> work_struct \<times> workqueue_struct" where
  "wq_pop wq = (work_list wq ! slot (wq_head wq) (wq_mask wq), wq\<lparr>wq_head := wq_head wq + 1\<rparr>)"

definition wq_contents :: "workqueue_struct \<Rightarrow> work_struct list" where
  "wq_contents wq = circ_contents (work_list wq) (wq_mask wq) (wq_head wq) (wq_tail wq)"

definition get_free_worker_slot :: "workqueue_struct \<Rightarrow> nat option" where
  "get_free_worker_slot wq =
     List.find (\<lambda>i. \<not> worker_wq (workers wq ! i)) [0..<unat (max_threads (attr wq))]"

text \<open>\<open>tc i\<close> is what \<open>thread_create\<close> returns for slot \<open>i\<close>. The slot is marked as taken
  before the thread is created, and stays marked if the creation fails.\<close>

definition arm_spawn_worker ::
    "(nat \<Rightarrow> int) \<Rightarrow> workqueue_struct \<Rightarrow> int \<times> workqueue_struct \<times> wq_event list" where
  "arm_spawn_worker tc wq =
     (case get_free_worker_slot wq of
        None \<Rightarrow> (- EAGAIN, wq, [])
      | Some i \<Rightarrow>
          (tc i,
           wq\<lparr>workers := (workers wq)[i := (workers wq ! i)\<lparr>worker_wq := True, thread := (tc i = 0)\<rparr>]\<rparr>,
           if tc i = 0 then [Thread_started i] else []))"

definition arm_worker ::
    "(nat \<Rightarrow> int) \<Rightarrow> workqueue_struct \<Rightarrow> int \<times> workqueue_struct \<times> wq_event list" where
  "arm_worker tc wq =
     (if nr_sleeping_workers wq = 0 then arm_spawn_worker tc wq
      else (0, wq, [Signal Worker_cond]))"

definition try_queue_work_locked ::
    "(nat \<Rightarrow> int) \<Rightarrow> work_struct \<Rightarrow> workqueue_struct \<Rightarrow> int \<times> workqueue_struct \<times> wq_event list" where
  "try_queue_work_locked tc work wq =
     (if should_stop wq then (- EOWNERDEAD, wq, [])
      else if queue_is_blocked wq then (- EAGAIN, wq, [])
      else if uint (max_pending_works (attr wq)) \<le> count_pending_works wq then (- EAGAIN, wq, [])
      else
        let (_, wq1, ev) = arm_worker tc (wq_push work wq)
        in (0, wq1, ev))"

text \<open>
  One pass through the loop of \<open>queue_work\<close>: either it breaks with a return value (\<open>Some\<close>),
  or the caller goes to sleep on \<open>queue_work_cond\<close> (\<open>None\<close>).
\<close>

definition queue_work_pass ::
    "(nat \<Rightarrow> int) \<Rightarrow> work_struct \<Rightarrow> workqueue_struct \<Rightarrow> int option \<times> workqueue_struct \<times> wq_event list" where
  "queue_work_pass tc work wq =
     (let (ret, wq1, ev) = try_queue_work_locked tc work wq
      in if ret \<le> 0 \<and> ret \<noteq> - EAGAIN then (Some ret, wq1, ev)
         else (None, wq1\<lparr>nr_sleeping_queuers := nr_sleeping_queuers wq1 + 1\<rparr>, ev))"

definition queue_work_woken :: "workqueue_struct \<Rightarrow> workqueue_struct" where
  "queue_work_woken wq = wq\<lparr>nr_sleeping_queuers := nr_sleeping_queuers wq - 1\<rparr>"

text \<open>
  The whole call. \<open>others\<close> lists what the other threads do to the queue during each sleep; when
  it runs out, the caller is still asleep and the call has not returned (\<open>None\<close>). The unused
  rest of the list is returned with the result.
\<close>

fun queue_work_loop ::
    "(nat \<Rightarrow> int) \<Rightarrow> (workqueue_struct \<Rightarrow> workqueue_struct) list \<Rightarrow> work_struct \<Rightarrow> workqueue_struct \<Rightarrow>
     (int \<times> workqueue_struct \<times> wq_event list \<times> (workqueue_struct \<Rightarrow> workqueue_struct) list) option" where
  "queue_work_loop tc others work wq =
     (case queue_work_pass tc work wq of
        (Some ret, wq1, ev) \<Rightarrow> Some (ret, wq1, ev, others)
      | (None, wq1, ev) \<Rightarrow>
          (case others of
             [] \<Rightarrow> None
           | other # rest \<Rightarrow>
               map_option (\<lambda>(ret, wq2, ev2, rest2). (ret, wq2, ev @ ev2, rest2))
                 (queue_work_loop tc rest work (queue_work_woken (other wq1)))))"

declare queue_work_loop.simps [simp del]

definition queue_work ::
    "(nat \<Rightarrow> int) \<Rightarrow> (workqueue_struct \<Rightarrow> workqueue_struct) list \<Rightarrow> ptr \<Rightarrow> ptr \<Rightarrow> ptr \<Rightarrow> workqueue_struct \<Rightarrow>
     (int \<times> workqueue_struct \<times> wq_event list \<times> (workqueue_struct \<Rightarrow> workqueue_struct) list) option" where
  "queue_work tc others fn a del wq =
     queue_work_loop tc others \<lparr>func = fn, arg = a, deleter = del\<rparr> wq"

section \<open>The worker\<close>

datatype event_wait = Wait_stopped | Wait_ready | Wait_asleep

text \<open>One pass of the loop of \<open>wait_for_event\<close>: it returns false, returns true, or sleeps.\<close>

definition wait_for_event_pass ::
    "workqueue_struct \<Rightarrow> event_wait \<times> workqueue_struct \<times> wq_event list" where
  "wait_for_event_pass wq =
     (if should_stop wq \<and> \<not> queue_is_blocked wq then (Wait_stopped, wq, [])
      else if wq_head wq \<noteq> wq_tail wq then (Wait_ready, wq, [])
      else (Wait_asleep, wq\<lparr>nr_sleeping_workers := nr_sleeping_workers wq + 1\<rparr>,
            if wait_all_is_waiting wq then [Broadcast Wait_all_cond] else []))"

definition wake_up_all_queue_work_callers :: "workqueue_struct \<Rightarrow> wq_event list" where
  "wake_up_all_queue_work_callers wq =
     (if nr_running_workers wq = 0 then []
      else if nr_sleeping_queuers wq = 1 then [Signal Queue_work_cond]
      else if 1 < nr_sleeping_queuers wq then [Broadcast Queue_work_cond]
      else [])"

datatype worker_turn = Turn_exits | Turn_runs work_struct | Turn_sleeps

text \<open>
  The head of the loop of \<open>worker_func\<close>, up to the next point where the lock is released: the
  thread exits, has taken a work and counts as running, or sleeps inside \<open>wait_for_event\<close>.
\<close>

definition worker_loop :: "workqueue_struct \<Rightarrow> worker_turn \<times> workqueue_struct \<times> wq_event list" where
  "worker_loop wq =
     (case wait_for_event_pass wq of
        (Wait_stopped, wq1, ev) \<Rightarrow>
          (Turn_exits, wq1\<lparr>nr_online_workers := nr_online_workers wq1 - 1\<rparr>, ev)
      | (Wait_ready, wq1, ev) \<Rightarrow>
          (let (work, wq2) = wq_pop wq1
           in (Turn_runs work, wq2\<lparr>nr_running_workers := nr_running_workers wq2 + 1\<rparr>, ev))
      | (Wait_asleep, wq1, ev) \<Rightarrow> (Turn_sleeps, wq1, ev))"

text \<open>The three sections of \<open>worker_func\<close>: from the start, from the return of \<open>cond_wait\<close>, and
  from the lock taken again after the work has run.\<close>

definition worker_start :: "workqueue_struct \<Rightarrow> worker_turn \<times> workqueue_struct \<times> wq_event list" where
  "worker_start wq = worker_loop (wq\<lparr>nr_online_workers := nr_online_workers wq + 1\<rparr>)"

definition worker_woken :: "workqueue_struct \<Rightarrow> worker_turn \<times> workqueue_struct \<times> wq_event list" where
  "worker_woken wq = worker_loop (wq\<lparr>nr_sleeping_workers := nr_sleeping_workers wq - 1\<rparr>)"

definition worker_done :: "workqueue_struct \<Rightarrow> worker_turn \<times> workqueue_struct \<times> wq_event list" where
  "worker_done wq =
     (let wq1 = wq\<lparr>nr_running_workers := nr_running_workers wq - 1\<rparr>;
          ev1 = wake_up_all_queue_work_callers wq1;
          (turn, wq2, ev2) = worker_loop wq1
      in (turn, wq2, ev1 @ ev2))"

text \<open>What the worker calls between the two sections, without the lock: the function if it is not
  \<open>NULL\<close>, then the deleter if it is not \<open>NULL\<close>, both on the work's argument.\<close>

definition work_calls :: "work_struct \<Rightarrow> (ptr \<times> ptr) list" where
  "work_calls w =
     (if func w \<noteq> NULL then [(func w, arg w)] else []) @
     (if deleter w \<noteq> NULL then [(deleter w, arg w)] else [])"

section \<open>Waiting for all work\<close>

text \<open>One pass of the loop of \<open>wait_all_work_done\<close>: true when it is left (and the function
  returns), false when the caller sleeps on \<open>wait_all_cond\<close>.\<close>

definition wait_all_pass :: "workqueue_struct \<Rightarrow> bool \<times> workqueue_struct" where
  "wait_all_pass wq =
     (if (0 < count_pending_works wq \<or> nr_running_workers wq \<noteq> 0) \<and> \<not> should_stop wq
      then (False, wq\<lparr>wait_all_is_waiting := True\<rparr>)
      else (True, wq\<lparr>queue_is_blocked := False\<rparr>))"

definition wait_all_work_done :: "workqueue_struct \<Rightarrow> bool \<times> workqueue_struct" where
  "wait_all_work_done wq = wait_all_pass (wq\<lparr>queue_is_blocked := True\<rparr>)"

definition wait_all_woken :: "workqueue_struct \<Rightarrow> bool \<times> workqueue_struct" where
  "wait_all_woken wq = wait_all_pass (wq\<lparr>wait_all_is_waiting := False\<rparr>)"

section \<open>Destruction\<close>

text \<open>The loop of \<open>clear_pending_works\<close>: the works it removes, in order, and the queue after it.\<close>

function clear_pending_works :: "workqueue_struct \<Rightarrow> work_struct list \<times> workqueue_struct" where
  "clear_pending_works wq =
     (if wq_head wq \<noteq> wq_tail wq
      then let (work, wq1) = wq_pop wq; (ws, wq2) = clear_pending_works wq1 in (work # ws, wq2)
      else ([], wq))"
  by pat_completeness auto
termination
proof (relation "measure (\<lambda>wq. unat (wq_tail wq - wq_head wq))")
  show "wf (measure (\<lambda>wq. unat (wq_tail wq - wq_head wq)))" by simp
next
  fix wq :: workqueue_struct and x work wq1
  assume "wq_head wq \<noteq> wq_tail wq" and "x = wq_pop wq" and "(work, wq1) = x"
  then show "(wq1, wq) \<in> measure (\<lambda>wq. unat (wq_tail wq - wq_head wq))"
    using unat_diff_pop [of "wq_head wq" "wq_tail wq"] by (simp add: wq_pop_def)
qed

declare clear_pending_works.simps [simp del]

definition deleter_events :: "work_struct list \<Rightarrow> wq_event list" where
  "deleter_events ws = map Deleter_called (filter (\<lambda>w. deleter w \<noteq> NULL) ws)"

definition wake_up_all_workers :: "workqueue_struct \<Rightarrow> wq_event list" where
  "wake_up_all_workers wq =
     (if nr_sleeping_workers wq = 1 then [Signal Worker_cond]
      else if 1 < nr_sleeping_workers wq then [Broadcast Worker_cond] else []) @
     (if wait_all_is_waiting wq then [Broadcast Wait_all_cond] else [])"

text \<open>The section of \<open>destroy_workqueue\<close> under the lock; the works it clears come first.\<close>

definition destroy_workqueue_locked ::
    "workqueue_struct \<Rightarrow> work_struct list \<times> workqueue_struct \<times> wq_event list" where
  "destroy_workqueue_locked wq =
     (let (ws, wq1) = clear_pending_works (wq\<lparr>should_stop := True\<rparr>)
      in (ws, wq1, deleter_events ws @ wake_up_all_workers wq1))"

text \<open>
  \<open>join_all_workers\<close> joins the handle of every slot marked as taken, in order, and asserts that
  the slot's id is its index. The slots with no thread behind their handle are joined all the same.
\<close>

definition join_all_workers :: "workqueue_struct \<Rightarrow> wq_resource trace_ev list \<times> bool" where
  "join_all_workers wq =
     (let joined = filter (\<lambda>i. worker_wq (workers wq ! i)) [0..<unat (max_threads (attr wq))]
      in (map (Release \<circ> R_thread) joined,
          list_all (\<lambda>i. worker_id (workers wq ! i) = of_nat i) joined))"

text \<open>The rest of \<open>destroy_workqueue\<close>, after the lock: what it releases, in order.\<close>

definition destroy_workqueue_release :: "workqueue_struct \<Rightarrow> wq_resource trace_ev list" where
  "destroy_workqueue_release wq =
     fst (join_all_workers wq) @
     [Release (R_cond Queue_work_cond), Release (R_cond Wait_all_cond), Release (R_cond Worker_cond),
      Release R_work_list_lock, Release R_workers, Release R_wq]"

section \<open>Well-formed queues and the FIFO contract\<close>

definition wq_ok :: "workqueue_struct \<Rightarrow> bool" where
  "wq_ok wq =
     (circ_ok (work_list wq) (wq_mask wq) \<and>
      unat (wq_tail wq - wq_head wq) \<le> length (work_list wq) \<and>
      max_pending_works (attr wq) = wq_mask wq + 1 \<and>
      length (workers wq) = unat (max_threads (attr wq)) \<and>
      max_threads (attr wq) \<noteq> 0 \<and>
      (\<forall>i < length (workers wq). worker_id (workers wq ! i) = of_nat i))"

lemma wq_okD [wf_simps]:
  assumes "wq_ok wq"
  shows "circ_ok (work_list wq) (wq_mask wq)"
    and "length (wq_contents wq) \<le> length (work_list wq)"
    and "max_pending_works (attr wq) = wq_mask wq + 1"
    and "length (workers wq) = unat (max_threads (attr wq))"
  using assms by (simp_all add: wq_ok_def wq_contents_def)

lemma wq_contents_length [simp]: "length (wq_contents wq) = unat (wq_tail wq - wq_head wq)"
  by (simp add: wq_contents_def)

lemma wq_contents_Nil_iff: "wq_contents wq = [] \<longleftrightarrow> wq_head wq = wq_tail wq"
  by (simp add: wq_contents_def circ_contents_Nil_iff)

text \<open>Counters and flags do not matter for well-formedness, nor for the pending works.\<close>

lemma wq_ok_flags [simp]:
  "wq_ok (wq\<lparr>nr_online_workers := x0\<rparr>) = wq_ok wq"
  "wq_ok (wq\<lparr>nr_sleeping_workers := x1\<rparr>) = wq_ok wq"
  "wq_ok (wq\<lparr>nr_running_workers := x2\<rparr>) = wq_ok wq"
  "wq_ok (wq\<lparr>nr_sleeping_queuers := x3\<rparr>) = wq_ok wq"
  "wq_ok (wq\<lparr>should_stop := x4\<rparr>) = wq_ok wq"
  "wq_ok (wq\<lparr>queue_is_blocked := x5\<rparr>) = wq_ok wq"
  "wq_ok (wq\<lparr>wait_all_is_waiting := x6\<rparr>) = wq_ok wq"
  by (simp_all add: wq_ok_def)

lemma wq_contents_flags [simp]:
  "wq_contents (wq\<lparr>nr_online_workers := x0\<rparr>) = wq_contents wq"
  "wq_contents (wq\<lparr>nr_sleeping_workers := x1\<rparr>) = wq_contents wq"
  "wq_contents (wq\<lparr>nr_running_workers := x2\<rparr>) = wq_contents wq"
  "wq_contents (wq\<lparr>nr_sleeping_queuers := x3\<rparr>) = wq_contents wq"
  "wq_contents (wq\<lparr>should_stop := x4\<rparr>) = wq_contents wq"
  "wq_contents (wq\<lparr>queue_is_blocked := x5\<rparr>) = wq_contents wq"
  "wq_contents (wq\<lparr>wait_all_is_waiting := x6\<rparr>) = wq_contents wq"
  by (simp_all add: wq_contents_def)

lemma wq_push_ok:
  assumes ok: "wq_ok wq" and room: "unat (wq_tail wq - wq_head wq) < length (work_list wq)"
  shows "wq_ok (wq_push w wq) \<and> wq_contents (wq_push w wq) = wq_contents wq @ [w]"
proof -
  have *: "circ_contents ((work_list wq)[slot (wq_tail wq) (wq_mask wq) := w]) (wq_mask wq)
        (wq_head wq) (wq_tail wq + 1) = wq_contents wq @ [w]"
    unfolding wq_contents_def by (rule circ_contents_push) (use ok room in \<open>simp_all add: wq_ok_def\<close>)
  then have "unat (wq_tail wq + 1 - wq_head wq) = Suc (length (wq_contents wq))"
    by (metis length_append_singleton length_circ_contents)
  with * ok room show ?thesis
    by (simp add: wq_ok_def wq_push_def wq_contents_def)
qed

lemma wq_pop_ok:
  assumes ok: "wq_ok wq" and c: "wq_contents wq = y # ys"
  shows "fst (wq_pop wq) = y \<and> wq_contents (snd (wq_pop wq)) = ys \<and> wq_ok (snd (wq_pop wq))"
proof -
  have ne: "wq_head wq \<noteq> wq_tail wq" using c wq_contents_Nil_iff [of wq] by auto
  from c circ_contents_pop [OF ne, of "work_list wq" "wq_mask wq"] have
    "y = work_list wq ! slot (wq_head wq) (wq_mask wq)"
    "ys = circ_contents (work_list wq) (wq_mask wq) (wq_head wq + 1) (wq_tail wq)"
    by (simp_all add: wq_contents_def)
  moreover have "unat (wq_tail wq - (wq_head wq + 1)) \<le> length (work_list wq)"
    using ok unat_diff_pop [OF ne] by (simp add: wq_ok_def)
  ultimately show ?thesis
    using ok by (simp add: wq_pop_def wq_contents_def wq_ok_def)
qed

interpretation work_fifo: bounded_fifo wq_push wq_pop wq_contents "\<lambda>wq. length (work_list wq)" wq_ok
proof unfold_locales
  show "wq_contents (wq_push w wq) = wq_contents wq @ [w]"
    if "wq_ok wq" "length (wq_contents wq) < length (work_list wq)" for wq w
    using wq_push_ok that by simp
  show "wq_ok (wq_push w wq)"
    if "wq_ok wq" "length (wq_contents wq) < length (work_list wq)" for wq w
    using wq_push_ok that by simp
  show "length (work_list (wq_push w wq)) = length (work_list wq)" if "wq_ok wq" for wq w
    by (simp add: wq_push_def)
  show "fst (wq_pop wq) = y \<and> wq_contents (snd (wq_pop wq)) = ys"
    if "wq_ok wq" "wq_contents wq = y # ys" for wq y ys
    using wq_pop_ok that by simp
  show "wq_ok (snd (wq_pop wq))" if "wq_ok wq" "wq_contents wq \<noteq> []" for wq
    using wq_pop_ok that by (metis neq_Nil_conv)
qed

text \<open>
  \<open>count_pending_works\<close> is the number of pending works while the tail has not wrapped below the
  head, and the complement to \<open>2 ^ 32\<close> once it has.
\<close>

lemma count_pending_works_eq:
  "count_pending_works wq =
     (if wq_tail wq < wq_head wq then 2 ^ 32 - int (length (wq_contents wq))
      else int (length (wq_contents wq)))"
proof -
  have *: "count_pending_works wq = int (unat (u32_diff (wq_tail wq) (wq_head wq)))"
    by (simp add: count_pending_works_def uint_u32_diff)
  moreover have len: "length (wq_contents wq) < 2 ^ 32"
    using unsigned_less [of "wq_tail wq - wq_head wq"] by simp
  ultimately show ?thesis
  proof (cases "wq_tail wq < wq_head wq")
    case True
    from * unat_diff_wrapped [OF True] have
      "count_pending_works wq = int (2 ^ 32 - length (wq_contents wq))"
      by (simp only: wq_contents_length)
    with True len show ?thesis by (simp del: wq_contents_length)
  next
    case False
    then have "wq_head wq \<le> wq_tail wq" by simp
    from * unat_diff_le [OF this] have "count_pending_works wq = int (length (wq_contents wq))"
      by (simp only: wq_contents_length)
    with False show ?thesis by (simp del: wq_contents_length)
  qed
qed

lemma count_pending_works_pos: "0 < count_pending_works wq \<longleftrightarrow> wq_contents wq \<noteq> []"
proof -
  have "0 < count_pending_works wq \<longleftrightarrow> wq_tail wq \<noteq> wq_head wq"
    by (auto simp: count_pending_works_def word_uint_eq_iff)
  then show ?thesis using wq_contents_Nil_iff [of wq] by auto
qed

lemma uint_max_pending:
  "wq_ok wq \<Longrightarrow> uint (max_pending_works (attr wq)) = int (length (work_list wq))"
  using circ_ok_mask [of "work_list wq" "wq_mask wq"]
  by (simp add: wq_okD uint_nat [symmetric]) (metis of_nat_unat)

lemma queue_full_iff:
  assumes ok: "wq_ok wq"
  shows "uint (max_pending_works (attr wq)) \<le> count_pending_works wq \<longleftrightarrow>
    length (wq_contents wq) = length (work_list wq) \<or> wq_tail wq < wq_head wq"
proof -
  have "length (work_list wq) \<le> 2 ^ 31"
    using circ_ok_length wq_okD(1) [OF ok] by blast
  with wq_okD(2) [OF ok] show ?thesis
    by (auto simp: count_pending_works_eq uint_max_pending [OF ok] simp del: wq_contents_length)
qed

section \<open>Queueing: functional behaviour\<close>

lemma arm_spawn_worker_frame:
  assumes "arm_spawn_worker tc wq = (r, wq', ev)"
  shows "wq' = wq\<lparr>workers := workers wq'\<rparr>" and "length (workers wq') = length (workers wq)"
    and "\<forall>i < length (workers wq). worker_id (workers wq' ! i) = worker_id (workers wq ! i)"
  using assms
  by (auto simp: arm_spawn_worker_def nth_list_update_at split: option.splits)

lemma arm_worker_frame:
  assumes "arm_worker tc wq = (r, wq', ev)"
  shows "wq' = wq\<lparr>workers := workers wq'\<rparr>" and "length (workers wq') = length (workers wq)"
    and "\<forall>i < length (workers wq). worker_id (workers wq' ! i) = worker_id (workers wq ! i)"
  using assms arm_spawn_worker_frame [of tc wq r wq' ev]
  by (auto simp: arm_worker_def split: if_splits)

lemma workers_only:
  assumes "wq' = wq\<lparr>workers := ws\<rparr>"
  shows "wq_contents wq' = wq_contents wq"
    and "length ws = length (workers wq) \<Longrightarrow>
      (\<forall>i < length (workers wq). worker_id (ws ! i) = worker_id (workers wq ! i)) \<Longrightarrow>
      wq_ok wq' = wq_ok wq"
  using assms by (simp_all add: wq_contents_def wq_ok_def)

lemma arm_worker_ok:
  assumes "arm_worker tc wq = (r, wq', ev)"
  shows "wq_contents wq' = wq_contents wq" and "wq_ok wq' = wq_ok wq"
  using workers_only [OF arm_worker_frame(1) [OF assms]] arm_worker_frame(2,3) [OF assms]
  by simp_all

lemma try_queue_work_locked_cases:
  assumes ok: "wq_ok wq" and tr: "try_queue_work_locked tc work wq = (ret, wq', ev)"
  shows "(should_stop wq \<and> ret = - EOWNERDEAD \<and> wq' = wq \<and> ev = []) \<or>
    (\<not> should_stop wq \<and>
       (queue_is_blocked wq \<or> length (wq_contents wq) = length (work_list wq) \<or>
        wq_tail wq < wq_head wq) \<and>
       ret = - EAGAIN \<and> wq' = wq \<and> ev = []) \<or>
    (\<not> should_stop wq \<and> \<not> queue_is_blocked wq \<and>
       length (wq_contents wq) < length (work_list wq) \<and> \<not> wq_tail wq < wq_head wq \<and>
       ret = 0 \<and> wq_ok wq' \<and> wq_contents wq' = wq_contents wq @ [work] \<and>
       wq' = (wq_push work wq)\<lparr>workers := workers wq'\<rparr> \<and>
       (\<exists>r. arm_worker tc (wq_push work wq) = (r, wq', ev)))"
proof -
  obtain r wq1 ev1 where arm: "arm_worker tc (wq_push work wq) = (r, wq1, ev1)"
    by (metis prod_cases3)
  note full = queue_full_iff [OF ok]
  show ?thesis
  proof (cases "should_stop wq \<or> queue_is_blocked wq \<or>
      length (wq_contents wq) = length (work_list wq) \<or> wq_tail wq < wq_head wq")
    case True
    show ?thesis
    proof (cases "should_stop wq")
      case True
      with tr show ?thesis by (simp add: try_queue_work_locked_def)
    next
      case False
      with True full have "queue_is_blocked wq \<or>
          uint (max_pending_works (attr wq)) \<le> count_pending_works wq" by blast
      with False tr have "ret = - EAGAIN" "wq' = wq" "ev = []"
        by (auto simp: try_queue_work_locked_def split: if_splits)
      with False True show ?thesis by blast
    qed
  next
    case False
    then have room: "length (wq_contents wq) < length (work_list wq)"
      using wq_okD(2) [OF ok] by (auto simp: le_less simp del: wq_contents_length)
    then have push: "wq_ok (wq_push work wq)"
        "wq_contents (wq_push work wq) = wq_contents wq @ [work]"
      using wq_push_ok [OF ok, of work] by simp_all
    from False full have flags: "\<not> should_stop wq" "\<not> queue_is_blocked wq"
        "\<not> uint (max_pending_works (attr wq)) \<le> count_pending_works wq"
      by blast+
    from tr have "(0, wq1, ev1) = (ret, wq', ev)"
      unfolding try_queue_work_locked_def if_not_P [OF flags(1)] if_not_P [OF flags(2)]
        if_not_P [OF flags(3)] arm by simp
    then have eqs: "ret = 0" "wq' = wq1" "ev = ev1" by simp_all
    from push arm_worker_ok [OF arm] have
      "wq_ok wq1" "wq_contents wq1 = wq_contents wq @ [work]" by simp_all
    with False room arm arm_worker_frame(1) [OF arm] show ?thesis
      unfolding eqs by blast
  qed
qed

text \<open>
  C23: what one attempt to queue a work does, on every branch, for a well-formed queue. A stopped
  queue answers \<open>-EOWNERDEAD\<close>; a blocked or full queue answers \<open>-EAGAIN\<close>, and so does a
  queue with room whose tail index has wrapped below its head index; in these cases nothing changes
  and nobody is woken. Otherwise the answer is 0, the work is appended to the pending works, the
  queue stays well formed, and exactly one thing happens for it: a sleeping worker is signalled, a
  worker thread is started, the creation of one failed, or no worker sleeps and all slots are taken.
\<close>

theorem try_queue_work_locked_spec:
  assumes "wq_ok wq" and "try_queue_work_locked tc work wq = (ret, wq', ev)"
  shows "ret = (if should_stop wq then - EOWNERDEAD
                else if queue_is_blocked wq \<or> length (wq_contents wq) = length (work_list wq) \<or>
                        wq_tail wq < wq_head wq
                then - EAGAIN else 0) \<and>
    (if ret = 0
     then wq_ok wq' \<and> wq_contents wq' = wq_contents wq @ [work] \<and>
          (nr_sleeping_workers wq \<noteq> 0 \<and> ev = [Signal Worker_cond] \<or>
           nr_sleeping_workers wq = 0 \<and>
             (case get_free_worker_slot wq of
                None \<Rightarrow> ev = []
              | Some i \<Rightarrow> ev = (if tc i = 0 then [Thread_started i] else [])))
     else wq' = wq \<and> ev = [])"
proof -
  note cases = try_queue_work_locked_cases [OF assms]
  have neg: "- EOWNERDEAD \<noteq> 0" "- EAGAIN \<noteq> 0" by (simp_all add: errno_defs)
  have "ret = (if should_stop wq then - EOWNERDEAD
                else if queue_is_blocked wq \<or> length (wq_contents wq) = length (work_list wq) \<or>
                        wq_tail wq < wq_head wq
                then - EAGAIN else 0)"
    using cases by auto
  moreover have "wq' = wq \<and> ev = []" if "ret \<noteq> 0" using cases that by auto
  moreover have "wq_ok wq'" "wq_contents wq' = wq_contents wq @ [work]"
    "nr_sleeping_workers wq \<noteq> 0 \<and> ev = [Signal Worker_cond] \<or>
     nr_sleeping_workers wq = 0 \<and>
       (case get_free_worker_slot wq of
          None \<Rightarrow> ev = []
        | Some i \<Rightarrow> ev = (if tc i = 0 then [Thread_started i] else []))" if "ret = 0"
    using cases neg that
    by (auto simp: arm_worker_def arm_spawn_worker_def get_free_worker_slot_def wq_push_def
        split: if_splits option.splits)
  ultimately show ?thesis by presburger
qed

text \<open>A two-slot queue with one worker slot, on which the witnesses run the operations.\<close>

definition sample_attr :: workqueue_attr where
  "sample_attr = \<lparr>attr_name = ''sample'', flags = 1, max_threads = 1, min_threads = 0,
     max_pending_works = 2\<rparr>"

definition sample_wq :: workqueue_struct where
  "sample_wq = (fresh_wq sample_attr)\<lparr>workers := zero_workers 1\<rparr>"

lemma sample_wq_fields [simp]:
  "should_stop sample_wq = False" "queue_is_blocked sample_wq = False"
  "nr_sleeping_workers sample_wq = 0" "wq_head sample_wq = 0" "wq_tail sample_wq = 0"
  "attr sample_wq = sample_attr" "work_list sample_wq = [zero_work, zero_work]"
  "workers sample_wq = [\<lparr>worker_id = 0, thread = False, worker_wq = False\<rparr>]"
  "max_threads sample_attr = 1" "wq_mask sample_wq = 1" "max_pending_works sample_attr = 2"
  by (simp_all add: sample_wq_def fresh_wq_def sample_attr_def zero_workers_def)
    (simp add: numeral_2_eq_2)

lemma sample_wq_contents [simp]: "wq_contents sample_wq = []"
  by (simp add: wq_contents_def)

lemma sample_wq_ok: "wq_ok sample_wq"
  by (auto simp: wq_ok_def circ_ok_def intro: bexI [of _ 1])

theorem try_queue_work_locked_spec_witness:
  "fst (try_queue_work_locked (\<lambda>_. 0) zero_work sample_wq) = 0 \<and>
   wq_contents (fst (snd (try_queue_work_locked (\<lambda>_. 0) zero_work sample_wq))) = [zero_work]"
proof -
  obtain r q ev where t: "try_queue_work_locked (\<lambda>_. 0) zero_work sample_wq = (r, q, ev)"
    by (metis prod_cases3)
  from try_queue_work_locked_spec [OF sample_wq_ok t] t show ?thesis by simp
qed

text \<open>
  A call of \<open>queue_work\<close> that returns, whatever the other threads did to the queue while it
  slept (they may do anything that keeps the queue well formed), returns 0 with its work as the last
  pending one, or \<open>-EOWNERDEAD\<close> from a stopped queue; it never returns \<open>-EAGAIN\<close>.
\<close>

lemma queue_work_outcome:
  assumes "queue_work tc others fn a del wq = Some (ret, wq', ev, rest)" and "wq_ok wq"
    and "\<forall>other \<in> set others. \<forall>q. wq_ok q \<longrightarrow> wq_ok (other q)"
  shows "wq_ok wq' \<and>
    (ret = 0 \<and> wq_contents wq' \<noteq> [] \<and>
       last (wq_contents wq') = \<lparr>func = fn, arg = a, deleter = del\<rparr> \<or>
     ret = - EOWNERDEAD \<and> should_stop wq')"
proof -
  define w where "w = \<lparr>func = fn, arg = a, deleter = del\<rparr>"
  have "queue_work_loop tc others w wq = Some (ret, wq', ev, rest)"
    using assms(1) by (simp add: queue_work_def w_def)
  then have "wq_ok wq' \<and> (ret = 0 \<and> wq_contents wq' \<noteq> [] \<and> last (wq_contents wq') = w \<or>
      ret = - EOWNERDEAD \<and> should_stop wq')"
    using assms(2,3)
  proof (induction others arbitrary: wq ev)
    case Nil
    obtain r q e where t: "try_queue_work_locked tc w wq = (r, q, e)" by (metis prod_cases3)
    from Nil(1) t have "r = ret" "q = wq'"
      by (auto simp: queue_work_loop.simps queue_work_pass_def split: if_splits)
    with Nil(1,2) t try_queue_work_locked_cases [OF Nil(2) t] show ?case
      by (auto simp: queue_work_loop.simps queue_work_pass_def errno_defs split: if_splits)
  next
    case (Cons other others)
    obtain r q e where t: "try_queue_work_locked tc w wq = (r, q, e)" by (metis prod_cases3)
    note spec = try_queue_work_locked_cases [OF Cons.prems(2) t]
    show ?case
    proof (cases "r \<le> 0 \<and> r \<noteq> - EAGAIN")
      case True
      with Cons.prems(1) t have "r = ret" "q = wq'"
        by (auto simp: queue_work_loop.simps queue_work_pass_def split: if_splits)
      with True spec Cons.prems(2) show ?thesis by auto
    next
      case False
      let ?q1 = "q\<lparr>nr_sleeping_queuers := nr_sleeping_queuers q + 1\<rparr>"
      have q: "wq_ok ?q1"
        using spec Cons.prems(2) by (auto simp: wq_ok_def)
      with Cons.prems(3) have ok: "wq_ok (queue_work_woken (other ?q1))"
        by (simp add: queue_work_woken_def)
      from Cons.prems(1) False t obtain e2 where
        "queue_work_loop tc others w (queue_work_woken (other ?q1)) = Some (ret, wq', e2, rest)"
        by (subst (asm) queue_work_loop.simps) (auto simp: queue_work_pass_def)
      from Cons.IH [OF this ok] Cons.prems(3) show ?thesis by simp
    qed
  qed
  then show ?thesis by (simp add: w_def)
qed

section \<open>Attributes and allocation\<close>

text \<open>
  C38: \<open>validate_and_adjust_workqueue_attr\<close>, on every branch: unknown flags and
  \<open>min_threads > max_threads\<close> (after 0 threads has become 4) give \<open>-EINVAL\<close>; a request of more
  than \<open>2 ^ 31\<close> pending works makes the rounding loop run for ever; otherwise the result is 0 and
  the pending limit becomes the least power of two that is at least 2 and at least the request.
\<close>

theorem validate_workqueue_attr_spec:
  "let mt = (if max_threads at = 0 then 4 else max_threads at);
       result = validate_and_adjust_workqueue_attr at
   in if flags at AND NOT WQ_F_ALL \<noteq> 0 then result = Some (- EINVAL, at)
      else if mt < min_threads at then result = Some (- EINVAL, at\<lparr>max_threads := mt\<rparr>)
      else if 2 ^ 31 < max_pending_works at then result = None
      else \<exists>m. 1 \<le> m \<and> m \<le> 31 \<and> max_pending_works at \<le> 2 ^ m \<and>
             (m = 1 \<or> 2 ^ (m - 1) < max_pending_works at) \<and>
             result = Some (0, at\<lparr>max_threads := mt, max_pending_works := 2 ^ m\<rparr>)"
proof -
  define mt where "mt = (if max_threads at = 0 then 4 else max_threads at)"
  note def = validate_and_adjust_workqueue_attr_def Let_def
  have big: "validate_and_adjust_workqueue_attr at = None"
    if "flags at AND NOT WQ_F_ALL = 0" "\<not> mt < min_threads at" "2 ^ 31 < max_pending_works at"
    using that round_up_pow2_diverges [of "max_pending_works at" 1] by (auto simp: def mt_def)
  have small: "\<exists>m. 1 \<le> m \<and> m \<le> 31 \<and> max_pending_works at \<le> 2 ^ m \<and>
      (m = 1 \<or> 2 ^ (m - 1) < max_pending_works at) \<and>
      validate_and_adjust_workqueue_attr at =
        Some (0, at\<lparr>max_threads := mt, max_pending_works := 2 ^ m\<rparr>)"
    if "flags at AND NOT WQ_F_ALL = 0" "\<not> mt < min_threads at" "\<not> 2 ^ 31 < max_pending_works at"
  proof -
    have le: "max_pending_works at \<le> 2 ^ 31" using that(3) by (simp only: not_less)
    from round_up_pow2_le [OF _ le, of 1] obtain m where
      "1 \<le> m" "m \<le> 31" "round_up_pow2 2 (max_pending_works at) = Some (2 ^ m)"
      "max_pending_works at \<le> 2 ^ m" "m = 1 \<or> 2 ^ (m - 1) < max_pending_works at"
      by auto
    with that show ?thesis by (intro exI [of _ m]) (auto simp: def mt_def)
  qed
  have "flags at AND NOT WQ_F_ALL \<noteq> 0 \<Longrightarrow> validate_and_adjust_workqueue_attr at = Some (- EINVAL, at)"
    and "flags at AND NOT WQ_F_ALL = 0 \<Longrightarrow> mt < min_threads at \<Longrightarrow>
      validate_and_adjust_workqueue_attr at = Some (- EINVAL, at\<lparr>max_threads := mt\<rparr>)"
    by (auto simp: def mt_def)
  with big small show ?thesis
    unfolding Let_def mt_def [symmetric] by presburger
qed

lemma validate_0:
  assumes "validate_and_adjust_workqueue_attr at = Some (0, at')"
  obtains m where "1 \<le> m" "m \<le> 31" "max_pending_works at' = 2 ^ m" "max_threads at' \<noteq> 0"
    "min_threads at' \<le> max_threads at'"
proof -
  have nz: "- EINVAL \<noteq> 0" by (simp add: EINVAL_def)
  let ?at1 = "if max_threads at = 0 then at\<lparr>max_threads := 4\<rparr> else at"
  from assms nz obtain mx where mx: "round_up_pow2 2 (max_pending_works at) = Some mx"
    and at': "at' = ?at1\<lparr>max_pending_works := mx\<rparr>" and le: "min_threads ?at1 \<le> max_threads ?at1"
    by (auto simp: validate_and_adjust_workqueue_attr_def Let_def not_less split: if_splits)
  have "max_pending_works at \<le> 2 ^ 31"
    using round_up_pow2_diverges [of "max_pending_works at" 1] mx by (auto simp: not_less [symmetric])
  from round_up_pow2_le [OF _ this, of 1] mx obtain m where "1 \<le> m" "m \<le> 31" "mx = 2 ^ m"
    by auto
  with that at' le show ?thesis by (auto split: if_splits)
qed

text \<open>What the creation loop leaves when every creation succeeds.\<close>

lemma create_workers_ok:
  assumes "create_workers tc i n ws = (0, j, ws')" and "i + n \<le> length ws"
  shows "j = i + n \<and> length ws' = length ws \<and>
    (\<forall>k < length ws. ws' ! k =
       (if i \<le> k \<and> k < i + n then (ws ! k)\<lparr>worker_wq := True, thread := True\<rparr> else ws ! k))"
  using assms
proof (induction n arbitrary: i ws)
  case (Suc n)
  let ?ws1 = "ws[i := (ws ! i)\<lparr>worker_wq := True, thread := True\<rparr>]"
  have "tc i = 0" and rec: "create_workers tc (Suc i) n ?ws1 = (0, j, ws')"
    using Suc.prems(1) by (auto simp: Let_def split: if_splits)
  from Suc.IH [OF rec] Suc.prems(2) show ?case
    by (auto simp: nth_list_update_at)
qed auto

text \<open>An unwound creation loop has joined what it started.\<close>

lemma alloc_workers_unwinds:
  assumes "alloc_workers env wq = (ret, wq', ev, tr)" and "ret \<noteq> 0"
  shows "held rs tr = Some rs"
proof -
  have *: "held rs (Acquire R_workers # map (Acquire \<circ> R_thread) [0..<i] @
      map (Release \<circ> R_thread) (rev [0..<i]) @ [Release R_workers]) = Some rs" for i
  proof -
    have "held (R_workers # rs) (map (Acquire \<circ> R_thread) [0..<i]) =
        Some (map R_thread (rev [0..<i]) @ R_workers # rs)"
      using held_acquires [of "R_workers # rs" "map R_thread [0..<i]"] by (simp add: rev_map)
    moreover have "held (map R_thread (rev [0..<i]) @ R_workers # rs)
        (map (Release \<circ> R_thread) (rev [0..<i])) = Some (R_workers # rs)"
      using held_releases [of "map R_thread (rev [0..<i])" "R_workers # rs"] by simp
    ultimately show ?thesis by (simp add: held_append)
  qed
  from assms * show ?thesis
    by (auto simp: alloc_workers_def Let_def split: if_splits prod.splits)
qed


lemma fresh_wq_ok:
  assumes "max_pending_works at = 2 ^ m" and "m \<le> 31" and "max_threads at \<noteq> 0"
    and "length ws = unat (max_threads at)" and "\<forall>i < length ws. worker_id (ws ! i) = of_nat i"
  shows "wq_ok ((fresh_wq at)\<lparr>workers := ws\<rparr>)"
  using assms by (auto simp: wq_ok_def fresh_wq_def circ_ok_def unat_two_pow intro!: bexI [of _ m])

definition all_marked_have_threads :: "workqueue_struct \<Rightarrow> bool" where
  "all_marked_have_threads wq = list_all (\<lambda>w. worker_wq w \<longrightarrow> thread w) (workers wq)"

text \<open>What a live queue holds: its memory, lock and condition variables, and its threads.\<close>

definition wq_resources :: "workqueue_struct \<Rightarrow> wq_resource list" where
  "wq_resources wq =
     [R_wq, R_work_list_lock, R_cond Worker_cond, R_cond Wait_all_cond, R_cond Queue_work_cond,
      R_workers] @
     map R_thread (filter (\<lambda>i. worker_wq (workers wq ! i) \<and> thread (workers wq ! i))
       [0..<length (workers wq)])"

lemma workers_of_alloc:
  assumes "alloc_workers env wq = (0, wq', ev, tr)"
    and "min_threads (attr wq) \<le> max_threads (attr wq)"
  obtains n where "n \<le> unat (max_threads (attr wq))"
    and "n = unat (nr_thread_to_create (attr wq))"
    and "wq' = wq\<lparr>workers := map (\<lambda>i. \<lparr>worker_id = of_nat i, thread = i < n, worker_wq = i < n\<rparr>)
           [0..<unat (max_threads (attr wq))]\<rparr>"
    and "tr = Acquire R_workers # map (Acquire \<circ> R_thread) [0..<n]"
    and "ev = map Thread_started [0..<n]"
proof -
  let ?n = "unat (nr_thread_to_create (attr wq))"
  let ?m = "unat (max_threads (attr wq))"
  obtain r j ws where c: "create_workers (env_thread_create env) 0 ?n
      (zero_workers (max_threads (attr wq))) = (r, j, ws)"
    by (metis prod_cases3)
  have nz: "- ENOMEM \<noteq> 0" by (simp add: ENOMEM_def)
  from assms(1) c nz have r: "r = 0" and wq': "wq' = wq\<lparr>workers := ws\<rparr>"
      and tr: "tr = Acquire R_workers # map (Acquire \<circ> R_thread) [0..<j]"
      and ev: "ev = map Thread_started [0..<j]"
    by (auto simp: alloc_workers_def Let_def split: if_splits)
  have n: "?n \<le> ?m"
    using assms(2) by (simp add: nr_thread_to_create_def word_le_nat_alt)
  from create_workers_ok [OF c [unfolded r]] n have "j = ?n"
    and ws: "length ws = ?m" "\<forall>k < ?m. ws ! k = \<lparr>worker_id = of_nat k, thread = k < ?n, worker_wq = k < ?n\<rparr>"
    by (auto simp: zero_workers_def)
  from ws have "ws = map (\<lambda>i. \<lparr>worker_id = of_nat i, thread = i < ?n, worker_wq = i < ?n\<rparr>) [0..<?m]"
    by (intro nth_equalityI) simp_all
  with that n wq' tr ev \<open>j = ?n\<close> show ?thesis by simp
qed

lemma filter_upt_less: "n \<le> m \<Longrightarrow> filter (\<lambda>i. i < n) [0..<m] = [0..<n]"
proof -
  assume "n \<le> m"
  then have "[0..<m] = [0..<n] @ [n..<m]" by (metis le0 le_add_diff_inverse upt_add_eq_append)
  then show ?thesis by simp
qed

lemma alloc_workqueue_failure:
  assumes "alloc_workqueue env attr_arg = Some (ret, wqo, ev, tr)" and "ret \<noteq> 0"
  shows "wqo = None \<and> held [] tr = Some []"
proof -
  have nz: "- ENOMEM \<noteq> 0" by (simp add: ENOMEM_def)
  obtain r0 at where v: "validate_and_adjust_workqueue_attr attr_arg = Some (r0, at)"
    using assms by (auto simp: alloc_workqueue_def split: option.splits)
  obtain r5 wq5 ev5 t5 where w: "alloc_workers env (fresh_wq at) = (r5, wq5, ev5, t5)"
    by (metis prod_cases4)
  show ?thesis
    using assms nz v w alloc_workers_unwinds [OF w]
    by (auto simp: alloc_workqueue_def Let_def err_label_defs held_append split: if_splits)
qed

lemma alloc_workqueue_success:
  assumes "alloc_workqueue env attr_arg = Some (0, wqo, ev, tr)"
  obtains at n m where "m \<le> 31" "max_pending_works at = 2 ^ m" "max_threads at \<noteq> 0"
    and "n \<le> unat (max_threads at)" "n = unat (nr_thread_to_create at)"
    and "wqo = Some ((fresh_wq at)\<lparr>workers :=
      map (\<lambda>i. \<lparr>worker_id = of_nat i, thread = i < n, worker_wq = i < n\<rparr>) [0..<unat (max_threads at)]\<rparr>)"
    and "ev = map Thread_started [0..<n]"
    and "tr = map Acquire ([R_wq, R_work_list_lock, R_cond Worker_cond, R_cond Wait_all_cond,
      R_cond Queue_work_cond, R_workers] @ map R_thread [0..<n])"
proof -
  have nz: "- ENOMEM \<noteq> 0" by (simp add: ENOMEM_def)
  obtain r0 at where v: "validate_and_adjust_workqueue_attr attr_arg = Some (r0, at)"
    using assms by (auto simp: alloc_workqueue_def split: option.splits)
  obtain r5 wq5 ev5 t5 where w: "alloc_workers env (fresh_wq at) = (r5, wq5, ev5, t5)"
    by (metis prod_cases4)
  from assms v w nz have r0: "r0 = 0" and r5: "r5 = 0" and wqo: "wqo = Some wq5" and ev: "ev = ev5"
    and tr: "tr = map Acquire [R_wq, R_work_list_lock, R_cond Worker_cond, R_cond Wait_all_cond,
      R_cond Queue_work_cond] @ t5"
    by (auto simp: alloc_workqueue_def Let_def split: if_splits)
  obtain m where m: "m \<le> 31" "max_pending_works at = 2 ^ m" "max_threads at \<noteq> 0"
      "min_threads at \<le> max_threads at"
    using validate_0 [OF v [unfolded r0]] by metis
  have at: "attr (fresh_wq at) = at" by (simp add: fresh_wq_def)
  obtain n where n: "n \<le> unat (max_threads at)" "n = unat (nr_thread_to_create at)"
    and wq5: "wq5 = (fresh_wq at)\<lparr>workers :=
        map (\<lambda>i. \<lparr>worker_id = of_nat i, thread = i < n, worker_wq = i < n\<rparr>) [0..<unat (max_threads at)]\<rparr>"
    and t5: "t5 = Acquire R_workers # map (Acquire \<circ> R_thread) [0..<n]"
    and ev5: "ev5 = map Thread_started [0..<n]"
    by (rule workers_of_alloc [OF w [unfolded r5], unfolded at, OF m(4)]) (rule that)
  show ?thesis
    by (rule that [OF m(1-3) n]) (simp_all add: wqo wq5 ev ev5 tr t5)
qed

text \<open>
  C25: \<open>alloc_workqueue\<close>, whatever the allocator, the lock, the condition variables and the thread
  library answer. With a non-zero result no queue is handed out and the unwinding has released
  exactly what was acquired, each thing once. With result 0 the queue handed out is well formed and
  empty, every slot marked as taken has a thread, and exactly the resources of a live queue are held.
\<close>

theorem alloc_workqueue_spec:
  assumes "alloc_workqueue env attr_arg = Some (ret, wqo, ev, tr)"
  shows "if ret \<noteq> 0 then wqo = None \<and> held [] tr = Some []
    else \<exists>wq rs. wqo = Some wq \<and> wq_ok wq \<and> wq_contents wq = [] \<and>
           all_marked_have_threads wq \<and> held [] tr = Some rs \<and> mset rs = mset (wq_resources wq)"
proof (cases "ret = 0")
  case False
  with alloc_workqueue_failure [OF assms] show ?thesis by simp
next
  case True
  obtain at n m where m: "m \<le> 31" "max_pending_works at = 2 ^ m" "max_threads at \<noteq> 0"
    and n: "n \<le> unat (max_threads at)"
    and wqo: "wqo = Some ((fresh_wq at)\<lparr>workers :=
      map (\<lambda>i. \<lparr>worker_id = of_nat i, thread = i < n, worker_wq = i < n\<rparr>) [0..<unat (max_threads at)]\<rparr>)"
    and tr: "tr = map Acquire ([R_wq, R_work_list_lock, R_cond Worker_cond, R_cond Wait_all_cond,
      R_cond Queue_work_cond, R_workers] @ map R_thread [0..<n])"
    by (rule alloc_workqueue_success [OF assms [unfolded True]]) (rule that)
  define wq5 where "wq5 = (fresh_wq at)\<lparr>workers :=
      map (\<lambda>i. \<lparr>worker_id = of_nat i, thread = i < n, worker_wq = i < n\<rparr>) [0..<unat (max_threads at)]\<rparr>"
  have "wq_ok wq5" unfolding wq5_def by (rule fresh_wq_ok [OF m(2,1,3)]) simp_all
  moreover have "wq_contents wq5 = []"
    by (simp add: wq5_def fresh_wq_def wq_contents_def)
  moreover have "all_marked_have_threads wq5"
    by (simp add: all_marked_have_threads_def wq5_def list_all_iff)
  moreover have res: "wq_resources wq5 = [R_wq, R_work_list_lock, R_cond Worker_cond,
      R_cond Wait_all_cond, R_cond Queue_work_cond, R_workers] @ map R_thread [0..<n]"
  proof -
    have "filter (\<lambda>i. worker_wq (workers wq5 ! i) \<and> thread (workers wq5 ! i))
        [0..<length (workers wq5)] = filter (\<lambda>i. i < n) [0..<unat (max_threads at)]"
      by (rule filter_cong) (simp_all add: wq5_def)
    then show ?thesis using filter_upt_less [OF n] by (simp add: wq_resources_def)
  qed
  moreover have "held [] tr = Some (rev (wq_resources wq5))"
    using held_acquires [of "[]" "wq_resources wq5"] by (simp only: tr res append_Nil2)
  ultimately show ?thesis
    using True wqo [folded wq5_def] mset_rev [of "wq_resources wq5"] by auto
qed

text \<open>An allocator and thread library that never fail, and one whose second thread cannot start.\<close>

definition sample_env :: wq_env where
  "sample_env = \<lparr>env_calloc_wq = True, env_mutex_init = 0, env_cond_init = (\<lambda>_. 0),
     env_calloc_workers = True, env_thread_create = (\<lambda>_. 0)\<rparr>"

definition sample_env_thread_fails :: wq_env where
  "sample_env_thread_fails = sample_env\<lparr>env_thread_create := (\<lambda>i. if i = 1 then 11 else 0)\<rparr>"

theorem alloc_workqueue_spec_witness:
  "(\<exists>wq ev tr. alloc_workqueue sample_env sample_attr = Some (0, Some wq, ev, tr) \<and> wq_ok wq) \<and>
   (\<exists>ev tr. alloc_workqueue sample_env_thread_fails (sample_attr\<lparr>max_threads := 2, min_threads := 2\<rparr>) =
      Some (11, None, ev, tr) \<and> held [] tr = Some [])"
proof
  note defs = validate_and_adjust_workqueue_attr_def round_up_pow2.simps
    WQ_F_ALL_def WQ_F_LAZY_THREAD_CREATION_def alloc_workers_def nr_thread_to_create_def
    zero_workers_def fresh_wq_def sample_env_def sample_env_thread_fails_def
  have "\<exists>wq ev tr. alloc_workqueue sample_env sample_attr = Some (0, Some wq, ev, tr)"
    by (simp add: alloc_workqueue_def sample_attr_def defs)
  then obtain wq ev tr where a: "alloc_workqueue sample_env sample_attr = Some (0, Some wq, ev, tr)"
    by blast
  from alloc_workqueue_spec [OF a] a
  show "\<exists>wq ev tr. alloc_workqueue sample_env sample_attr = Some (0, Some wq, ev, tr) \<and> wq_ok wq"
    by auto
  have "\<exists>ev tr. alloc_workqueue sample_env_thread_fails
      (sample_attr\<lparr>max_threads := 2, min_threads := 2\<rparr>) = Some (11, None, ev, tr)"
  proof -
    have "\<exists>ws'. create_workers (\<lambda>i. if i = 1 then 11 else 0) 0 2 ws = (11, 1, ws')" for ws
      by (simp add: numeral_2_eq_2 Let_def)
    then obtain ws' where "create_workers (\<lambda>i. if i = Suc 0 then 11 else 0) 0 2
        (map (\<lambda>i. \<lparr>worker_id = word_of_nat i, thread = False, worker_wq = False\<rparr>) [0..<2]) = (11, 1, ws')"
      unfolding One_nat_def by blast
    then show ?thesis
      by (simp add: alloc_workqueue_def sample_attr_def defs)
  qed
  then obtain ev tr where b: "alloc_workqueue sample_env_thread_fails
      (sample_attr\<lparr>max_threads := 2, min_threads := 2\<rparr>) = Some (11, None, ev, tr)"
    by blast
  from alloc_workqueue_spec [OF b] b
  show "\<exists>ev tr. alloc_workqueue sample_env_thread_fails
      (sample_attr\<lparr>max_threads := 2, min_threads := 2\<rparr>) = Some (11, None, ev, tr) \<and> held [] tr = Some []"
    by auto
qed

section \<open>Destruction\<close>

lemma clear_pending_works_spec:
  "wq_ok wq \<Longrightarrow>
   clear_pending_works wq = (wq_contents wq, wq\<lparr>wq_head := wq_tail wq\<rparr>)"
proof (induction wq rule: clear_pending_works.induct)
  case (1 wq)
  show ?case
  proof (cases "wq_head wq = wq_tail wq")
    case True
    moreover from True have "wq_contents wq = []" by (simp add: wq_contents_Nil_iff)
    ultimately show ?thesis by (subst clear_pending_works.simps) simp
  next
    case False
    then obtain y ys where c: "wq_contents wq = y # ys"
      by (metis wq_contents_Nil_iff neq_Nil_conv)
    from wq_pop_ok [OF "1.prems" c] have
      pop: "fst (wq_pop wq) = y" "wq_contents (snd (wq_pop wq)) = ys" "wq_ok (snd (wq_pop wq))"
      by simp_all
    have "clear_pending_works (snd (wq_pop wq)) =
        (ys, (snd (wq_pop wq))\<lparr>wq_head := wq_tail (snd (wq_pop wq))\<rparr>)"
      using "1.IH" [OF False refl _ pop(3)] pop(2) by (metis prod.collapse)
    with False c pop(1) show ?thesis
      by (subst clear_pending_works.simps) (simp add: split_beta wq_pop_def)
  qed
qed

lemma clear_pending_works_ok:
  assumes "wq_ok wq"
  shows "wq_ok (snd (clear_pending_works wq))" and "wq_contents (snd (clear_pending_works wq)) = []"
  using assms by (simp_all add: clear_pending_works_spec wq_ok_def wq_contents_def)

text \<open>
  C35: what \<open>destroy_workqueue\<close> releases is exactly what a live queue holds, each thing once, if
  and only if every slot marked as taken has a thread. (A creation that failed in
  \<open>arm_spawn_worker\<close> leaves a marked slot without one, and its handle is joined all the same.)
\<close>

theorem destroy_workqueue_releases_iff:
  assumes "wq_ok wq" and "mset rs = mset (wq_resources wq)"
  shows "(held rs (destroy_workqueue_release wq) = Some [] \<longleftrightarrow> all_marked_have_threads wq) \<and>
    snd (join_all_workers wq)"
proof
  show "snd (join_all_workers wq)"
    using assms(1) by (auto simp: join_all_workers_def Let_def list_all_iff wq_ok_def)
next
  let ?marked = "filter (\<lambda>i. worker_wq (workers wq ! i)) [0..<length (workers wq)]"
  let ?rest = "[R_cond Queue_work_cond, R_cond Wait_all_cond, R_cond Worker_cond,
      R_work_list_lock, R_workers, R_wq]"
  have len: "length (workers wq) = unat (max_threads (attr wq))"
    using wq_okD(4) [OF assms(1)] .
  have rel: "destroy_workqueue_release wq = map Release (map R_thread ?marked @ ?rest)"
    by (simp add: destroy_workqueue_release_def join_all_workers_def Let_def len)
  show "held rs (destroy_workqueue_release wq) = Some [] \<longleftrightarrow> all_marked_have_threads wq"
  proof
    assume "all_marked_have_threads wq"
    then have "?marked = filter (\<lambda>i. worker_wq (workers wq ! i) \<and> thread (workers wq ! i))
        [0..<length (workers wq)]"
      by (intro filter_cong) (auto simp: all_marked_have_threads_def list_all_length)
    with assms(2) have "mset rs = mset (map R_thread ?marked @ ?rest)"
      by (simp add: wq_resources_def)
    then show "held rs (destroy_workqueue_release wq) = Some []"
      unfolding rel by (rule held_all_released)
  next
    assume h: "held rs (destroy_workqueue_release wq) = Some []"
    show "all_marked_have_threads wq"
    proof (rule ccontr)
      assume "\<not> all_marked_have_threads wq"
      then obtain i where i: "i < length (workers wq)" "worker_wq (workers wq ! i)"
          "\<not> thread (workers wq ! i)"
        by (auto simp: all_marked_have_threads_def list_all_length)
      then have "R_thread i \<notin> set (wq_resources wq)" by (auto simp: wq_resources_def)
      then have "R_thread i \<notin> set rs" using assms(2) by (metis set_mset_mset)
      moreover have "R_thread i \<in> set (map R_thread ?marked @ ?rest)" using i by auto
      ultimately have "held rs (destroy_workqueue_release wq) = None"
        unfolding rel by (intro held_release_missing)
      with h show False by simp
    qed
  qed
qed

theorem destroy_workqueue_releases_iff_witness:
  "held (wq_resources sample_wq) (destroy_workqueue_release sample_wq) = Some []"
  using destroy_workqueue_releases_iff [OF sample_wq_ok refl]
  by (simp add: all_marked_have_threads_def)

end
