(* ===== verification/GwSteps.thy ===== *)
theory GwSteps
  imports Main
begin

text \<open>
  Systems of threads as step relations: what is reachable, runs of the steps of some of the threads, and
  the two contracts the components are proved against. \<open>invariant_system\<close> is an inductive invariant;
  \<open>draining_system\<close> adds that the chosen threads make progress until they have nothing left to do.
\<close>

inductive reach :: "('s \<Rightarrow> bool) \<Rightarrow> ('s \<Rightarrow> 'a \<Rightarrow> 's \<Rightarrow> bool) \<Rightarrow> 's \<Rightarrow> bool"
  for init :: "'s \<Rightarrow> bool" and step :: "'s \<Rightarrow> 'a \<Rightarrow> 's \<Rightarrow> bool" where
  reach_init: "init s \<Longrightarrow> reach init step s"
| reach_next: "reach init step s \<Longrightarrow> step s a t \<Longrightarrow> reach init step t"

text \<open>\<open>steps step mine k s t\<close>: \<open>k\<close> steps with actions in \<open>mine\<close>, nobody else moving, lead from
  \<open>s\<close> to \<open>t\<close>.\<close>

inductive steps :: "('s \<Rightarrow> 'a \<Rightarrow> 's \<Rightarrow> bool) \<Rightarrow> ('a \<Rightarrow> bool) \<Rightarrow> nat \<Rightarrow> 's \<Rightarrow> 's \<Rightarrow> bool"
  for step :: "'s \<Rightarrow> 'a \<Rightarrow> 's \<Rightarrow> bool" and mine :: "'a \<Rightarrow> bool" where
  steps_none: "steps step mine 0 s s"
| steps_more: "steps step mine k s t \<Longrightarrow> mine a \<Longrightarrow> step t a u \<Longrightarrow> steps step mine (Suc k) s u"

locale invariant_system =
  fixes init :: "'s \<Rightarrow> bool"
    and step :: "'s \<Rightarrow> 'a \<Rightarrow> 's \<Rightarrow> bool"
    and inv :: "'s \<Rightarrow> bool"
  assumes inv_base: "init s \<Longrightarrow> inv s"
    and inv_keep: "inv s \<Longrightarrow> step s a t \<Longrightarrow> inv t"

context invariant_system begin

lemma reach_inv: "reach init step s \<Longrightarrow> inv s"
  by (induction rule: reach.induct) (auto intro: inv_base inv_keep)

lemma steps_inv: "steps step mine k s t \<Longrightarrow> inv s \<Longrightarrow> inv t"
  by (induction rule: steps.induct) (auto intro: inv_keep)

end

text \<open>
  \<open>load\<close> counts the steps that are left, every step of \<open>mine\<close> does one of them and leaves \<open>frame\<close>
  alone, and while some are left one can be done, provided \<open>ready\<close> holds of the frame.
\<close>

locale draining_system = invariant_system +
  fixes mine :: "'a \<Rightarrow> bool"
    and load :: "'s \<Rightarrow> nat"
    and frame :: "'s \<Rightarrow> 'f"
    and ready :: "'f \<Rightarrow> bool"
  assumes load_step: "inv s \<Longrightarrow> mine a \<Longrightarrow> step s a t \<Longrightarrow> Suc (load t) = load s"
    and frame_step: "inv s \<Longrightarrow> mine a \<Longrightarrow> step s a t \<Longrightarrow> frame t = frame s"
    and progress: "inv s \<Longrightarrow> ready (frame s) \<Longrightarrow> load s \<noteq> 0 \<Longrightarrow> \<exists>a t. mine a \<and> step s a t"

context draining_system begin

lemma steps_keep: "steps step mine k s t \<Longrightarrow> inv s \<Longrightarrow> inv t \<and> k + load t = load s \<and> frame t = frame s"
proof (induction rule: steps.induct)
  case (steps_more k s t a u)
  then have t: "inv t" "k + load t = load s" "frame t = frame s" by simp_all
  from load_step [OF t(1) steps_more.hyps(2,3)] frame_step [OF t(1) steps_more.hyps(2,3)]
    inv_keep [OF t(1) steps_more.hyps(3)] t
  show ?case by simp
qed simp

lemma steps_exist: "inv s \<Longrightarrow> ready (frame s) \<Longrightarrow> k \<le> load s \<Longrightarrow> \<exists>t. steps step mine k s t"
proof (induction k)
  case (Suc k)
  then obtain t where t: "steps step mine k s t" by auto
  with steps_keep [OF t Suc.prems(1)] Suc.prems obtain a u where "mine a" "step t a u"
    using progress [of t] by auto
  with t show ?case by (blast intro: steps_more)
qed (blast intro: steps_none)

text \<open>No schedule is stuck early and none goes on for longer.\<close>

lemma drains:
  assumes "inv s" and "ready (frame s)" and "steps step mine k s t"
  shows "k \<le> load s" and "k < load s \<Longrightarrow> \<exists>a u. mine a \<and> step t a u" and "k = load s \<Longrightarrow> load t = 0"
  using steps_keep [OF assms(3,1)] progress [of t] assms(2) by auto

end

end
