(* ===== verification/WorkqueueSys.thy ===== *)
theory WorkqueueSys
  imports Workqueue GwSteps
begin

text \<open>
  The work queue of core/workqueue.c under its threads. A state is the queue, the program counter of
  every worker slot, of every thread that may call \<open>queue_work\<close> and of every thread that may call
  \<open>wait_all_work_done\<close>, whether \<open>destroy_workqueue\<close> has been entered, and four histories. A step
  is one critical section of theory Workqueue (they all run under \<open>work_list_lock\<close>, so they are
  atomic), the end of a work that ran without the lock, or a spurious wake-up, which POSIX allows.
\<close>

section \<open>States\<close>

datatype worker_pc =
    Not_created
  | Starting
  | Asleep
  | Woken
  | Running work_struct
  | Exited

datatype queuer_pc = Q_idle | Q_asleep work_struct | Q_woken work_struct

datatype waiter_pc = A_idle | A_asleep | A_woken

record wq_sys =
  queue :: workqueue_struct
  wpcs :: "worker_pc list"
  qpcs :: "queuer_pc list"
  apcs :: "waiter_pc list"
  destroyed :: bool
  accepted :: "work_struct list"
  started :: "work_struct list"
  finished :: "work_struct list"
  cleared :: "work_struct list"

definition init_sys :: "workqueue_struct \<Rightarrow> nat \<Rightarrow> nat \<Rightarrow> wq_sys" where
  "init_sys wq nq na = \<lparr>queue = wq,
     wpcs = map (\<lambda>w. if thread w then Starting else Not_created) (workers wq),
     qpcs = replicate nq Q_idle, apcs = replicate na A_idle, destroyed = False,
     accepted = [], started = [], finished = [], cleared = []\<rparr>"

section \<open>Signals\<close>

fun q_asleep :: "queuer_pc \<Rightarrow> bool" where
  "q_asleep (Q_asleep w) = True"
| "q_asleep pc = False"

fun q_wake :: "queuer_pc \<Rightarrow> queuer_pc" where
  "q_wake (Q_asleep w) = Q_woken w"
| "q_wake pc = pc"

abbreviation w_asleep :: "worker_pc \<Rightarrow> bool" where "w_asleep \<equiv> (=) Asleep"
abbreviation w_wake :: "worker_pc \<Rightarrow> worker_pc" where "w_wake \<equiv> (\<lambda>_. Woken)"
abbreviation a_asleep :: "waiter_pc \<Rightarrow> bool" where "a_asleep \<equiv> (=) A_asleep"
abbreviation a_wake :: "waiter_pc \<Rightarrow> waiter_pc" where "a_wake \<equiv> (\<lambda>_. A_woken)"

text \<open>\<open>n\<close> is the choice of the sleeper a signal wakes.\<close>

fun apply_event :: "nat \<Rightarrow> wq_event \<Rightarrow> wq_sys \<Rightarrow> wq_sys" where
  "apply_event n (Signal Worker_cond) s = s\<lparr>wpcs := wake_one w_asleep w_wake n (wpcs s)\<rparr>"
| "apply_event n (Signal Queue_work_cond) s = s\<lparr>qpcs := wake_one q_asleep q_wake n (qpcs s)\<rparr>"
| "apply_event n (Signal Wait_all_cond) s = s\<lparr>apcs := wake_one a_asleep a_wake n (apcs s)\<rparr>"
| "apply_event n (Broadcast Worker_cond) s = s\<lparr>wpcs := wake_all w_asleep w_wake (wpcs s)\<rparr>"
| "apply_event n (Broadcast Queue_work_cond) s = s\<lparr>qpcs := wake_all q_asleep q_wake (qpcs s)\<rparr>"
| "apply_event n (Broadcast Wait_all_cond) s = s\<lparr>apcs := wake_all a_asleep a_wake (apcs s)\<rparr>"
| "apply_event n (Thread_started i) s = s\<lparr>wpcs := (wpcs s)[i := Starting]\<rparr>"
| "apply_event n (Deleter_called w) s = s"

definition apply_events :: "nat \<Rightarrow> wq_event list \<Rightarrow> wq_sys \<Rightarrow> wq_sys" where
  "apply_events n evs s = fold (apply_event n) evs s"

section \<open>Steps\<close>

text \<open>A worker slot can take a step when its thread is neither absent, asleep nor gone.\<close>

fun runnable :: "worker_pc \<Rightarrow> bool" where
  "runnable Starting = True"
| "runnable Woken = True"
| "runnable (Running w) = True"
| "runnable pc = False"

fun worker_section ::
    "worker_pc \<Rightarrow> workqueue_struct \<Rightarrow> worker_turn \<times> workqueue_struct \<times> wq_event list" where
  "worker_section Starting wq = worker_start wq"
| "worker_section Woken wq = worker_woken wq"
| "worker_section pc wq = worker_done wq"

fun pc_of_turn :: "worker_turn \<Rightarrow> worker_pc" where
  "pc_of_turn Turn_exits = Exited"
| "pc_of_turn (Turn_runs w) = Running w"
| "pc_of_turn Turn_sleeps = Asleep"

fun works_of_turn :: "worker_turn \<Rightarrow> work_struct list" where
  "works_of_turn (Turn_runs w) = [w]"
| "works_of_turn turn = []"

fun works_of_pc :: "worker_pc \<Rightarrow> work_struct list" where
  "works_of_pc (Running w) = [w]"
| "works_of_pc pc = []"

definition do_worker :: "nat \<Rightarrow> nat \<Rightarrow> wq_sys \<Rightarrow> wq_sys" where
  "do_worker n i s =
     (let pc = wpcs s ! i;
          (turn, q, ev) = worker_section pc (queue s);
          s1 = apply_events n ev (s\<lparr>queue := q\<rparr>)
      in s1\<lparr>wpcs := (wpcs s1)[i := pc_of_turn turn],
            started := started s @ works_of_turn turn,
            finished := finished s @ works_of_pc pc\<rparr>)"

definition do_queuer ::
    "nat \<Rightarrow> (nat \<Rightarrow> int) \<Rightarrow> nat \<Rightarrow> work_struct \<Rightarrow> workqueue_struct \<Rightarrow> wq_sys \<Rightarrow> wq_sys" where
  "do_queuer n tc j w wq s =
     (let (ro, q, ev) = queue_work_pass tc w wq;
          s1 = apply_events n ev (s\<lparr>queue := q\<rparr>)
      in s1\<lparr>qpcs := (qpcs s1)[j := (if ro = None then Q_asleep w else Q_idle)],
            accepted := accepted s @ (if ro = Some 0 then [w] else [])\<rparr>)"

definition do_waiter :: "nat \<Rightarrow> bool \<times> workqueue_struct \<Rightarrow> wq_sys \<Rightarrow> wq_sys" where
  "do_waiter k r s =
     s\<lparr>queue := snd r, apcs := (apcs s)[k := (if fst r then A_idle else A_asleep)]\<rparr>"

definition do_destroy :: "nat \<Rightarrow> wq_sys \<Rightarrow> wq_sys" where
  "do_destroy n s =
     (let (ws, q, ev) = destroy_workqueue_locked (queue s);
          s1 = apply_events n ev (s\<lparr>queue := q\<rparr>)
      in s1\<lparr>destroyed := True, cleared := ws\<rparr>)"

datatype action = Act_worker nat | Act_queuer nat | Act_waiter nat | Act_destroy | Act_spurious

inductive wq_step :: "wq_sys \<Rightarrow> action \<Rightarrow> wq_sys \<Rightarrow> bool" where
  worker: "i < length (wpcs s) \<Longrightarrow> runnable (wpcs s ! i) \<Longrightarrow>
     wq_step s (Act_worker i) (do_worker n i s)"
| queuer_call: "j < length (qpcs s) \<Longrightarrow> qpcs s ! j = Q_idle \<Longrightarrow>
     wq_step s (Act_queuer j) (do_queuer n tc j w (queue s) s)"
| queuer_woken: "j < length (qpcs s) \<Longrightarrow> qpcs s ! j = Q_woken w \<Longrightarrow>
     wq_step s (Act_queuer j) (do_queuer n tc j w (queue_work_woken (queue s)) s)"
| waiter_call: "k < length (apcs s) \<Longrightarrow> apcs s ! k = A_idle \<Longrightarrow>
     wq_step s (Act_waiter k) (do_waiter k (wait_all_work_done (queue s)) s)"
| waiter_woken: "k < length (apcs s) \<Longrightarrow> apcs s ! k = A_woken \<Longrightarrow>
     wq_step s (Act_waiter k) (do_waiter k (wait_all_woken (queue s)) s)"
| destroy: "\<not> destroyed s \<Longrightarrow> wq_step s Act_destroy (do_destroy n s)"
| worker_spurious: "i < length (wpcs s) \<Longrightarrow> wpcs s ! i = Asleep \<Longrightarrow>
     wq_step s Act_spurious (s\<lparr>wpcs := (wpcs s)[i := Woken]\<rparr>)"
| queuer_spurious: "j < length (qpcs s) \<Longrightarrow> qpcs s ! j = Q_asleep w \<Longrightarrow>
     wq_step s Act_spurious (s\<lparr>qpcs := (qpcs s)[j := Q_woken w]\<rparr>)"
| waiter_spurious: "k < length (apcs s) \<Longrightarrow> apcs s ! k = A_asleep \<Longrightarrow>
     wq_step s Act_spurious (s\<lparr>apcs := (apcs s)[k := A_woken]\<rparr>)"

inductive_cases worker_stepE: "wq_step s (Act_worker i) t"
inductive_cases queuer_stepE: "wq_step s (Act_queuer j) t"
inductive_cases waiter_stepE: "wq_step s (Act_waiter k) t"
inductive_simps worker_step_simp: "wq_step s (Act_worker i) t"

text \<open>The states a queue handed out by \<open>alloc_workqueue\<close> can get into, with fewer than
  \<open>2 ^ 32\<close> client threads.\<close>

definition wq_init :: "wq_sys \<Rightarrow> bool" where
  "wq_init s = (\<exists>env at wq ev tr nq na. alloc_workqueue env at = Some (0, Some wq, ev, tr) \<and>
     nq < 2 ^ 32 \<and> s = init_sys wq nq na)"

abbreviation reachable :: "wq_sys \<Rightarrow> bool" where
  "reachable \<equiv> reach wq_init wq_step"

lemma reach_alloc:
  "alloc_workqueue env at = Some (0, Some wq, ev, tr) \<Longrightarrow> nq < 2 ^ 32 \<Longrightarrow> reachable (init_sys wq nq na)"
  by (rule reach_init) (unfold wq_init_def, blast)

text \<open>The steps of the workers, and runs of them alone.\<close>

fun is_worker :: "action \<Rightarrow> bool" where
  "is_worker (Act_worker i) = True"
| "is_worker a = False"

abbreviation worker_run :: "nat \<Rightarrow> wq_sys \<Rightarrow> wq_sys \<Rightarrow> bool" where
  "worker_run \<equiv> steps wq_step is_worker"

section \<open>What events leave alone\<close>

lemma apply_events_simps [simp]:
  "apply_events n [] s = s"
  "apply_events n (e # es) s = apply_events n es (apply_event n e s)"
  by (simp_all add: apply_events_def)

lemma apply_event_frame [simp]:
  "queue (apply_event n e s) = queue s"
  "destroyed (apply_event n e s) = destroyed s"
  "accepted (apply_event n e s) = accepted s"
  "started (apply_event n e s) = started s"
  "finished (apply_event n e s) = finished s"
  "cleared (apply_event n e s) = cleared s"
  "length (wpcs (apply_event n e s)) = length (wpcs s)"
  "length (qpcs (apply_event n e s)) = length (qpcs s)"
  "length (apcs (apply_event n e s)) = length (apcs s)"
  by (cases "(n, e, s)" rule: apply_event.cases; simp)+

lemma apply_events_frame [simp]:
  "queue (apply_events n es s) = queue s"
  "destroyed (apply_events n es s) = destroyed s"
  "accepted (apply_events n es s) = accepted s"
  "started (apply_events n es s) = started s"
  "finished (apply_events n es s) = finished s"
  "cleared (apply_events n es s) = cleared s"
  "length (wpcs (apply_events n es s)) = length (wpcs s)"
  "length (qpcs (apply_events n es s)) = length (qpcs s)"
  "length (apcs (apply_events n es s)) = length (apcs s)"
  by (induction es arbitrary: s) simp_all

section \<open>What a worker's section does\<close>

text \<open>The thread classes the three worker counters count.\<close>

fun in_wait :: "worker_pc \<Rightarrow> bool" where
  "in_wait Asleep = True"
| "in_wait Woken = True"
| "in_wait pc = False"

fun is_running :: "worker_pc \<Rightarrow> bool" where
  "is_running (Running w) = True"
| "is_running pc = False"

definition is_online :: "worker_pc \<Rightarrow> bool" where
  "is_online pc = (in_wait pc \<or> is_running pc)"

fun q_waiting :: "queuer_pc \<Rightarrow> bool" where
  "q_waiting Q_idle = False"
| "q_waiting pc = True"

abbreviation wait_all_signal :: "workqueue_struct \<Rightarrow> wq_event list" where
  "wait_all_signal wq \<equiv> (if wait_all_is_waiting wq then [Broadcast Wait_all_cond] else [])"

lemma worker_loop_cases:
  assumes ok: "wq_ok wq" and l: "worker_loop wq = (turn, q, ev)"
  shows "(should_stop wq \<and> \<not> queue_is_blocked wq \<and> turn = Turn_exits \<and> ev = [] \<and>
            q = wq\<lparr>nr_online_workers := nr_online_workers wq - 1\<rparr>) \<or>
         (\<not> (should_stop wq \<and> \<not> queue_is_blocked wq) \<and> ev = [] \<and>
            (\<exists>w ws. wq_contents wq = w # ws \<and> turn = Turn_runs w \<and>
               q = wq\<lparr>wq_head := wq_head wq + 1, nr_running_workers := nr_running_workers wq + 1\<rparr> \<and>
               wq_contents q = ws \<and> wq_ok q)) \<or>
         (\<not> (should_stop wq \<and> \<not> queue_is_blocked wq) \<and> wq_contents wq = [] \<and>
            turn = Turn_sleeps \<and> ev = wait_all_signal wq \<and>
            q = wq\<lparr>nr_sleeping_workers := nr_sleeping_workers wq + 1\<rparr>)"
proof (cases "should_stop wq \<and> \<not> queue_is_blocked wq")
  case True
  with l show ?thesis by (auto simp: worker_loop_def wait_for_event_pass_def)
next
  case False
  show ?thesis
  proof (cases "wq_contents wq")
    case Nil
    then have "wq_head wq = wq_tail wq" by (simp add: wq_contents_Nil_iff)
    with False l Nil show ?thesis by (auto simp: worker_loop_def wait_for_event_pass_def)
  next
    case (Cons w ws)
    then have "wq_head wq \<noteq> wq_tail wq" using wq_contents_Nil_iff [of wq] by auto
    with False l have eqs: "ev = []" "turn = Turn_runs (fst (wq_pop wq))"
      "q = (snd (wq_pop wq))\<lparr>nr_running_workers := nr_running_workers wq + 1\<rparr>"
      by (auto simp: worker_loop_def wait_for_event_pass_def wq_pop_def)
    from wq_pop_ok [OF ok Cons] have pop: "fst (wq_pop wq) = w"
        "wq_contents (snd (wq_pop wq)) = ws" "wq_ok (snd (wq_pop wq))" by simp_all
    have "wq_contents q = ws" "wq_ok q"
      using pop(2,3) unfolding eqs(3) by (simp_all add: wq_contents_def wq_ok_def)
    moreover have "q = wq\<lparr>wq_head := wq_head wq + 1, nr_running_workers := nr_running_workers wq + 1\<rparr>"
      unfolding eqs(3) by (simp add: wq_pop_def)
    ultimately show ?thesis using False Cons eqs(1,2) pop(1) by blast
  qed
qed

text \<open>The queue before the loop head is entered again, for each kind of runnable thread.\<close>

fun worker_adjust :: "worker_pc \<Rightarrow> workqueue_struct \<Rightarrow> workqueue_struct" where
  "worker_adjust Starting wq = wq\<lparr>nr_online_workers := nr_online_workers wq + 1\<rparr>"
| "worker_adjust Woken wq = wq\<lparr>nr_sleeping_workers := nr_sleeping_workers wq - 1\<rparr>"
| "worker_adjust pc wq = wq\<lparr>nr_running_workers := nr_running_workers wq - 1\<rparr>"

definition queuer_events :: "worker_pc \<Rightarrow> workqueue_struct \<Rightarrow> wq_event list" where
  "queuer_events pc wq =
     (if is_running pc then wake_up_all_queue_work_callers (worker_adjust pc wq) else [])"

lemma worker_section_eq:
  "runnable pc \<Longrightarrow> worker_section pc wq =
     (let (turn, q, ev) = worker_loop (worker_adjust pc wq) in (turn, q, queuer_events pc wq @ ev))"
  by (cases pc) (simp_all add: worker_start_def worker_woken_def worker_done_def queuer_events_def
      Let_def split: prod.splits)

lemma queuer_events_sub: "set (queuer_events pc wq) \<subseteq> {Signal Queue_work_cond, Broadcast Queue_work_cond}"
  by (auto simp: queuer_events_def wake_up_all_queue_work_callers_def)

lemma worker_adjust_frame [simp]:
  "wq_contents (worker_adjust pc wq) = wq_contents wq"
  "wq_ok (worker_adjust pc wq) = wq_ok wq"
  "should_stop (worker_adjust pc wq) = should_stop wq"
  "queue_is_blocked (worker_adjust pc wq) = queue_is_blocked wq"
  "wait_all_is_waiting (worker_adjust pc wq) = wait_all_is_waiting wq"
  "nr_sleeping_queuers (worker_adjust pc wq) = nr_sleeping_queuers wq"
  "workers (worker_adjust pc wq) = workers wq"
  "attr (worker_adjust pc wq) = attr wq"
  by (cases "(pc, wq)" rule: worker_adjust.cases; simp add: wq_contents_def wq_ok_def)+

lemma worker_adjust_counters:
  assumes "runnable pc"
  shows "nr_sleeping_workers (worker_adjust pc wq) = nr_sleeping_workers wq - of_bool (in_wait pc)"
    and "nr_running_workers (worker_adjust pc wq) = nr_running_workers wq - of_bool (is_running pc)"
    and "nr_online_workers (worker_adjust pc wq) = nr_online_workers wq + of_bool (\<not> is_online pc)"
  using assms by (cases pc; simp add: is_online_def)+

text \<open>
  The summary the invariants need: the fields a section keeps, the three counters against the
  program counter before and after, and the pending works against what the turn takes.
\<close>

lemma worker_section_summary:
  assumes ok: "wq_ok wq" and r: "runnable pc" and sec: "worker_section pc wq = (turn, q, ev)"
  shows "wq_ok q"
    and "should_stop q = should_stop wq" "queue_is_blocked q = queue_is_blocked wq"
      "wait_all_is_waiting q = wait_all_is_waiting wq"
      "nr_sleeping_queuers q = nr_sleeping_queuers wq" "workers q = workers wq" "attr q = attr wq"
    and "nr_sleeping_workers q =
      nr_sleeping_workers wq + of_bool (in_wait (pc_of_turn turn)) - of_bool (in_wait pc)"
    and "nr_running_workers q =
      nr_running_workers wq + of_bool (is_running (pc_of_turn turn)) - of_bool (is_running pc)"
    and "nr_online_workers q =
      nr_online_workers wq + of_bool (is_online (pc_of_turn turn)) - of_bool (is_online pc)"
    and "wq_contents wq = works_of_turn turn @ wq_contents q"
    and "turn = Turn_exits \<Longrightarrow> should_stop wq \<and> \<not> queue_is_blocked wq"
    and "turn = Turn_sleeps \<Longrightarrow> wq_contents wq = [] \<and> \<not> (should_stop wq \<and> \<not> queue_is_blocked wq)"
    and "ev = queuer_events pc wq @ (if turn = Turn_sleeps then wait_all_signal wq else [])"
proof -
  obtain turn' q' ev' where l: "worker_loop (worker_adjust pc wq) = (turn', q', ev')"
    by (metis prod_cases3)
  with sec r have eqs: "turn' = turn" "q' = q" "ev = queuer_events pc wq @ ev'"
    by (simp_all add: worker_section_eq)
  from ok have "wq_ok (worker_adjust pc wq)" by simp
  note cases = worker_loop_cases [OF this l [unfolded eqs(1,2)], unfolded worker_adjust_frame]
  note cnts = worker_adjust_counters [OF r, of wq]
  from cases show "wq_ok q" using ok by auto
  from cases show "should_stop q = should_stop wq" "queue_is_blocked q = queue_is_blocked wq"
      "wait_all_is_waiting q = wait_all_is_waiting wq"
      "nr_sleeping_queuers q = nr_sleeping_queuers wq" "workers q = workers wq" "attr q = attr wq"
    by auto
  from cases show "nr_sleeping_workers q =
      nr_sleeping_workers wq + of_bool (in_wait (pc_of_turn turn)) - of_bool (in_wait pc)"
    by (auto simp: cnts)
  from cases show "nr_running_workers q =
      nr_running_workers wq + of_bool (is_running (pc_of_turn turn)) - of_bool (is_running pc)"
    by (auto simp: cnts)
  from cases show "nr_online_workers q =
      nr_online_workers wq + of_bool (is_online (pc_of_turn turn)) - of_bool (is_online pc)"
    by (auto simp: cnts is_online_def)
  from cases show "wq_contents wq = works_of_turn turn @ wq_contents q"
    by auto
  from cases show "turn = Turn_exits \<Longrightarrow> should_stop wq \<and> \<not> queue_is_blocked wq" by auto
  from cases show "turn = Turn_sleeps \<Longrightarrow> wq_contents wq = [] \<and> \<not> (should_stop wq \<and> \<not> queue_is_blocked wq)"
    by auto
  from cases eqs(3) show "ev = queuer_events pc wq @ (if turn = Turn_sleeps then wait_all_signal wq else [])"
    by auto
qed

section \<open>The invariant, in five parts\<close>

definition running_works :: "wq_sys \<Rightarrow> work_struct multiset" where
  "running_works s = sum_list (map (\<lambda>pc. mset (works_of_pc pc)) (wpcs s))"

text \<open>Shape: slots and threads agree, threads exit only once the queue is stopped.\<close>

definition inv_struct :: "wq_sys \<Rightarrow> bool" where
  "inv_struct s =
     (wq_ok (queue s) \<and> length (wpcs s) = length (workers (queue s)) \<and> length (qpcs s) < 2 ^ 32 \<and>
      (\<forall>i < length (wpcs s).
         thread (workers (queue s) ! i) = (wpcs s ! i \<noteq> Not_created) \<and>
         (thread (workers (queue s) ! i) \<longrightarrow> worker_wq (workers (queue s) ! i)) \<and>
         (wpcs s ! i = Exited \<longrightarrow> destroyed s)) \<and>
      should_stop (queue s) = destroyed s)"

text \<open>The four counters of the record count the threads they are named after.\<close>

definition inv_count :: "wq_sys \<Rightarrow> bool" where
  "inv_count s =
     (nr_sleeping_workers (queue s) = of_nat (cnt in_wait (wpcs s)) \<and>
      nr_running_workers (queue s) = of_nat (cnt is_running (wpcs s)) \<and>
      nr_online_workers (queue s) = of_nat (cnt is_online (wpcs s)) \<and>
      nr_sleeping_queuers (queue s) = of_nat (cnt q_waiting (qpcs s)))"

text \<open>Every accepted work is, in the order of acceptance, started, cleared or still pending; every
  started work is finished or running.\<close>

definition inv_flow :: "wq_sys \<Rightarrow> bool" where
  "inv_flow s =
     (accepted s = started s @ cleared s @ wq_contents (queue s) \<and>
      mset (started s) = mset (finished s) + running_works s \<and>
      (\<not> destroyed s \<longrightarrow> cleared s = []) \<and>
      (destroyed s \<longrightarrow> wq_contents (queue s) = []))"

text \<open>Pending work keeps a worker awake, unless the creation of a thread has failed.\<close>

definition inv_awake :: "wq_sys \<Rightarrow> bool" where
  "inv_awake s =
     (wq_contents (queue s) \<noteq> [] \<and> all_marked_have_threads (queue s) \<longrightarrow>
        (\<exists>i < length (wpcs s). runnable (wpcs s ! i)))"

text \<open>A thread asleep in \<open>wait_all_work_done\<close> is known to the workers and has work to wait for.\<close>

definition inv_wait :: "wq_sys \<Rightarrow> bool" where
  "inv_wait s =
     (\<forall>k < length (apcs s). apcs s ! k = A_asleep \<longrightarrow>
        wait_all_is_waiting (queue s) \<and> \<not> destroyed s \<and>
        (wq_contents (queue s) \<noteq> [] \<or> nr_running_workers (queue s) \<noteq> 0))"

definition sys_inv :: "wq_sys \<Rightarrow> bool" where
  "sys_inv s = (inv_struct s \<and> inv_count s \<and> inv_flow s \<and> inv_awake s \<and> inv_wait s)"

lemmas inv_defs = inv_struct_def inv_count_def inv_flow_def inv_awake_def inv_wait_def

section \<open>What events do to the counted classes\<close>

definition worker_event :: "wq_event \<Rightarrow> bool" where
  "worker_event e = (e = Signal Worker_cond \<or> e = Broadcast Worker_cond \<or> (\<exists>i. e = Thread_started i))"

lemma apply_event_no_worker: "\<not> worker_event e \<Longrightarrow> wpcs (apply_event n e s) = wpcs s"
  by (cases "(n, e, s)" rule: apply_event.cases) (simp_all add: worker_event_def)

lemma apply_events_no_worker:
  "\<forall>e \<in> set es. \<not> worker_event e \<Longrightarrow> wpcs (apply_events n es s) = wpcs s"
  by (induction es arbitrary: s) (simp_all add: apply_event_no_worker)

lemma q_waiting_wake: "q_asleep pc \<Longrightarrow> q_waiting (q_wake pc) = q_waiting pc"
  by (cases pc) simp_all

lemma apply_event_q_waiting [simp]:
  "cnt q_waiting (qpcs (apply_event n e s)) = cnt q_waiting (qpcs s)"
  by (cases "(n, e, s)" rule: apply_event.cases) (simp_all add: cnt_wake q_waiting_wake)

lemma nth_apply_event_q_waiting:
  "j < length (qpcs s) \<Longrightarrow> q_waiting (qpcs (apply_event n e s) ! j) = q_waiting (qpcs s ! j)"
  by (cases "(n, e, s)" rule: apply_event.cases)
    (use nth_wake_one [of j "qpcs s" q_asleep q_wake n] in
      \<open>auto simp: nth_wake_all q_waiting_wake\<close>)

lemma apply_events_q_waiting [simp]:
  "cnt q_waiting (qpcs (apply_events n es s)) = cnt q_waiting (qpcs s)"
  by (induction es arbitrary: s) simp_all

lemma nth_apply_events_q_waiting:
  "j < length (qpcs s) \<Longrightarrow> q_waiting (qpcs (apply_events n es s) ! j) = q_waiting (qpcs s ! j)"
  by (induction es arbitrary: s) (simp_all add: nth_apply_event_q_waiting)

text \<open>A waiter is asleep after some events only if it was before and no broadcast was among them.\<close>

lemma apply_event_a_asleep:
  "k < length (apcs s) \<Longrightarrow> apcs (apply_event n e s) ! k = A_asleep \<Longrightarrow>
   apcs s ! k = A_asleep \<and> e \<noteq> Broadcast Wait_all_cond"
  by (cases "(n, e, s)" rule: apply_event.cases)
    (use nth_wake_one [of k "apcs s" a_asleep a_wake n] in \<open>auto simp: nth_wake_all split: if_splits\<close>)

lemma apply_events_a_asleep:
  "k < length (apcs s) \<Longrightarrow> apcs (apply_events n es s) ! k = A_asleep \<Longrightarrow>
   apcs s ! k = A_asleep \<and> Broadcast Wait_all_cond \<notin> set es"
proof (induction es arbitrary: s)
  case (Cons e es)
  from Cons.prems have "k < length (apcs (apply_event n e s))"
      "apcs (apply_events n es (apply_event n e s)) ! k = A_asleep" by simp_all
  from Cons.IH [OF this] have "apcs (apply_event n e s) ! k = A_asleep"
      "Broadcast Wait_all_cond \<notin> set es" by simp_all
  with apply_event_a_asleep [OF Cons.prems(1)] show ?case by auto
qed simp

section \<open>The worker's step\<close>

lemma do_worker_effect:
  assumes inv: "inv_struct s" and i: "i < length (wpcs s)" and r: "runnable (wpcs s ! i)"
  obtains turn q ev where
    "worker_section (wpcs s ! i) (queue s) = (turn, q, ev)"
    "queue (do_worker n i s) = q"
    "wpcs (do_worker n i s) = (wpcs s)[i := pc_of_turn turn]"
    "qpcs (do_worker n i s) = qpcs (apply_events n ev (s\<lparr>queue := q\<rparr>))"
    "apcs (do_worker n i s) = apcs (apply_events n ev (s\<lparr>queue := q\<rparr>))"
    "destroyed (do_worker n i s) = destroyed s" "accepted (do_worker n i s) = accepted s"
    "cleared (do_worker n i s) = cleared s"
    "started (do_worker n i s) = started s @ works_of_turn turn"
    "finished (do_worker n i s) = finished s @ works_of_pc (wpcs s ! i)"
proof -
  obtain turn q ev where sec: "worker_section (wpcs s ! i) (queue s) = (turn, q, ev)"
    by (metis prod_cases3)
  have "wq_ok (queue s)" using inv by (simp add: inv_struct_def)
  from worker_section_summary(14) [OF this r sec]
  have "\<forall>e \<in> set ev. \<not> worker_event e"
    using queuer_events_sub [of "wpcs s ! i" "queue s"] by (auto simp: worker_event_def)
  then have "wpcs (apply_events n ev (s\<lparr>queue := q\<rparr>)) = wpcs s"
    by (simp add: apply_events_no_worker)
  with sec show ?thesis
    by (intro that [OF sec]) (simp_all add: do_worker_def Let_def)
qed

lemma pc_of_turn_not_created [simp]: "pc_of_turn turn \<noteq> Not_created"
  by (cases turn) simp_all

lemma works_of_pc_of_turn [simp]: "works_of_pc (pc_of_turn turn) = works_of_turn turn"
  by (cases turn) simp_all

lemma worker_inv_struct:
  assumes inv: "inv_struct s" and i: "i < length (wpcs s)" and r: "runnable (wpcs s ! i)"
  shows "inv_struct (do_worker n i s)"
proof -
  have ok: "wq_ok (queue s)" using inv by (simp add: inv_struct_def)
  from r have nc: "wpcs s ! i \<noteq> Not_created" by (cases "wpcs s ! i") simp_all
  show ?thesis
  proof (rule do_worker_effect [OF inv i r, of n])
    fix turn q ev
    assume sec: "worker_section (wpcs s ! i) (queue s) = (turn, q, ev)"
      and t: "queue (do_worker n i s) = q"
        "wpcs (do_worker n i s) = (wpcs s)[i := pc_of_turn turn]"
        "qpcs (do_worker n i s) = qpcs (apply_events n ev (s\<lparr>queue := q\<rparr>))"
        "destroyed (do_worker n i s) = destroyed s"
    note sum = worker_section_summary [OF ok r sec]
    have exit: "pc_of_turn turn = Exited \<Longrightarrow> destroyed s"
      using sum(12) inv by (cases turn) (auto simp: inv_struct_def)
    from inv nc exit show ?thesis
      unfolding inv_struct_def t sum by (auto simp: sum(1) nth_list_update_at)
  qed
qed

lemma worker_inv_count:
  assumes inv: "inv_struct s" "inv_count s" and i: "i < length (wpcs s)" and r: "runnable (wpcs s ! i)"
  shows "inv_count (do_worker n i s)"
proof -
  have ok: "wq_ok (queue s)" using inv by (simp add: inv_struct_def)
  show ?thesis
  proof (rule do_worker_effect [OF inv(1) i r, of n])
    fix turn q ev
    assume sec: "worker_section (wpcs s ! i) (queue s) = (turn, q, ev)"
      and t: "queue (do_worker n i s) = q"
        "wpcs (do_worker n i s) = (wpcs s)[i := pc_of_turn turn]"
        "qpcs (do_worker n i s) = qpcs (apply_events n ev (s\<lparr>queue := q\<rparr>))"
    from inv(2) show ?thesis
      unfolding inv_count_def t worker_section_summary [OF ok r sec]
      by (simp add: of_nat_cnt_update [OF i])
  qed
qed

lemma worker_inv_flow:
  assumes inv: "inv_struct s" "inv_flow s" and i: "i < length (wpcs s)" and r: "runnable (wpcs s ! i)"
  shows "inv_flow (do_worker n i s)"
proof -
  have ok: "wq_ok (queue s)" using inv by (simp add: inv_struct_def)
  show ?thesis
  proof (rule do_worker_effect [OF inv(1) i r, of n])
    fix turn q ev
    assume sec: "worker_section (wpcs s ! i) (queue s) = (turn, q, ev)"
      and t: "queue (do_worker n i s) = q"
        "wpcs (do_worker n i s) = (wpcs s)[i := pc_of_turn turn]"
        "destroyed (do_worker n i s) = destroyed s" "accepted (do_worker n i s) = accepted s"
        "cleared (do_worker n i s) = cleared s"
        "started (do_worker n i s) = started s @ works_of_turn turn"
        "finished (do_worker n i s) = finished s @ works_of_pc (wpcs s ! i)"
    note c = worker_section_summary(11) [OF ok r sec]
    have "works_of_turn turn \<noteq> [] \<Longrightarrow> cleared s = []"
      using c inv(2) by (auto simp: inv_flow_def)
    then have acc: "accepted s = (started s @ works_of_turn turn) @ cleared s @ wq_contents q"
      using inv(2) c by (cases "works_of_turn turn") (auto simp: inv_flow_def)
    have run: "running_works (do_worker n i s) + mset (works_of_pc (wpcs s ! i)) =
        running_works s + mset (works_of_turn turn)"
      using sum_list_map_update [OF i, of "\<lambda>pc. mset (works_of_pc pc)" "pc_of_turn turn"]
      by (simp add: running_works_def t)
    then have "mset (started s @ works_of_turn turn) =
        mset (finished s @ works_of_pc (wpcs s ! i)) + running_works (do_worker n i s)"
      using inv(2) by (simp add: inv_flow_def ac_simps)
    moreover have "destroyed s \<Longrightarrow> wq_contents q = []"
      using inv(2) c by (auto simp: inv_flow_def)
    ultimately show ?thesis
      using inv(2) acc unfolding inv_flow_def t by simp
  qed
qed

lemma worker_inv_awake:
  assumes inv: "inv_struct s" "inv_flow s" "inv_awake s"
    and i: "i < length (wpcs s)" and r: "runnable (wpcs s ! i)"
  shows "inv_awake (do_worker n i s)"
proof -
  have ok: "wq_ok (queue s)" using inv by (simp add: inv_struct_def)
  show ?thesis
  proof (rule do_worker_effect [OF inv(1) i r, of n])
    fix turn q ev
    assume sec: "worker_section (wpcs s ! i) (queue s) = (turn, q, ev)"
      and t: "queue (do_worker n i s) = q"
        "wpcs (do_worker n i s) = (wpcs s)[i := pc_of_turn turn]"
    note sum = worker_section_summary [OF ok r sec]
    show ?thesis
    proof (cases turn)
      case Turn_exits
      with sum(12) inv have "wq_contents (queue s) = []" by (auto simp: inv_flow_def inv_struct_def)
      with sum(11) show ?thesis by (simp add: inv_awake_def t)
    next
      case (Turn_runs w)
      then have "runnable (wpcs (do_worker n i s) ! i)" using i by (simp add: t)
      with i show ?thesis by (auto simp: inv_awake_def t)
    next
      case Turn_sleeps
      with sum(11,13) show ?thesis by (simp add: inv_awake_def t)
    qed
  qed
qed

lemma worker_inv_wait:
  assumes inv: "inv_struct s" "inv_count s" "inv_wait s"
    and i: "i < length (wpcs s)" and r: "runnable (wpcs s ! i)"
  shows "inv_wait (do_worker n i s)"
proof -
  have ok: "wq_ok (queue s)" using inv by (simp add: inv_struct_def)
  have cnt': "inv_count (do_worker n i s)" by (rule worker_inv_count [OF inv(1,2) i r])
  show ?thesis
  proof (rule do_worker_effect [OF inv(1) i r, of n])
    fix turn q ev
    assume sec: "worker_section (wpcs s ! i) (queue s) = (turn, q, ev)"
      and t: "queue (do_worker n i s) = q"
        "wpcs (do_worker n i s) = (wpcs s)[i := pc_of_turn turn]"
        "apcs (do_worker n i s) = apcs (apply_events n ev (s\<lparr>queue := q\<rparr>))"
        "destroyed (do_worker n i s) = destroyed s"
    note sum = worker_section_summary [OF ok r sec]
    have len: "length (wpcs s) < 2 ^ 32"
      using inv(1) wq_okD(4) [OF ok] unsigned_less [of "max_threads (attr (queue s))"]
      by (simp add: inv_struct_def)
    show ?thesis
      unfolding inv_wait_def
    proof (intro allI impI)
      fix k assume k: "k < length (apcs (do_worker n i s))"
        and a: "apcs (do_worker n i s) ! k = A_asleep"
      from k a apply_events_a_asleep [of k "s\<lparr>queue := q\<rparr>" n ev]
      have old: "k < length (apcs s)" "apcs s ! k = A_asleep" "Broadcast Wait_all_cond \<notin> set ev"
        by (simp_all add: t)
      with inv(3) have w: "wait_all_is_waiting (queue s)" "\<not> destroyed s"
        by (auto simp: inv_wait_def)
      from w(2) inv(1) have "turn \<noteq> Turn_exits" using sum(12) by (auto simp: inv_struct_def)
      moreover have "turn \<noteq> Turn_sleeps" using old(3) w(1) sum(14) by auto
      ultimately obtain w' where turn: "turn = Turn_runs w'" by (cases turn) simp_all
      then have "0 < cnt is_running (wpcs (do_worker n i s))"
        using i by (auto simp: cnt_pos_ex t intro!: exI [of _ i])
      then have "nr_running_workers q \<noteq> 0"
        using cnt' of_nat_cnt_0 [of "wpcs (do_worker n i s)" is_running] len
        by (simp add: inv_count_def t)
      with w sum(4) show "wait_all_is_waiting (queue (do_worker n i s)) \<and>
          \<not> destroyed (do_worker n i s) \<and> (wq_contents (queue (do_worker n i s)) \<noteq> [] \<or>
          nr_running_workers (queue (do_worker n i s)) \<noteq> 0)"
        by (simp add: t)
    qed
  qed
qed

lemma worker_inv:
  "sys_inv s \<Longrightarrow> i < length (wpcs s) \<Longrightarrow> runnable (wpcs s ! i) \<Longrightarrow> sys_inv (do_worker n i s)"
  by (simp add: sys_inv_def worker_inv_struct worker_inv_count worker_inv_flow worker_inv_awake
      worker_inv_wait)

section \<open>The queuer's step\<close>

lemma queue_work_pass_cases:
  assumes ok: "wq_ok wq" and p: "queue_work_pass tc w wq = (ro, q, ev)"
  shows "(should_stop wq \<and> ro = Some (- EOWNERDEAD) \<and> q = wq \<and> ev = []) \<or>
    (\<not> should_stop wq \<and>
       (queue_is_blocked wq \<or> length (wq_contents wq) = length (work_list wq) \<or>
        wq_tail wq < wq_head wq) \<and>
       ro = None \<and> q = wq\<lparr>nr_sleeping_queuers := nr_sleeping_queuers wq + 1\<rparr> \<and> ev = []) \<or>
    (\<not> should_stop wq \<and> \<not> queue_is_blocked wq \<and> ro = Some 0 \<and>
       wq_ok q \<and> wq_contents q = wq_contents wq @ [w] \<and>
       (\<exists>r. arm_worker tc (wq_push w wq) = (r, q, ev)))"
proof -
  obtain ret q1 ev1 where t: "try_queue_work_locked tc w wq = (ret, q1, ev1)"
    by (metis prod_cases3)
  note cases = try_queue_work_locked_cases [OF ok t]
  have neg: "EOWNERDEAD \<noteq> EAGAIN" "0 \<le> EOWNERDEAD" "0 \<noteq> - EAGAIN" by (simp_all add: errno_defs)
  from p t cases neg show ?thesis
    by (elim disjE conjE) (simp_all add: queue_work_pass_def Let_def)
qed

text \<open>What arming a worker does to the slots and the threads.\<close>

lemma arm_worker_cases:
  assumes "arm_worker tc wq = (r, q, ev)" and "length (workers wq) = unat (max_threads (attr wq))"
  shows "(nr_sleeping_workers wq \<noteq> 0 \<and> q = wq \<and> ev = [Signal Worker_cond]) \<or>
    (nr_sleeping_workers wq = 0 \<and> (\<forall>i < length (workers wq). worker_wq (workers wq ! i)) \<and>
       q = wq \<and> ev = []) \<or>
    (nr_sleeping_workers wq = 0 \<and> (\<exists>i < length (workers wq). \<not> worker_wq (workers wq ! i) \<and>
       q = wq\<lparr>workers := (workers wq)[i := (workers wq ! i)\<lparr>worker_wq := True, thread := (tc i = 0)\<rparr>]\<rparr> \<and>
       ev = (if tc i = 0 then [Thread_started i] else [])))"
proof (cases "nr_sleeping_workers wq = 0")
  case True
  show ?thesis
  proof (cases "get_free_worker_slot wq")
    case None
    with assms(2) have "\<forall>i < length (workers wq). worker_wq (workers wq ! i)"
      by (simp add: get_free_worker_slot_def find_None_iff)
    with None True assms(1) show ?thesis by (simp add: arm_worker_def arm_spawn_worker_def)
  next
    case (Some i)
    with assms(2) have "i < length (workers wq)" "\<not> worker_wq (workers wq ! i)"
      by (auto simp: get_free_worker_slot_def find_Some_iff)
    with Some True assms(1) show ?thesis
      by (auto simp: arm_worker_def arm_spawn_worker_def)
  qed
next
  case False
  with assms(1) show ?thesis by (simp add: arm_worker_def)
qed

text \<open>A thread list in which some sleepers have been woken.\<close>

definition woken_from :: "worker_pc list \<Rightarrow> worker_pc list \<Rightarrow> bool" where
  "woken_from xs ys = (length ys = length xs \<and>
     (\<forall>i < length xs. ys ! i = xs ! i \<or> xs ! i = Asleep \<and> ys ! i = Woken))"

lemma woken_from_wake:
  "woken_from xs xs"
  "woken_from xs (wake_one w_asleep w_wake n xs)"
  "woken_from xs (wake_all w_asleep w_wake xs)"
proof -
  have "wake_one w_asleep w_wake n xs ! i = xs ! i \<or>
      xs ! i = Asleep \<and> wake_one w_asleep w_wake n xs ! i = Woken" if "i < length xs" for i
    using nth_wake_one [OF that, of w_asleep w_wake n] by metis
  then show "woken_from xs (wake_one w_asleep w_wake n xs)" by (simp add: woken_from_def)
qed (simp_all add: woken_from_def nth_wake_all)

lemma woken_from_map:
  assumes "woken_from xs ys" and "f Woken = f Asleep"
  shows "map f ys = map f xs"
  using assms by (intro nth_equalityI) (auto simp: woken_from_def)

lemma woken_from_cnt:
  assumes "woken_from xs ys" and "P Woken = P Asleep"
  shows "cnt P ys = cnt P xs"
proof -
  have "cnt (\<lambda>b. b) (map P ys) = cnt (\<lambda>b. b) (map P xs)"
    by (simp only: woken_from_map [OF assms])
  then show ?thesis by (simp add: cnt_map comp_def)
qed

lemma is_online_simps [simp]:
  "is_online Asleep" "is_online Woken" "is_online (Running w)"
  "\<not> is_online Starting" "\<not> is_online Exited" "\<not> is_online Not_created"
  by (simp_all add: is_online_def)

text \<open>
  The two ways a step of another thread changes the worker list, with what each keeps: a signal or
  broadcast, and the start of a thread in a slot that had none.
\<close>

lemma woken_from_keeps:
  assumes "woken_from (wpcs s) ys"
  shows "cnt in_wait ys = cnt in_wait (wpcs s)" "cnt is_running ys = cnt is_running (wpcs s)"
    "cnt is_online ys = cnt is_online (wpcs s)"
    "sum_list (map (\<lambda>pc. mset (works_of_pc pc)) ys) = running_works s"
    "length ys = length (wpcs s)"
    "i < length (wpcs s) \<Longrightarrow> (ys ! i = Not_created) = (wpcs s ! i = Not_created) \<and>
       (ys ! i = Exited) = (wpcs s ! i = Exited) \<and> (runnable (wpcs s ! i) \<longrightarrow> runnable (ys ! i))"
proof -
  show "cnt in_wait ys = cnt in_wait (wpcs s)" "cnt is_running ys = cnt is_running (wpcs s)"
    "cnt is_online ys = cnt is_online (wpcs s)"
    by (simp_all add: woken_from_cnt [OF assms])
  show "sum_list (map (\<lambda>pc. mset (works_of_pc pc)) ys) = running_works s"
    unfolding running_works_def by (simp add: woken_from_map [OF assms])
  show "length ys = length (wpcs s)" using assms by (simp add: woken_from_def)
  show "i < length (wpcs s) \<Longrightarrow> (ys ! i = Not_created) = (wpcs s ! i = Not_created) \<and>
       (ys ! i = Exited) = (wpcs s ! i = Exited) \<and> (runnable (wpcs s ! i) \<longrightarrow> runnable (ys ! i))"
    using assms by (auto simp: woken_from_def)
qed

lemma started_keeps:
  assumes "i < length (wpcs s)" and "wpcs s ! i = Not_created"
  shows "cnt in_wait ((wpcs s)[i := Starting]) = cnt in_wait (wpcs s)"
    "cnt is_running ((wpcs s)[i := Starting]) = cnt is_running (wpcs s)"
    "cnt is_online ((wpcs s)[i := Starting]) = cnt is_online (wpcs s)"
    "sum_list (map (\<lambda>pc. mset (works_of_pc pc)) ((wpcs s)[i := Starting])) = running_works s"
  using cnt_update [OF assms(1), of in_wait Starting] cnt_update [OF assms(1), of is_running Starting]
    cnt_update [OF assms(1), of is_online Starting] assms(2)
    sum_list_map_update [OF assms(1), of "\<lambda>pc. mset (works_of_pc pc)" Starting]
  by (simp_all add: running_works_def)

text \<open>
  One lemma covers the two queuer rules: the queue the section starts from is the state's, less the
  queuer itself if it was counted as sleeping.
\<close>

lemma do_queuer_inv_not_queued:
  assumes inv: "sys_inv s" and j: "j < length (qpcs s)"
    and wq: "wq = (queue s)\<lparr>nr_sleeping_queuers :=
        nr_sleeping_queuers (queue s) - of_bool (q_waiting (qpcs s ! j))\<rparr>"
    and p: "queue_work_pass tc w wq = (ro, q, [])" and ro: "ro \<noteq> Some 0"
    and q: "q = wq\<lparr>nr_sleeping_queuers := nr_sleeping_queuers wq + of_bool (ro = None)\<rparr>"
  shows "sys_inv (do_queuer n tc j w wq s)"
proof -
  define u where "u = do_queuer n tc j w wq s"
  have t: "queue u = q" "wpcs u = wpcs s" "apcs u = apcs s" "destroyed u = destroyed s"
      "accepted u = accepted s" "cleared u = cleared s" "started u = started s"
      "finished u = finished s" "running_works u = running_works s"
      "qpcs u = (qpcs s)[j := (if ro = None then Q_asleep w else Q_idle)]"
    using ro by (simp_all add: u_def do_queuer_def p running_works_def)
  from inv have i: "inv_struct s" "inv_count s" "inv_flow s" "inv_awake s" "inv_wait s"
    by (simp_all add: sys_inv_def)
  have "inv_struct u" using i(1) unfolding inv_struct_def t q wq by simp
  moreover have "inv_count u"
    using i(2) unfolding inv_count_def t q wq by (simp add: of_nat_cnt_update [OF j])
  moreover have "inv_flow u" using i(3) unfolding inv_flow_def t q wq by simp
  moreover have "inv_awake u"
    using i(4) unfolding inv_awake_def t q wq by (simp add: all_marked_have_threads_def)
  moreover have "inv_wait u" using i(5) unfolding inv_wait_def t q wq by simp
  ultimately show ?thesis by (simp add: u_def sys_inv_def)
qed

lemma inv_struct_lengths:
  assumes "inv_struct s"
  shows "length (wpcs s) < 2 ^ 32" and "0 < length (wpcs s)"
    and "length (wpcs s) = unat (max_threads (attr (queue s)))"
proof -
  have "wq_ok (queue s)" using assms by (simp add: inv_struct_def)
  then show len: "length (wpcs s) = unat (max_threads (attr (queue s)))" and "0 < length (wpcs s)"
    using assms by (simp_all add: inv_struct_def wq_ok_def unat_gt_0)
  show "length (wpcs s) < 2 ^ 32"
    using len unsigned_less [of "max_threads (attr (queue s))"] by simp
qed

text \<open>After a successful arming there is a worker awake.\<close>

lemma woken_worker_awake:
  assumes "cnt in_wait xs \<noteq> 0"
  shows "\<exists>i < length (wake_one w_asleep w_wake n xs). runnable (wake_one w_asleep w_wake n xs ! i)"
proof -
  from assms obtain i where i: "i < length xs" "in_wait (xs ! i)"
    by (metis cnt_pos_ex neq0_conv)
  from wake_one_cases [of xs w_asleep w_wake n] show ?thesis
  proof
    assume "\<exists>i < length xs. w_asleep (xs ! i) \<and> wake_one w_asleep w_wake n xs = xs[i := Woken]"
    then show ?thesis by (metis length_list_update nth_list_update_eq runnable.simps(2))
  next
    assume "(\<forall>i < length xs. \<not> w_asleep (xs ! i)) \<and> wake_one w_asleep w_wake n xs = xs"
    with i show ?thesis by (cases "xs ! i") (auto intro!: exI [of _ i])
  qed
qed

lemma all_busy_awake:
  assumes "inv_struct s" and "\<not> destroyed s" and "cnt in_wait (wpcs s) = 0"
    and "\<forall>i < length (workers (queue s)). worker_wq (workers (queue s) ! i)"
    and "all_marked_have_threads (queue s)"
  shows "\<exists>i < length (wpcs s). runnable (wpcs s ! i)"
proof -
  have "0 < length (wpcs s)" using inv_struct_lengths [OF assms(1)] by simp
  moreover from this have "0 < length (workers (queue s))"
    using assms(1) unfolding inv_struct_def by metis
  with assms(4,5) have "thread (workers (queue s) ! 0)"
    by (auto simp: all_marked_have_threads_def list_all_length)
  with assms(1,2) \<open>0 < length (wpcs s)\<close> have "wpcs s ! 0 \<noteq> Not_created" "wpcs s ! 0 \<noteq> Exited"
    by (auto simp: inv_struct_def)
  moreover from \<open>0 < length (wpcs s)\<close> assms(3) have "\<not> in_wait (wpcs s ! 0)"
    by (simp add: cnt_0_iff)
  ultimately show ?thesis by (cases "wpcs s ! 0") (auto intro!: exI [of _ 0])
qed

text \<open>What queueing a work does to the pool: some thread is woken or started, or all are busy.\<close>

definition pool_part :: "wq_sys \<Rightarrow> worker_thread list \<Rightarrow> wq_sys \<Rightarrow> bool" where
  "pool_part s ws u =
     (length (wpcs u) = length ws \<and>
      (\<forall>i < length (wpcs u). thread (ws ! i) = (wpcs u ! i \<noteq> Not_created) \<and>
         (thread (ws ! i) \<longrightarrow> worker_wq (ws ! i)) \<and> (wpcs u ! i = Exited \<longrightarrow> destroyed s)) \<and>
      cnt in_wait (wpcs u) = cnt in_wait (wpcs s) \<and> cnt is_running (wpcs u) = cnt is_running (wpcs s) \<and>
      cnt is_online (wpcs u) = cnt is_online (wpcs s) \<and> running_works u = running_works s \<and>
      (list_all (\<lambda>w. worker_wq w \<longrightarrow> thread w) ws \<longrightarrow> (\<exists>i < length (wpcs u). runnable (wpcs u ! i))))"

lemma pool_part_spawned:
  assumes str: "inv_struct s" and m: "m < length (workers (queue s))" "\<not> worker_wq (workers (queue s) ! m)"
    and u: "wpcs u = (if ok then (wpcs s)[m := Starting] else wpcs s)"
  shows "pool_part s ((workers (queue s))[m := (workers (queue s) ! m)\<lparr>worker_wq := True, thread := ok\<rparr>]) u"
proof -
  from m str have nc: "m < length (wpcs s)" "wpcs s ! m = Not_created" by (auto simp: inv_struct_def)
  show ?thesis
  proof (cases ok)
    case True
    then have "\<exists>i < length (wpcs u). runnable (wpcs u ! i)"
      using nc(1) u by (intro exI [of _ m]) simp
    with str nc started_keeps [OF nc] True u show ?thesis
      by (auto simp: pool_part_def inv_struct_def running_works_def [of u] nth_list_update_at)
  next
    case False
    then have "\<not> list_all (\<lambda>w. worker_wq w \<longrightarrow> thread w) ((workers (queue s))[m :=
        (workers (queue s) ! m)\<lparr>worker_wq := True, thread := ok\<rparr>])"
      using m(1) by (auto simp: list_all_length intro!: exI [of _ m])
    with str nc False u show ?thesis
      by (auto simp: pool_part_def inv_struct_def running_works_def nth_list_update_at)
  qed
qed

lemma arm_worker_pool_part:
  assumes inv: "inv_struct s" "inv_count s" and nd: "\<not> destroyed s"
    and wq: "workers wq = workers (queue s)" "nr_sleeping_workers wq = nr_sleeping_workers (queue s)"
      "attr wq = attr (queue s)"
    and arm: "arm_worker tc wq = (r, q, ev)" and u: "wpcs u = wpcs (apply_events n ev (s\<lparr>queue := q\<rparr>))"
  shows "pool_part s (workers q) u"
proof -
  note lens = inv_struct_lengths [OF inv(1)]
  have in_wait_0: "nr_sleeping_workers (queue s) = 0 \<longleftrightarrow> cnt in_wait (wpcs s) = 0"
    using inv(2) of_nat_cnt_0 [OF lens(1)] by (simp add: inv_count_def)
  have "length (workers wq) = unat (max_threads (attr wq))"
    using inv(1) lens(3) by (simp add: wq inv_struct_def)
  from arm_worker_cases [OF arm this, unfolded wq] show ?thesis
  proof (elim disjE conjE exE)
    assume "nr_sleeping_workers (queue s) \<noteq> 0" and q: "q = wq" and ev: "ev = [Signal Worker_cond]"
    then have "cnt in_wait (wpcs s) \<noteq> 0" using in_wait_0 by simp
    from woken_worker_awake [OF this, of n] have "\<exists>i < length (wpcs u). runnable (wpcs u ! i)"
      by (simp add: u ev)
    moreover have "woken_from (wpcs s) (wpcs u)" by (simp add: u ev woken_from_wake)
    note woken_from_keeps [OF this]
    ultimately show ?thesis
      using inv(1) by (auto simp: pool_part_def inv_struct_def running_works_def [of u] q wq)
  next
    assume ns: "nr_sleeping_workers (queue s) = 0" and q: "q = wq" and ev: "ev = []"
      and all: "\<forall>i < length (workers (queue s)). worker_wq (workers (queue s) ! i)"
    have "wpcs u = wpcs s" by (simp add: u ev)
    with inv(1) all_busy_awake [OF inv(1) nd in_wait_0 [THEN iffD1, OF ns] all] show ?thesis
      by (auto simp: pool_part_def inv_struct_def running_works_def all_marked_have_threads_def q wq)
  next
    fix m
    assume m: "m < length (workers (queue s))" "\<not> worker_wq (workers (queue s) ! m)"
      and q: "q = wq\<lparr>workers := (workers (queue s))[m :=
          (workers (queue s) ! m)\<lparr>worker_wq := True, thread := (tc m = 0)\<rparr>]\<rparr>"
      and ev: "ev = (if tc m = 0 then [Thread_started m] else [])"
    have "wpcs u = (if tc m = 0 then (wpcs s)[m := Starting] else wpcs s)" by (simp add: u ev)
    from pool_part_spawned [OF inv(1) m this] show ?thesis by (simp add: q)
  qed
qed

lemma do_queuer_inv_queued:
  assumes inv: "sys_inv s" and j: "j < length (qpcs s)"
    and wq: "wq = (queue s)\<lparr>nr_sleeping_queuers :=
        nr_sleeping_queuers (queue s) - of_bool (q_waiting (qpcs s ! j))\<rparr>"
    and p: "queue_work_pass tc w wq = (Some 0, q, ev)"
    and stop: "\<not> should_stop wq" and ok: "wq_ok q"
    and c: "wq_contents q = wq_contents wq @ [w]"
    and arm: "arm_worker tc (wq_push w wq) = (r, q, ev)"
  shows "sys_inv (do_queuer n tc j w wq s)"
proof -
  define u where "u = do_queuer n tc j w wq s"
  from inv have i: "inv_struct s" "inv_count s" "inv_flow s" "inv_awake s" "inv_wait s"
    by (simp_all add: sys_inv_def)
  from stop i(1) have nd: "\<not> destroyed s" by (simp add: wq inv_struct_def)
  have push: "workers (wq_push w wq) = workers (queue s)"
      "nr_sleeping_workers (wq_push w wq) = nr_sleeping_workers (queue s)"
      "attr (wq_push w wq) = attr (queue s)"
    by (simp_all add: wq_push_def wq)
  have q: "should_stop q = should_stop (queue s)"
      "wait_all_is_waiting q = wait_all_is_waiting (queue s)"
      "nr_sleeping_workers q = nr_sleeping_workers (queue s)"
      "nr_running_workers q = nr_running_workers (queue s)"
      "nr_online_workers q = nr_online_workers (queue s)"
      "nr_sleeping_queuers q =
         nr_sleeping_queuers (queue s) - of_bool (q_waiting (qpcs s ! j))"
    by (subst arm_worker_frame(1) [OF arm]; simp add: wq_push_def wq)+
  have cs: "wq_contents q = wq_contents (queue s) @ [w]" using c by (simp add: wq)
  have "length (workers (wq_push w wq)) = unat (max_threads (attr (wq_push w wq)))"
    using i(1) inv_struct_lengths(3) [OF i(1)] by (simp add: push inv_struct_def)
  note cases = arm_worker_cases [OF arm this, unfolded push]
  have "qpcs (apply_events n ev (s\<lparr>queue := q\<rparr>)) = qpcs s"
    and "apcs (apply_events n ev (s\<lparr>queue := q\<rparr>)) = apcs s"
    using cases by auto
  then have t: "queue u = q" "wpcs u = wpcs (apply_events n ev (s\<lparr>queue := q\<rparr>))"
      "apcs u = apcs s" "destroyed u = destroyed s"
      "accepted u = accepted s @ [w]" "cleared u = cleared s" "started u = started s"
      "finished u = finished s" "qpcs u = (qpcs s)[j := Q_idle]"
    by (simp_all add: u_def do_queuer_def p)
  note pool = arm_worker_pool_part [OF i(1,2) nd push arm t(2), unfolded pool_part_def]
  have "inv_struct u" using i(1) pool ok q(1) unfolding inv_struct_def t by simp
  moreover have "inv_count u"
    using i(2) pool unfolding inv_count_def t q by (simp add: of_nat_cnt_update [OF j])
  moreover have "inv_flow u" using i(3) pool nd unfolding inv_flow_def t cs by simp
  moreover have "inv_awake u" using pool unfolding inv_awake_def all_marked_have_threads_def t(1) by blast
  moreover have "inv_wait u" using i(5) nd unfolding inv_wait_def t q cs by simp
  ultimately show ?thesis by (simp add: u_def sys_inv_def)
qed

lemma queuer_inv:
  assumes inv: "sys_inv s" and j: "j < length (qpcs s)"
    and wq: "wq = (queue s)\<lparr>nr_sleeping_queuers :=
        nr_sleeping_queuers (queue s) - of_bool (q_waiting (qpcs s ! j))\<rparr>"
  shows "sys_inv (do_queuer n tc j w wq s)"
proof -
  obtain ro q ev where p: "queue_work_pass tc w wq = (ro, q, ev)" by (metis prod_cases3)
  have "wq_ok wq" using inv by (simp add: sys_inv_def inv_struct_def wq)
  note cases = queue_work_pass_cases [OF this p]
  have "EOWNERDEAD \<noteq> 0" by (simp add: errno_defs)
  with cases consider
      "ev = []" "ro \<noteq> Some 0" "q = wq\<lparr>nr_sleeping_queuers := nr_sleeping_queuers wq + of_bool (ro = None)\<rparr>"
    | r where "ro = Some 0" "\<not> should_stop wq" "wq_ok q" "wq_contents q = wq_contents wq @ [w]"
      "arm_worker tc (wq_push w wq) = (r, q, ev)"
    by (elim disjE conjE exE) auto
  then show ?thesis
  proof cases
    case 1
    with do_queuer_inv_not_queued [OF inv j wq, of tc w ro q n] p show ?thesis by simp
  next
    case 2
    with do_queuer_inv_queued [OF inv j wq, of tc w q ev r n] p show ?thesis by simp
  qed
qed

section \<open>The other steps\<close>

lemma waiter_inv:
  assumes inv: "sys_inv s" and k: "k < length (apcs s)"
    and r: "r = wait_all_pass wq" and wq: "wq = (queue s)\<lparr>queue_is_blocked := b, wait_all_is_waiting := w\<rparr>"
  shows "sys_inv (do_waiter k r s)"
proof -
  define u where "u = do_waiter k r s"
  from inv have i: "inv_struct s" "inv_count s" "inv_flow s" "inv_awake s" "inv_wait s"
    by (simp_all add: sys_inv_def)
  obtain b' w' where q: "queue u = (queue s)\<lparr>queue_is_blocked := b', wait_all_is_waiting := w'\<rparr>"
    and ws: "wpcs u = wpcs s" and rest: "qpcs u = qpcs s" "destroyed u = destroyed s"
      "accepted u = accepted s" "cleared u = cleared s" "started u = started s"
      "finished u = finished s"
    by (rule that [of "wait_all_is_waiting (snd r)" "queue_is_blocked (snd r)"])
      (simp_all add: u_def do_waiter_def r wq wait_all_pass_def)
  have "inv_struct u" using i(1) unfolding inv_struct_def q ws rest by simp
  moreover have "inv_count u" using i(2) unfolding inv_count_def q ws rest by simp
  moreover have "inv_flow u" using i(3) unfolding inv_flow_def running_works_def q ws rest by simp
  moreover have "inv_awake u"
    using i(4) unfolding inv_awake_def q ws by (simp add: all_marked_have_threads_def)
  moreover have "inv_wait u"
  proof (cases "(wq_contents (queue s) \<noteq> [] \<or> nr_running_workers (queue s) \<noteq> 0) \<and> \<not> destroyed s")
    case True
    with i(1) have "r = (False, wq\<lparr>wait_all_is_waiting := True\<rparr>)"
      unfolding r wait_all_pass_def count_pending_works_pos wq by (simp add: inv_struct_def)
    then have "wait_all_is_waiting (queue u)"  by (simp add: u_def do_waiter_def)
    with True show ?thesis by (simp add: inv_wait_def q rest)
  next
    case False
    with i(5) have none: "\<forall>m < length (apcs s). apcs s ! m \<noteq> A_asleep" by (auto simp: inv_wait_def)
    from False i(1) have "r = (True, wq\<lparr>queue_is_blocked := False\<rparr>)"
      unfolding r wait_all_pass_def count_pending_works_pos wq by (auto simp: inv_struct_def)
    then have "apcs u = (apcs s)[k := A_idle]" by (simp add: u_def do_waiter_def)
    with none show ?thesis by (simp add: inv_wait_def nth_list_update_at)
  qed
  ultimately show ?thesis by (simp add: u_def sys_inv_def)
qed

text \<open>Deleters are called under the lock, and touch no thread.\<close>

lemma apply_deleter_events [simp]: "apply_events n (deleter_events ws @ es) s = apply_events n es s"
proof -
  have "apply_events n (map Deleter_called vs @ es) s = apply_events n es s" for vs
    by (induction vs) simp_all
  then show ?thesis by (simp add: deleter_events_def)
qed

text \<open>Destroying wakes every worker asleep in \<open>wait_for_event\<close>, and every thread asleep in
  \<open>wait_all_work_done\<close>.\<close>

lemma do_destroy_effect:
  assumes "inv_struct s"
  shows "queue (do_destroy n s) = (queue s)\<lparr>should_stop := True, wq_head := wq_tail (queue s)\<rparr>"
    and "cleared (do_destroy n s) = wq_contents (queue s)"
    and "destroyed (do_destroy n s)" and "qpcs (do_destroy n s) = qpcs s"
    and "accepted (do_destroy n s) = accepted s" and "started (do_destroy n s) = started s"
    and "finished (do_destroy n s) = finished s" and "length (apcs (do_destroy n s)) = length (apcs s)"
    and "wpcs (do_destroy n s) =
      (if nr_sleeping_workers (queue s) = 0 then wpcs s
       else if nr_sleeping_workers (queue s) = 1 then wake_one w_asleep w_wake n (wpcs s)
       else wake_all w_asleep w_wake (wpcs s))"
    and "apcs (do_destroy n s) =
      (if wait_all_is_waiting (queue s) then wake_all a_asleep a_wake (apcs s) else apcs s)"
proof -
  let ?q = "(queue s)\<lparr>should_stop := True, wq_head := wq_tail (queue s)\<rparr>"
  have "wq_ok (queue s)" using assms by (simp add: inv_struct_def)
  then have d: "destroy_workqueue_locked (queue s) =
      (wq_contents (queue s), ?q, deleter_events (wq_contents (queue s)) @ wake_up_all_workers ?q)"
    by (simp add: destroy_workqueue_locked_def clear_pending_works_spec)
  have gt: "1 < x \<longleftrightarrow> x \<noteq> 0 \<and> x \<noteq> 1" for x :: u32 by unat_arith
  show "queue (do_destroy n s) = ?q" "cleared (do_destroy n s) = wq_contents (queue s)"
    "destroyed (do_destroy n s)" "qpcs (do_destroy n s) = qpcs s"
    "accepted (do_destroy n s) = accepted s" "started (do_destroy n s) = started s"
    "finished (do_destroy n s) = finished s" "length (apcs (do_destroy n s)) = length (apcs s)"
    "wpcs (do_destroy n s) =
      (if nr_sleeping_workers (queue s) = 0 then wpcs s
       else if nr_sleeping_workers (queue s) = 1 then wake_one w_asleep w_wake n (wpcs s)
       else wake_all w_asleep w_wake (wpcs s))"
    "apcs (do_destroy n s) =
      (if wait_all_is_waiting (queue s) then wake_all a_asleep a_wake (apcs s) else apcs s)"
    by (simp_all add: do_destroy_def d wake_up_all_workers_def gt)
qed

lemma destroy_inv:
  assumes inv: "sys_inv s" and nd: "\<not> destroyed s"
  shows "sys_inv (do_destroy n s)"
proof -
  define u where "u = do_destroy n s"
  from inv have i: "inv_struct s" "inv_count s" "inv_flow s" "inv_awake s" "inv_wait s"
    by (simp_all add: sys_inv_def)
  note e = do_destroy_effect [OF i(1), of n, folded u_def]
  have "woken_from (wpcs s) (wpcs u)" by (simp add: e(9) woken_from_wake)
  note k = woken_from_keeps [OF this]
  have c: "wq_contents (queue u) = []" by (simp add: e(1) wq_contents_Nil_iff)
  have "wq_ok (queue u)" using i(1) by (simp add: e(1) inv_struct_def wq_ok_def)
  then have "inv_struct u" using i(1) k e(3) unfolding inv_struct_def e(1,2,4-8) by simp
  moreover have "inv_count u" using i(2) k unfolding inv_count_def e(1-8) by simp
  moreover have "inv_flow u"
    using i(3) nd c e(2-7) k(4) by (simp add: inv_flow_def running_works_def [of u])
  moreover have "inv_awake u" by (simp add: inv_awake_def c)
  moreover have "inv_wait u"
    using i(5) by (auto simp: inv_wait_def e(8,10) nth_wake_all split: if_splits)
  ultimately show ?thesis by (simp add: u_def sys_inv_def)
qed

lemma worker_spurious_inv:
  assumes inv: "sys_inv s" and i: "i < length (wpcs s)" "wpcs s ! i = Asleep"
  shows "sys_inv (s\<lparr>wpcs := (wpcs s)[i := Woken]\<rparr>)"
proof -
  have "woken_from (wpcs s) ((wpcs s)[i := Woken])"
    using i by (auto simp: woken_from_def nth_list_update_at)
  note k = woken_from_keeps [OF this]
  have "runnable ((wpcs s)[i := Woken] ! i)" using i by simp
  with inv i k show ?thesis
    unfolding sys_inv_def inv_defs running_works_def by (auto simp del: nth_list_update_eq)
qed

lemma queuer_spurious_inv:
  assumes inv: "sys_inv s" and j: "j < length (qpcs s)" "qpcs s ! j = Q_asleep w"
  shows "sys_inv (s\<lparr>qpcs := (qpcs s)[j := Q_woken w]\<rparr>)"
  using inv cnt_update [OF j(1), of q_waiting "Q_woken w"] j
  unfolding sys_inv_def inv_defs running_works_def by auto

lemma waiter_spurious_inv:
  "sys_inv s \<Longrightarrow> sys_inv (s\<lparr>apcs := (apcs s)[k := A_woken]\<rparr>)"
  by (auto simp: sys_inv_def inv_defs running_works_def nth_list_update_at)

section \<open>Reachable states\<close>

lemma cnt_none: "(\<And>x. x \<in> set xs \<Longrightarrow> \<not> P x) \<Longrightarrow> cnt P xs = 0"
  by (simp add: cnt_0_iff)

lemma init_inv:
  assumes "alloc_workqueue env at = Some (0, Some wq, ev, tr)" and "nq < 2 ^ 32"
  shows "sys_inv (init_sys wq nq na)"
proof -
  obtain at' n m where m: "m \<le> 31" "max_pending_works at' = 2 ^ m" "max_threads at' \<noteq> 0"
    and wq: "wq = (fresh_wq at')\<lparr>workers := map (\<lambda>i. \<lparr>worker_id = of_nat i, thread = i < n,
        worker_wq = i < n\<rparr>) [0..<unat (max_threads at')]\<rparr>"
    by (rule alloc_workqueue_success [OF assms(1)]) (auto intro: that)
  have ok: "wq_ok wq" unfolding wq by (rule fresh_wq_ok [OF m(2,1,3)]) simp_all
  let ?s = "init_sys wq nq na"
  have flags: "\<not> should_stop wq" "wq_contents wq = []" "nr_sleeping_workers wq = 0"
      "nr_sleeping_queuers wq = 0" "nr_online_workers wq = 0" "nr_running_workers wq = 0"
    by (simp_all add: wq fresh_wq_def wq_contents_def)
  have "inv_struct ?s"
    using ok assms(2) flags by (auto simp: inv_struct_def init_sys_def wq)
  moreover have "inv_count ?s"
  proof -
    have "cnt in_wait (wpcs ?s) = 0" "cnt is_running (wpcs ?s) = 0" "cnt is_online (wpcs ?s) = 0"
        "cnt q_waiting (qpcs ?s) = 0"
      by (rule cnt_none; auto simp: init_sys_def)+
    with flags show ?thesis by (simp add: inv_count_def init_sys_def)
  qed
  moreover have "sum_list (map (\<lambda>pc. mset (works_of_pc pc))
      (map (\<lambda>w. if thread w then Starting else Not_created) ws)) = {#}" for ws
    by (induction ws) simp_all
  then have "running_works ?s = {#}" by (simp add: running_works_def init_sys_def)
  then have "inv_flow ?s" using flags by (simp add: inv_flow_def init_sys_def)
  moreover have "inv_awake ?s" using flags by (simp add: inv_awake_def init_sys_def)
  moreover have "inv_wait ?s" by (simp add: inv_wait_def init_sys_def)
  ultimately show ?thesis by (simp add: sys_inv_def)
qed

lemma wq_step_inv:
  assumes "wq_step s a t" and "sys_inv s"
  shows "sys_inv t"
  using assms
proof cases
  case (queuer_call j n tc w)
  then show ?thesis using assms(2) by (auto intro!: queuer_inv)
next
  case (queuer_woken j w n tc)
  then show ?thesis using assms(2) by (auto intro!: queuer_inv simp: queue_work_woken_def)
next
  case (waiter_call k)
  have "wait_all_work_done (queue s) = wait_all_pass
      ((queue s)\<lparr>queue_is_blocked := True, wait_all_is_waiting := wait_all_is_waiting (queue s)\<rparr>)"
    by (simp add: wait_all_work_done_def)
  from waiter_inv [OF assms(2) waiter_call(3) this refl] waiter_call show ?thesis by simp
next
  case (waiter_woken k)
  have "wait_all_woken (queue s) = wait_all_pass
      ((queue s)\<lparr>queue_is_blocked := queue_is_blocked (queue s), wait_all_is_waiting := False\<rparr>)"
    by (simp add: wait_all_woken_def)
  from waiter_inv [OF assms(2) waiter_woken(3) this refl] waiter_woken show ?thesis by simp
qed (use assms(2) worker_inv destroy_inv worker_spurious_inv queuer_spurious_inv waiter_spurious_inv
      in auto)

interpretation wq_safe: invariant_system wq_init wq_step sys_inv
  by unfold_locales (auto simp: wq_init_def intro: init_inv wq_step_inv)

lemmas reachable_inv = wq_safe.reach_inv

lemma reachable_invD:
  assumes "reachable s"
  shows "inv_struct s" "inv_count s" "inv_flow s" "inv_awake s" "inv_wait s" "wq_ok (queue s)"
  using reachable_inv [OF assms] by (simp_all add: sys_inv_def inv_struct_def)

section \<open>What every reachable state satisfies\<close>

text \<open>
  C1: no work is lost, duplicated or reordered: the works accepted so far are, in the order in which
  they were accepted, those started, those \<open>destroy_workqueue\<close> cleared and those pending. Every
  started work is finished or running, exactly once, and nothing is cleared before destruction.
\<close>

theorem work_conserved:
  assumes "reachable s"
  shows "accepted s = started s @ cleared s @ wq_contents (queue s) \<and>
    mset (started s) = mset (finished s) + running_works s \<and>
    (\<not> destroyed s \<longrightarrow> cleared s = []) \<and> (destroyed s \<longrightarrow> wq_contents (queue s) = [])"
  using reachable_invD(3) [OF assms] by (simp add: inv_flow_def)

text \<open>
  C19: the bookkeeping of the record is right in every interleaving. The four \<open>uint32_t\<close> counters
  are the numbers of threads in the corresponding places, \<open>should_stop\<close> says that destruction has
  begun, no more works are pending than \<open>max_pending_works\<close>, and no more threads run works than
  \<open>max_threads\<close>.
\<close>

theorem counters_exact:
  assumes "reachable s"
  shows "unat (nr_sleeping_workers (queue s)) = cnt in_wait (wpcs s) \<and>
    unat (nr_running_workers (queue s)) = cnt is_running (wpcs s) \<and>
    unat (nr_online_workers (queue s)) = cnt is_online (wpcs s) \<and>
    unat (nr_sleeping_queuers (queue s)) = cnt q_waiting (qpcs s) \<and>
    should_stop (queue s) = destroyed s \<and>
    length (wq_contents (queue s)) \<le> unat (max_pending_works (attr (queue s))) \<and>
    cnt is_running (wpcs s) \<le> unat (max_threads (attr (queue s)))"
proof -
  note inv = reachable_invD [OF assms]
  note lens = inv_struct_lengths [OF inv(1)]
  have small: "unat (of_nat (cnt P xs) :: u32) = cnt P xs" if "length xs < 2 ^ 32" for P and xs :: "'x list"
  proof -
    have "cnt P xs < 2 ^ 32" using that cnt_le [of P xs] by simp
    then show ?thesis by (simp add: unat_of_nat)
  qed
  have "length (qpcs s) < 2 ^ 32" "should_stop (queue s) = destroyed s"
    using inv(1) by (simp_all add: inv_struct_def)
  moreover have "length (wq_contents (queue s)) \<le> unat (max_pending_works (attr (queue s)))"
  proof -
    have "length (work_list (queue s)) = unat (max_pending_works (attr (queue s)))"
      using uint_max_pending [OF inv(6)] by (metis nat_int unat_eq_nat_uint)
    with wq_okD(2) [OF inv(6)] show ?thesis by simp
  qed
  ultimately show ?thesis
    using inv(2) small [OF lens(1)] small lens(3) cnt_le [of is_running "wpcs s"]
    by (simp add: inv_count_def)
qed

text \<open>
  C17: a call of \<open>wait_all_work_done\<close> returns from a step exactly when the queue is being destroyed
  or when every work accepted so far has finished. Otherwise the caller is asleep after the step.
\<close>

theorem wait_all_returns_iff:
  assumes "reachable s" and "wq_step s (Act_waiter k) t"
  shows "apcs t ! k = (if destroyed s \<or> mset (finished s) = mset (accepted s) then A_idle else A_asleep)"
proof -
  note inv = reachable_invD [OF assms(1)]
  have eq: "apcs (do_waiter k (wait_all_pass wq) s) ! k = (if destroyed s \<or>
      wq_contents (queue s) = [] \<and> nr_running_workers (queue s) = 0 then A_idle else A_asleep)"
    if "k < length (apcs s)" "wq = (queue s)\<lparr>queue_is_blocked := b, wait_all_is_waiting := w\<rparr>" for wq b w
    using that inv(1)
    by (auto simp: do_waiter_def wait_all_pass_def count_pending_works_pos inv_struct_def)
  have run0: "nr_running_workers (queue s) = 0 \<longleftrightarrow> running_works s = {#}"
  proof -
    have "cnt is_running xs = 0 \<longleftrightarrow> sum_list (map (\<lambda>pc. mset (works_of_pc pc)) xs) = {#}" for xs
    proof (induction xs)
      case (Cons pc xs)
      then show ?case by (cases pc) simp_all
    qed simp
    then show ?thesis
      using inv(2) of_nat_cnt_0 [OF inv_struct_lengths(1) [OF inv(1)]]
      by (simp add: inv_count_def running_works_def)
  qed
  have done_iff: "wq_contents (queue s) = [] \<and> nr_running_workers (queue s) = 0 \<longleftrightarrow>
      mset (finished s) = mset (accepted s)" if "\<not> destroyed s"
    using inv(3) that unfolding run0 inv_flow_def by auto
  from assms(2) show ?thesis
  proof cases
    case waiter_call
    with eq [OF waiter_call(2), of "(queue s)\<lparr>queue_is_blocked := True\<rparr>" "wait_all_is_waiting (queue s)" True]
    show ?thesis using done_iff by (auto simp: wait_all_work_done_def)
  next
    case waiter_woken
    with eq [OF waiter_woken(2), of "(queue s)\<lparr>wait_all_is_waiting := False\<rparr>" False "queue_is_blocked (queue s)"]
    show ?thesis using done_iff by (auto simp: wait_all_woken_def)
  qed
qed

text \<open>
  C18: no wake-up of \<open>wait_all_work_done\<close> is lost: a thread asleep in it has an undestroyed queue
  with work still pending or running to wait for, and the flag that makes the last worker broadcast
  is set.
\<close>

theorem wait_all_not_forgotten:
  assumes "reachable s" and "k < length (apcs s)" and "apcs s ! k = A_asleep"
  shows "\<not> destroyed s \<and> wait_all_is_waiting (queue s) \<and>
    (wq_contents (queue s) \<noteq> [] \<or> 0 < cnt is_running (wpcs s))"
proof -
  note inv = reachable_invD [OF assms(1)]
  from inv(5) assms(2,3) have "wait_all_is_waiting (queue s) \<and> \<not> destroyed s \<and>
      (wq_contents (queue s) \<noteq> [] \<or> nr_running_workers (queue s) \<noteq> 0)"
    by (simp add: inv_wait_def)
  with inv(2) of_nat_cnt_0 [OF inv_struct_lengths(1) [OF inv(1)], of is_running] show ?thesis
    by (simp add: inv_count_def)
qed

section \<open>Progress of the workers\<close>

text \<open>The number of steps the workers can still take.\<close>

definition load :: "wq_sys \<Rightarrow> nat" where
  "load s = cnt runnable (wpcs s) + length (wq_contents (queue s))"

definition all_idle :: "wq_sys \<Rightarrow> bool" where
  "all_idle s = list_all (\<lambda>pc. \<not> runnable pc) (wpcs s)"

lemma runnable_pc_of_turn [simp]: "runnable (pc_of_turn turn) = (works_of_turn turn \<noteq> [])"
  by (cases turn) simp_all

lemma length_works_of_turn: "length (works_of_turn turn) = of_bool (works_of_turn turn \<noteq> [])"
  by (cases turn) simp_all

lemma worker_step_load:
  assumes inv: "sys_inv s" and st: "wq_step s (Act_worker i) t"
  shows "Suc (load t) = load s"
    and "workers (queue t) = workers (queue s)" "accepted t = accepted s" "cleared t = cleared s"
      "destroyed t = destroyed s" "length (apcs t) = length (apcs s)"
      "queue_is_blocked (queue t) = queue_is_blocked (queue s)"
    and "\<exists>pc. wpcs t = (wpcs s)[i := pc] \<and> (pc = Asleep \<longrightarrow> \<not> destroyed s \<or> queue_is_blocked (queue s))"
proof -
  from st obtain n where i: "i < length (wpcs s)" and r: "runnable (wpcs s ! i)"
    and t: "t = do_worker n i s" by (auto simp: worker_step_simp)
  have str: "inv_struct s" and ok: "wq_ok (queue s)" using inv by (simp_all add: sys_inv_def inv_struct_def)
  have "Suc (load t) = load s \<and> workers (queue t) = workers (queue s) \<and> accepted t = accepted s \<and>
    cleared t = cleared s \<and> destroyed t = destroyed s \<and> length (apcs t) = length (apcs s) \<and>
    queue_is_blocked (queue t) = queue_is_blocked (queue s) \<and>
    (\<exists>pc. wpcs t = (wpcs s)[i := pc] \<and> (pc = Asleep \<longrightarrow> \<not> destroyed s \<or> queue_is_blocked (queue s)))"
  proof (rule do_worker_effect [OF str i r, of n])
    fix turn q ev
    assume sec: "worker_section (wpcs s ! i) (queue s) = (turn, q, ev)"
      and e: "queue (do_worker n i s) = q" "wpcs (do_worker n i s) = (wpcs s)[i := pc_of_turn turn]"
        "apcs (do_worker n i s) = apcs (apply_events n ev (s\<lparr>queue := q\<rparr>))"
        "destroyed (do_worker n i s) = destroyed s" "accepted (do_worker n i s) = accepted s"
        "cleared (do_worker n i s) = cleared s"
    note sum = worker_section_summary [OF ok r sec]
    have "length (wq_contents (queue s)) =
        of_bool (works_of_turn turn \<noteq> []) + length (wq_contents q)"
      unfolding sum(11) length_append length_works_of_turn ..
    moreover have "cnt runnable ((wpcs s)[i := pc_of_turn turn]) + 1 =
        cnt runnable (wpcs s) + of_bool (works_of_turn turn \<noteq> [])"
      using cnt_update [OF i, of runnable "pc_of_turn turn"] r by simp
    ultimately have "Suc (load t) = load s" by (simp only: load_def t e)
    moreover have "pc_of_turn turn = Asleep \<longrightarrow> \<not> destroyed s \<or> queue_is_blocked (queue s)"
      using sum(13) str by (cases turn) (auto simp: inv_struct_def)
    ultimately show ?thesis using sum(3,6) by (simp add: t e) blast
  qed
  then show "Suc (load t) = load s"
    "workers (queue t) = workers (queue s)" "accepted t = accepted s" "cleared t = cleared s"
    "destroyed t = destroyed s" "length (apcs t) = length (apcs s)"
    "queue_is_blocked (queue t) = queue_is_blocked (queue s)"
    "\<exists>pc. wpcs t = (wpcs s)[i := pc] \<and> (pc = Asleep \<longrightarrow> \<not> destroyed s \<or> queue_is_blocked (queue s))"
    by simp_all
qed

lemma not_idle_steps: "\<not> all_idle s \<Longrightarrow> \<exists>i t. wq_step s (Act_worker i) t"
  by (auto simp: all_idle_def list_all_length intro: worker)

definition worker_frame :: "wq_sys \<Rightarrow> worker_thread list \<times> work_struct list \<times> work_struct list \<times> bool \<times> nat" where
  "worker_frame s = (workers (queue s), accepted s, cleared s, destroyed s, length (apcs s))"

fun pool_ready :: "worker_thread list \<times> work_struct list \<times> work_struct list \<times> bool \<times> nat \<Rightarrow> bool" where
  "pool_ready (ws, acc, clr, d, n) = (list_all (\<lambda>w. worker_wq w \<longrightarrow> thread w) ws \<or> d)"

lemma pool_ready_frame: "pool_ready (worker_frame s) = (all_marked_have_threads (queue s) \<or> destroyed s)"
  by (simp add: worker_frame_def all_marked_have_threads_def)

text \<open>While something is left to do the workers can do it, provided every taken slot has a thread.\<close>

lemma idle_iff_no_load:
  assumes "sys_inv s" and "all_marked_have_threads (queue s) \<or> destroyed s"
  shows "all_idle s \<longleftrightarrow> load s = 0"
proof
  assume idle: "all_idle s"
  with assms have "wq_contents (queue s) = []"
    by (auto simp: sys_inv_def inv_awake_def inv_flow_def all_idle_def list_all_length)
  with idle show "load s = 0" by (simp add: load_def all_idle_def cnt_0_iff list_all_iff)
qed (simp add: load_def all_idle_def cnt_0_iff list_all_iff)

interpretation pool: draining_system wq_init wq_step sys_inv is_worker load worker_frame pool_ready
proof unfold_locales
  show "Suc (load t) = load s" if "sys_inv s" "is_worker a" "wq_step s a t" for s a t
    using that worker_step_load(1) by (cases a) auto
  show "worker_frame t = worker_frame s" if "sys_inv s" "is_worker a" "wq_step s a t" for s a t
    using that worker_step_load(2-6) by (cases a) (auto simp: worker_frame_def)
  show "\<exists>a t. is_worker a \<and> wq_step s a t"
    if "sys_inv s" "pool_ready (worker_frame s)" "load s \<noteq> 0" for s
    using that idle_iff_no_load [of s] not_idle_steps [of s] is_worker.simps(1)
    unfolding pool_ready_frame by metis
qed

lemma idle_running_works:
  "all_idle s \<Longrightarrow> running_works s = {#}"
proof -
  have "list_all (\<lambda>pc. \<not> runnable pc) xs \<Longrightarrow> sum_list (map (\<lambda>pc. mset (works_of_pc pc)) xs) = {#}" for xs
  proof (induction xs)
    case (Cons pc xs)
    then show ?case by (cases pc) simp_all
  qed simp
  then show "all_idle s \<Longrightarrow> running_works s = {#}" by (simp add: all_idle_def running_works_def)
qed

text \<open>
  C8: the pool makes progress and terminates, as long as no \<open>thread_create\<close> has failed. From a reachable state in
  which every slot marked as taken has a thread (\<open>arm_spawn_worker\<close> leaves a slot marked when \<open>thread_create\<close> fails, and
  then the work it was to run may wait for good), the workers alone can take exactly \<open>load s\<close> steps, in whatever order
  they are scheduled: they are never stuck before, and afterwards all of them are idle, nothing is pending and every
  work ever accepted has finished or had been cleared by destruction.
\<close>

theorem workers_drain:
  assumes "reachable s" and "all_marked_have_threads (queue s)"
  shows "(\<exists>t. worker_run (load s) s t) \<and>
    (\<forall>k t. worker_run k s t \<longrightarrow> k \<le> load s \<and> (k < load s \<longrightarrow> (\<exists>i u. wq_step t (Act_worker i) u)) \<and>
       (k = load s \<longrightarrow> all_idle t \<and> wq_contents (queue t) = [] \<and>
          mset (accepted s) = mset (finished t) + mset (cleared s)))"
proof (intro conjI allI impI)
  note inv = reachable_inv [OF assms(1)]
  have ready: "pool_ready (worker_frame s)" using assms(2) by (simp add: pool_ready_frame)
  show "\<exists>t. worker_run (load s) s t" by (rule pool.steps_exist [OF inv ready]) simp
  fix k t
  assume run: "worker_run k s t"
  note drains = pool.drains [OF inv ready run]
  from pool.steps_keep [OF run inv] have t: "sys_inv t" "worker_frame t = worker_frame s" by simp_all
  then have frame: "accepted t = accepted s" "cleared t = cleared s" by (simp_all add: worker_frame_def)
  show "k \<le> load s" by (rule drains(1))
  show "\<exists>i u. wq_step t (Act_worker i) u" if "k < load s"
    using drains(2) [OF that] by (metis is_worker.elims(2))
  assume "k = load s"
  from drains(3) [OF this] have z: "load t = 0" "all_idle t"
    using idle_iff_no_load [OF t(1)] ready by (simp_all add: t(2) pool_ready_frame [of t, symmetric])
  then show "all_idle t" "wq_contents (queue t) = []" by (simp_all add: load_def del: wq_contents_length)
  with t(1) frame idle_running_works [OF z(2)]
  show "mset (accepted s) = mset (finished t) + mset (cleared s)"
    by (simp add: sys_inv_def inv_flow_def)
qed

section \<open>Destruction without waiters\<close>

text \<open>With no client in \<open>wait_all_work_done\<close> the queue is never blocked, and once destroyed no
  worker sleeps.\<close>

definition inv_stop :: "wq_sys \<Rightarrow> bool" where
  "inv_stop s = (apcs s = [] \<longrightarrow> \<not> queue_is_blocked (queue s) \<and>
     (destroyed s \<longrightarrow> (\<forall>i < length (wpcs s). wpcs s ! i \<noteq> Asleep)))"

lemma cnt_1_wake_one:
  assumes "cnt in_wait xs = 1" and "i < length xs" and "wake_one w_asleep w_wake n xs ! i = Asleep"
  shows False
proof -
  from assms(3) have a: "xs ! i = Asleep"
    using nth_wake_one [OF assms(2), of w_asleep w_wake n] by auto
  from wake_one_cases [of xs w_asleep w_wake n] show False
  proof
    assume "\<exists>j < length xs. w_asleep (xs ! j) \<and> wake_one w_asleep w_wake n xs = xs[j := Woken]"
    then obtain j where j: "j < length xs" "xs ! j = Asleep"
        "wake_one w_asleep w_wake n xs = xs[j := Woken]" by auto
    with assms(2,3) have "i \<noteq> j" by auto
    have "0 < cnt in_wait (xs[j := Exited])"
      using assms(2) a \<open>i \<noteq> j\<close> by (auto simp: cnt_pos_ex intro!: exI [of _ i])
    moreover have "cnt in_wait (xs[j := Exited]) + 1 = cnt in_wait xs"
      using cnt_update [OF j(1), of in_wait Exited] j(2) by simp
    ultimately show False using assms(1) by simp
  next
    assume "(\<forall>j < length xs. \<not> w_asleep (xs ! j)) \<and> wake_one w_asleep w_wake n xs = xs"
    with a assms(2) show False by auto
  qed
qed

lemma destroy_wakes_all:
  assumes inv: "inv_struct s" "inv_count s" and i: "i < length (wpcs s)"
  shows "wpcs (do_destroy n s) ! i \<noteq> Asleep"
proof -
  note lens = inv_struct_lengths [OF inv(1)]
  have small: "cnt in_wait (wpcs s) < 2 ^ 32" using lens(1) cnt_le [of in_wait "wpcs s"] by simp
  then have u: "unat (nr_sleeping_workers (queue s)) = cnt in_wait (wpcs s)"
    using inv(2) by (simp add: inv_count_def unat_of_nat)
  note e = do_destroy_effect(9) [OF inv(1), of n]
  consider "cnt in_wait (wpcs s) = 0" "nr_sleeping_workers (queue s) = 0"
    | "cnt in_wait (wpcs s) = 1" "nr_sleeping_workers (queue s) = 1"
    | "nr_sleeping_workers (queue s) \<noteq> 0" "nr_sleeping_workers (queue s) \<noteq> 1"
    using u by (metis unsigned_0 unsigned_1)
  then show ?thesis
  proof cases
    case 1
    then have "\<not> in_wait (wpcs s ! i)" using i by (simp add: cnt_0_iff)
    with e 1 show ?thesis by auto
  next
    case 2
    with e cnt_1_wake_one [OF 2(1) i, of n] show ?thesis by auto
  next
    case 3
    with e i show ?thesis by (auto simp: nth_wake_all)
  qed
qed

lemma do_queuer_stop:
  assumes inv: "inv_struct s" and wq: "wq = (queue s)\<lparr>nr_sleeping_queuers := x\<rparr>"
  shows "queue_is_blocked (queue (do_queuer n tc j w wq s)) = queue_is_blocked (queue s)"
    and "destroyed s \<Longrightarrow> wpcs (do_queuer n tc j w wq s) = wpcs s"
    and "destroyed (do_queuer n tc j w wq s) = destroyed s"
    and "length (apcs (do_queuer n tc j w wq s)) = length (apcs s)"
proof -
  obtain ro q ev where p: "queue_work_pass tc w wq = (ro, q, ev)" by (metis prod_cases3)
  have "wq_ok wq" using inv by (simp add: inv_struct_def wq)
  note cases = queue_work_pass_cases [OF this p]
  have "queue_is_blocked q = queue_is_blocked (queue s)"
    using cases
  proof (elim disjE conjE exE)
    fix r
    assume "arm_worker tc (wq_push w wq) = (r, q, ev)"
    then have "queue_is_blocked q = queue_is_blocked (wq_push w wq)"
      by (subst arm_worker_frame(1)) simp_all
    then show ?thesis by (simp add: wq_push_def wq)
  qed (simp_all add: wq)
  then show "queue_is_blocked (queue (do_queuer n tc j w wq s)) = queue_is_blocked (queue s)"
    by (simp add: do_queuer_def Let_def p)
  have "wpcs (do_queuer n tc j w wq s) = wpcs (apply_events n ev (s\<lparr>queue := q\<rparr>))"
    by (simp add: do_queuer_def Let_def p)
  moreover have "ev = []" if "destroyed s" using cases that inv by (simp add: wq inv_struct_def)
  ultimately show "destroyed s \<Longrightarrow> wpcs (do_queuer n tc j w wq s) = wpcs s" by simp
  show "destroyed (do_queuer n tc j w wq s) = destroyed s"
    "length (apcs (do_queuer n tc j w wq s)) = length (apcs s)"
    by (simp_all add: do_queuer_def Let_def p)
qed

lemma inv_stop_keep:
  assumes "inv_stop s" and "queue_is_blocked (queue t) = queue_is_blocked (queue s)"
    and "destroyed s \<Longrightarrow> wpcs t = wpcs s" and "destroyed t = destroyed s"
    and "length (apcs t) = length (apcs s)"
  shows "inv_stop t"
proof -
  have "apcs t = [] \<longleftrightarrow> apcs s = []" using assms(5) by (metis length_0_conv)
  with assms show ?thesis by (auto simp: inv_stop_def)
qed

lemma wq_step_stop:
  assumes st: "wq_step s a t" and inv: "sys_inv s" and stop: "inv_stop s"
  shows "inv_stop t"
proof -
  from inv have str: "inv_struct s" "inv_count s" by (simp_all add: sys_inv_def)
  from st show ?thesis
  proof cases
    case (worker i n)
    with st have "wq_step s (Act_worker i) t" by simp
    from worker_step_load(5-8) [OF inv this] stop show ?thesis
      by (auto simp: inv_stop_def nth_list_update_at split: if_splits)
  next
    case (queuer_call j n tc w)
    have "queue s = (queue s)\<lparr>nr_sleeping_queuers := nr_sleeping_queuers (queue s)\<rparr>" by simp
    note keep = do_queuer_stop [OF str(1) this]
    show ?thesis unfolding queuer_call(2) by (rule inv_stop_keep [OF stop keep])
  next
    case (queuer_woken j w n tc)
    note keep = do_queuer_stop [OF str(1) queue_work_woken_def]
    show ?thesis unfolding queuer_woken(2) by (rule inv_stop_keep [OF stop keep])
  next
    case (destroy n)
    have "length (wpcs t) = length (wpcs s)"
      by (simp add: destroy(2) do_destroy_effect(9) [OF str(1)])
    moreover have "queue_is_blocked (queue t) = queue_is_blocked (queue s)"
      by (simp add: destroy(2) do_destroy_effect(1) [OF str(1)])
    moreover have "apcs t = [] \<longleftrightarrow> apcs s = []"
      using do_destroy_effect(8) [OF str(1), of n] by (simp add: destroy(2) flip: length_0_conv)
    ultimately show ?thesis
      using destroy_wakes_all [OF str, of _ n] stop by (simp add: inv_stop_def destroy(2))
  qed (use stop in \<open>auto simp: inv_stop_def do_waiter_def nth_list_update_at split: if_splits\<close>)
qed

lemma init_stop: "wq_init s \<Longrightarrow> inv_stop s"
  by (auto simp: wq_init_def inv_stop_def init_sys_def fresh_wq_def elim!: alloc_workqueue_success)

interpretation wq_stop: invariant_system wq_init wq_step "\<lambda>s. sys_inv s \<and> inv_stop s"
  by unfold_locales (auto intro: wq_safe.inv_base wq_step_inv init_stop wq_step_stop)

text \<open>
  C12: in a process in which no thread ever calls \<open>wait_all_work_done\<close> (\<open>apcs s = []\<close>: the program has no such call), destruction
  completes. Once \<open>destroy_workqueue\<close> has left the lock, the workers take exactly one step each, in any order, and then every thread has
  returned from \<open>worker_func\<close>: all the joins of \<open>join_all_workers\<close> return.
\<close>

theorem destroy_completes:
  assumes "reachable s" and "destroyed s" and "apcs s = []"
  shows "load s = cnt runnable (wpcs s) \<and> (\<exists>t. worker_run (load s) s t) \<and>
    (\<forall>t. worker_run (load s) s t \<longrightarrow> list_all (\<lambda>pc. pc = Exited \<or> pc = Not_created) (wpcs t))"
proof (intro conjI allI impI)
  have inv: "sys_inv s" "inv_stop s" using wq_stop.reach_inv [OF assms(1)] by simp_all
  have ready: "pool_ready (worker_frame s)" using assms(2) by (simp add: pool_ready_frame)
  show "load s = cnt runnable (wpcs s)"
    using inv(1) assms(2) by (simp add: load_def sys_inv_def inv_flow_def del: wq_contents_length)
  show "\<exists>t. worker_run (load s) s t" by (rule pool.steps_exist [OF inv(1) ready]) simp
  fix t
  assume run: "worker_run (load s) s t"
  from pool.steps_keep [OF run inv(1)] assms(2,3) have t: "sys_inv t" "load t = 0" "destroyed t" "apcs t = []"
    by (auto simp: worker_frame_def)
  with idle_iff_no_load [OF t(1)] have "all_idle t" by simp
  moreover have "\<forall>i < length (wpcs t). wpcs t ! i \<noteq> Asleep"
    using wq_stop.steps_inv [OF run] inv t(3,4) by (simp add: inv_stop_def)
  moreover have "\<not> runnable pc \<Longrightarrow> pc \<noteq> Asleep \<Longrightarrow> pc = Exited \<or> pc = Not_created" for pc
    by (cases pc) simp_all
  ultimately show "list_all (\<lambda>pc. pc = Exited \<or> pc = Not_created) (wpcs t)"
    by (auto simp: all_idle_def list_all_length)
qed

section \<open>Running schedules\<close>

text \<open>A schedule is a list of choices of who moves next; \<open>exec_cmds\<close> runs one.\<close>

datatype cmd =
    C_worker nat
  | C_queue nat work_struct
  | C_requeue nat
  | C_wait nat
  | C_rewait nat
  | C_destroy

fun exec_cmd :: "cmd \<Rightarrow> wq_sys \<Rightarrow> wq_sys option" where
  "exec_cmd (C_worker i) s =
     (if i < length (wpcs s) \<and> runnable (wpcs s ! i) then Some (do_worker 0 i s) else None)"
| "exec_cmd (C_queue j w) s =
     (if j < length (qpcs s) \<and> qpcs s ! j = Q_idle
      then Some (do_queuer 0 (\<lambda>_. 0) j w (queue s) s) else None)"
| "exec_cmd (C_requeue j) s =
     (if j < length (qpcs s)
      then case qpcs s ! j of
             Q_woken w \<Rightarrow> Some (do_queuer 0 (\<lambda>_. 0) j w (queue_work_woken (queue s)) s)
           | _ \<Rightarrow> None
      else None)"
| "exec_cmd (C_wait k) s =
     (if k < length (apcs s) \<and> apcs s ! k = A_idle
      then Some (do_waiter k (wait_all_work_done (queue s)) s) else None)"
| "exec_cmd (C_rewait k) s =
     (if k < length (apcs s) \<and> apcs s ! k = A_woken
      then Some (do_waiter k (wait_all_woken (queue s)) s) else None)"
| "exec_cmd C_destroy s = (if destroyed s then None else Some (do_destroy 0 s))"

fun exec_cmds :: "cmd list \<Rightarrow> wq_sys \<Rightarrow> wq_sys option" where
  "exec_cmds [] s = Some s"
| "exec_cmds (c # cs) s = (case exec_cmd c s of None \<Rightarrow> None | Some t \<Rightarrow> exec_cmds cs t)"

lemma exec_cmd_step: "exec_cmd c s = Some t \<Longrightarrow> \<exists>a. wq_step s a t"
  by (cases c) (auto intro: wq_step.intros split: if_splits queuer_pc.splits)

lemma exec_cmds_reachable: "exec_cmds cs s = Some t \<Longrightarrow> reachable s \<Longrightarrow> reachable t"
proof (induction cs arbitrary: s)
  case (Cons c cs)
  then obtain u where u: "exec_cmd c s = Some u" "exec_cmds cs u = Some t"
    by (auto split: option.splits)
  from exec_cmd_step [OF u(1)] Cons.prems(2) have "reachable u" by (auto intro: reach_next)
  with Cons.IH [OF u(2)] show ?case .
qed simp

lemma sample_alloc: "\<exists>tr. alloc_workqueue sample_env sample_attr = Some (0, Some sample_wq, [], tr)"
  by (simp add: alloc_workqueue_def sample_attr_def sample_env_def sample_wq_def
      validate_and_adjust_workqueue_attr_def round_up_pow2.simps WQ_F_ALL_def
      WQ_F_LAZY_THREAD_CREATION_def alloc_workers_def nr_thread_to_create_def fresh_wq_def)

lemma sample_reachable:
  assumes "exec_cmds cs (init_sys sample_wq nq na) = Some t" and "nq < 2 ^ 32"
  shows "reachable t"
proof -
  from sample_alloc obtain tr
    where "alloc_workqueue sample_env sample_attr = Some (0, Some sample_wq, [], tr)" ..
  from exec_cmds_reachable [OF assms(1) reach_alloc [OF this assms(2)]] show ?thesis .
qed

section \<open>Two lost wake-ups\<close>

lemma apply_events_no_queuer:
  "\<forall>e \<in> set es. e \<noteq> Signal Queue_work_cond \<and> e \<noteq> Broadcast Queue_work_cond \<Longrightarrow>
   qpcs (apply_events n es s) = qpcs s"
proof (induction es arbitrary: s)
  case (Cons e es)
  then have "qpcs (apply_event n e s) = qpcs s"
    by (cases "(n, e, s)" rule: apply_event.cases) simp_all
  with Cons show ?case by simp
qed simp

lemma arm_worker_events:
  assumes "arm_worker tc wq = (r, q, ev)"
  shows "\<forall>e \<in> set ev. worker_event e"
  using assms
  by (auto simp: arm_worker_def arm_spawn_worker_def worker_event_def split: if_splits option.splits)

lemma queue_work_pass_events:
  assumes "wq_ok wq" and "queue_work_pass tc w wq = (ro, q, ev)"
  shows "\<forall>e \<in> set ev. worker_event e" and "should_stop wq \<Longrightarrow> ev = []"
  using queue_work_pass_cases [OF assms] arm_worker_events by (auto 4 4)

lemma do_queuer_qpcs:
  assumes "wq_ok wq" and "j \<noteq> m"
  shows "qpcs (do_queuer n tc m w wq s) ! j = qpcs s ! j"
proof -
  obtain ro q ev where p: "queue_work_pass tc w wq = (ro, q, ev)" by (metis prod_cases3)
  from queue_work_pass_events(1) [OF assms(1) p]
  have "\<forall>e \<in> set ev. e \<noteq> Signal Queue_work_cond \<and> e \<noteq> Broadcast Queue_work_cond"
    by (auto simp: worker_event_def)
  from apply_events_no_queuer [OF this, of n "s\<lparr>queue := q\<rparr>"] assms(2) show ?thesis
    by (simp add: do_queuer_def Let_def p)
qed

text \<open>
  C27: with one worker thread (\<open>max_threads = 1\<close>) a caller asleep in \<open>queue_work\<close> is never woken:
  no step of any thread but a spurious wake-up moves it, because \<open>wake_up_all_queue_work_callers\<close>
  gives up when no other worker is running a work. The witness is a reachable state in which the
  caller sleeps although the queue is empty and the worker idle.
\<close>

theorem single_worker_queuer_stuck:
  assumes "reachable s" and "max_threads (attr (queue s)) = 1"
    and "j < length (qpcs s)" and "qpcs s ! j = Q_asleep w"
    and "wq_step s a t" and "a \<noteq> Act_spurious"
  shows "qpcs t ! j = Q_asleep w"
proof -
  note inv = reachable_invD [OF assms(1)]
  from assms(5) show ?thesis
  proof cases
    case (worker i n)
    have len: "length (wpcs s) = 1" using inv_struct_lengths(3) [OF inv(1)] assms(2) by simp
    with worker have i: "i = 0" by simp
    show ?thesis
    proof (rule do_worker_effect [OF inv(1) worker(3,4), of n])
      fix turn q ev
      assume sec: "worker_section (wpcs s ! i) (queue s) = (turn, q, ev)"
        and e: "qpcs (do_worker n i s) = qpcs (apply_events n ev (s\<lparr>queue := q\<rparr>))"
      have "nr_running_workers (queue s) = of_bool (is_running (wpcs s ! 0))"
        using inv(2) len by (cases "wpcs s") (auto simp: inv_count_def)
      then have "queuer_events (wpcs s ! i) (queue s) = []"
        using worker_adjust_counters(2) [OF worker(4), of "queue s"]
        by (simp add: queuer_events_def wake_up_all_queue_work_callers_def i)
      with worker_section_summary(14) [OF inv(6) worker(4) sec]
      have "\<forall>e \<in> set ev. e \<noteq> Signal Queue_work_cond \<and> e \<noteq> Broadcast Queue_work_cond" by simp
      from apply_events_no_queuer [OF this] assms(4) show ?thesis by (simp add: worker(2) e)
    qed
  next
    case (queuer_call m n tc v)
    then have "j \<noteq> m" using assms(4) by auto
    from do_queuer_qpcs [OF inv(6) this, of n tc v s] assms(4) show ?thesis
      by (simp add: queuer_call(2))
  next
    case (queuer_woken m v n tc)
    then have "j \<noteq> m" using assms(4) by auto
    have "wq_ok (queue_work_woken (queue s))" using inv(6) by (simp add: queue_work_woken_def)
    from do_queuer_qpcs [OF this \<open>j \<noteq> m\<close>, of n tc v s] assms(4) show ?thesis
      by (simp add: queuer_woken(2))
  next
    case (destroy n)
    with do_destroy_effect(4) [OF inv(1), of n] assms(4) show ?thesis by simp
  qed (use assms(4,6) in \<open>simp_all add: do_waiter_def\<close>)
qed

definition sample_work :: "nat \<Rightarrow> work_struct" where
  "sample_work n = \<lparr>func = n, arg = n, deleter = NULL\<rparr>"

definition stuck_queuer_schedule :: "cmd list" where
  "stuck_queuer_schedule = [C_queue 0 (sample_work 1), C_queue 0 (sample_work 2),
     C_queue 0 (sample_work 3), C_worker 0, C_worker 0, C_worker 0]"

theorem single_worker_queuer_stuck_witness:
  "\<exists>s. reachable s \<and> wpcs s = [Asleep] \<and> wq_contents (queue s) = [] \<and>
     qpcs s = [Q_asleep (sample_work 3), Q_idle] \<and>
     (\<forall>a t. wq_step s a t \<and> a \<noteq> Act_spurious \<longrightarrow> qpcs t ! 0 = Q_asleep (sample_work 3))"
proof -
  have "map_option (\<lambda>t. (wpcs t, qpcs t, wq_contents (queue t), max_threads (attr (queue t))))
      (exec_cmds stuck_queuer_schedule (init_sys sample_wq 2 0)) =
      Some ([Asleep], [Q_asleep (sample_work 3), Q_idle], [], 1)"
    by code_simp
  then obtain s where s: "exec_cmds stuck_queuer_schedule (init_sys sample_wq 2 0) = Some s"
      "wpcs s = [Asleep]" "qpcs s = [Q_asleep (sample_work 3), Q_idle]"
      "wq_contents (queue s) = []" "max_threads (attr (queue s)) = 1"
    by auto
  have r: "reachable s" by (rule sample_reachable [OF s(1)]) simp
  have "qpcs t ! 0 = Q_asleep (sample_work 3)" if "wq_step s a t" "a \<noteq> Act_spurious" for a t
    by (rule single_worker_queuer_stuck [OF r s(5) _ _ that]) (simp_all add: s(3))
  with r s(2-4) show ?thesis by blast
qed

text \<open>
  C28: a worker asleep in a queue that is being destroyed is never woken again by anyone, so that the
  join of \<open>destroy_workqueue\<close> does not return. The witness reaches such a state:
  \<open>wait_all_work_done\<close> has blocked the queue, \<open>destroy_workqueue\<close> finds the worker running and
  sends it no signal, and the worker, finding the queue blocked, goes to sleep.
\<close>

theorem destroyed_sleeper_stuck:
  assumes "reachable s" and "destroyed s" and "i < length (wpcs s)" and "wpcs s ! i = Asleep"
    and "wq_step s a t" and "a \<noteq> Act_spurious"
  shows "wpcs t ! i = Asleep \<and> destroyed t"
proof -
  note inv = reachable_invD [OF assms(1)]
  have stop: "should_stop (queue s)" using inv(1) assms(2) by (simp add: inv_struct_def)
  from assms(5) show ?thesis
  proof cases
    case (worker m n)
    then have "m \<noteq> i" using assms(4) by auto
    have "wq_step s (Act_worker m) t" using assms(5) worker(1) by simp
    from worker_step_load(5,8) [OF reachable_inv [OF assms(1)] this] \<open>m \<noteq> i\<close> assms(2,4)
    show ?thesis by auto
  next
    case (queuer_call m n tc v)
    have "queue s = (queue s)\<lparr>nr_sleeping_queuers := nr_sleeping_queuers (queue s)\<rparr>" by simp
    from do_queuer_stop(2,3) [OF inv(1) this] assms(2,4) show ?thesis by (simp add: queuer_call(2))
  next
    case (queuer_woken m v n tc)
    from do_queuer_stop(2,3) [OF inv(1) queue_work_woken_def] assms(2,4) show ?thesis
      by (simp add: queuer_woken(2))
  qed (use assms(2,4,6) in \<open>simp_all add: do_waiter_def\<close>)
qed

definition stuck_join_schedule :: "cmd list" where
  "stuck_join_schedule = [C_queue 0 (sample_work 1), C_worker 0, C_wait 0, C_destroy, C_worker 0]"

theorem destroyed_sleeper_stuck_witness:
  "\<exists>s. reachable s \<and> destroyed s \<and> wpcs s = [Asleep] \<and> apcs s = [A_woken] \<and>
     (\<forall>a t. wq_step s a t \<and> a \<noteq> Act_spurious \<longrightarrow> wpcs t ! 0 = Asleep \<and> destroyed t)"
proof -
  have "map_option (\<lambda>t. (wpcs t, apcs t, destroyed t))
      (exec_cmds stuck_join_schedule (init_sys sample_wq 1 1)) = Some ([Asleep], [A_woken], True)"
    by code_simp
  then obtain s where s: "exec_cmds stuck_join_schedule (init_sys sample_wq 1 1) = Some s"
      "wpcs s = [Asleep]" "apcs s = [A_woken]" "destroyed s"
    by auto
  have r: "reachable s" by (rule sample_reachable [OF s(1)]) simp
  have "wpcs t ! 0 = Asleep \<and> destroyed t" if "wq_step s a t" "a \<noteq> Act_spurious" for a t
    by (rule destroyed_sleeper_stuck [OF r s(4) _ _ that]) (simp_all add: s(2))
  with r s(2-4) show ?thesis by blast
qed

section \<open>Sample states\<close>

text \<open>One work running, one pending, one client waiting for both and one about to.\<close>

definition busy_schedule :: "cmd list" where
  "busy_schedule = [C_queue 0 (sample_work 1), C_queue 0 (sample_work 2), C_worker 0, C_wait 0]"

lemma busy_state:
  obtains s where "reachable s" "wpcs s = [Running (sample_work 1)]" "apcs s = [A_asleep, A_idle]"
    "wq_contents (queue s) = [sample_work 2]" "accepted s = [sample_work 1, sample_work 2]"
    "started s = [sample_work 1]" "finished s = []" "\<not> destroyed s"
    "all_marked_have_threads (queue s)" "length (qpcs s) = 1"
proof -
  have "map_option (\<lambda>t. (wpcs t, apcs t, wq_contents (queue t), accepted t, started t, finished t,
        destroyed t, all_marked_have_threads (queue t), length (qpcs t)))
      (exec_cmds busy_schedule (init_sys sample_wq 1 2)) =
      Some ([Running (sample_work 1)], [A_asleep, A_idle], [sample_work 2],
        [sample_work 1, sample_work 2], [sample_work 1], [], False, True, 1)"
    by code_simp
  then obtain s where s: "exec_cmds busy_schedule (init_sys sample_wq 1 2) = Some s"
      "wpcs s = [Running (sample_work 1)]" "apcs s = [A_asleep, A_idle]"
      "wq_contents (queue s) = [sample_work 2]" "accepted s = [sample_work 1, sample_work 2]"
      "started s = [sample_work 1]" "finished s = []" "\<not> destroyed s"
      "all_marked_have_threads (queue s)" "length (qpcs s) = 1"
    by auto
  have "reachable s" by (rule sample_reachable [OF s(1)]) simp
  from that [OF this s(2-)] show ?thesis .
qed

theorem work_conserved_witness:
  "\<exists>s. reachable s \<and> accepted s = [sample_work 1, sample_work 2] \<and>
     started s @ cleared s @ wq_contents (queue s) = [sample_work 1, sample_work 2]"
proof -
  obtain s where "reachable s" "accepted s = [sample_work 1, sample_work 2]" by (rule busy_state)
  with work_conserved [of s] show ?thesis by metis
qed

theorem counters_exact_witness:
  "\<exists>s. reachable s \<and> unat (nr_running_workers (queue s)) = 1 \<and>
     unat (nr_sleeping_workers (queue s)) = 0"
proof -
  obtain s where "reachable s" "wpcs s = [Running (sample_work 1)]" by (rule busy_state)
  with counters_exact [of s] show ?thesis by (intro exI [of _ s]) simp
qed

theorem wait_all_returns_iff_witness:
  "\<exists>s t. reachable s \<and> wq_step s (Act_waiter 1) t \<and> apcs t ! 1 = A_asleep"
proof -
  obtain s where s: "reachable s" "apcs s = [A_asleep, A_idle]" "finished s = []"
      "accepted s = [sample_work 1, sample_work 2]" "\<not> destroyed s"
    by (rule busy_state)
  have st: "wq_step s (Act_waiter 1) (do_waiter 1 (wait_all_work_done (queue s)) s)"
    by (rule waiter_call) (simp_all add: s(2))
  from wait_all_returns_iff [OF s(1) st] s st show ?thesis by auto
qed

theorem wait_all_not_forgotten_witness:
  "\<exists>s. reachable s \<and> apcs s ! 0 = A_asleep \<and> wait_all_is_waiting (queue s)"
proof -
  obtain s where "reachable s" "apcs s = [A_asleep, A_idle]" by (rule busy_state)
  with wait_all_not_forgotten [of s 0] show ?thesis by (intro exI [of _ s]) simp
qed

theorem workers_drain_witness:
  "\<exists>s t. reachable s \<and> worker_run 2 s t \<and> mset (finished t) = {#sample_work 1, sample_work 2#}"
proof -
  obtain s where s: "reachable s" "wpcs s = [Running (sample_work 1)]"
      "wq_contents (queue s) = [sample_work 2]" "accepted s = [sample_work 1, sample_work 2]"
      "\<not> destroyed s" "all_marked_have_threads (queue s)"
    by (rule busy_state)
  have l: "load s = 2" by (simp add: load_def s(2,3) del: wq_contents_length)
  from workers_drain [OF s(1,6)] obtain t where t: "worker_run 2 s t"
      "mset (accepted s) = mset (finished t) + mset (cleared s)"
    unfolding l by metis
  have "cleared s = []" using reachable_invD(3) [OF s(1)] s(5) by (simp add: inv_flow_def)
  with s(1,4) t show ?thesis by (intro exI [of _ s] exI [of _ t]) (simp add: add_mset_commute)
qed

definition destroy_schedule :: "cmd list" where
  "destroy_schedule = [C_queue 0 (sample_work 1), C_queue 0 (sample_work 2), C_worker 0, C_destroy]"

theorem destroy_completes_witness:
  "\<exists>s t. reachable s \<and> wpcs s = [Running (sample_work 1)] \<and> cleared s = [sample_work 2] \<and>
     worker_run 1 s t \<and> list_all (\<lambda>pc. pc = Exited \<or> pc = Not_created) (wpcs t)"
proof -
  have "map_option (\<lambda>t. (wpcs t, apcs t, cleared t, destroyed t))
      (exec_cmds destroy_schedule (init_sys sample_wq 1 0)) =
      Some ([Running (sample_work 1)], [], [sample_work 2], True)"
    by code_simp
  then obtain s where s: "exec_cmds destroy_schedule (init_sys sample_wq 1 0) = Some s"
      "wpcs s = [Running (sample_work 1)]" "apcs s = []" "cleared s = [sample_work 2]" "destroyed s"
    by auto
  have r: "reachable s" by (rule sample_reachable [OF s(1)]) simp
  from destroy_completes [OF r s(5,3)] have "load s = 1" by (simp add: s(2))
  with destroy_completes [OF r s(5,3)] r s(2,4) show ?thesis by metis
qed

end
