(* ===== verification/Ring.thy ===== *)
theory Ring
  imports Workqueue
begin

text \<open>
  core/ring.c and include/gw/ring.h: the submission queue, the completion queue, and the work the
  ring punts to its work queue.

  As in theory Workqueue, what the code does between taking a lock and giving it up is one function
  here. \<open>gw_ring_submit\<close> keeps \<open>sq_lock\<close> while it submits, but \<open>queue_work\<close> may put it to
  sleep meanwhile; what the other threads then do to the ring is a list of functions.
\<close>

section \<open>Data\<close>

definition GW_RING_OP_NOP :: u8 where "GW_RING_OP_NOP = 0"
definition GW_RING_OP_TG_API_CALL :: u8 where "GW_RING_OP_TG_API_CALL = 1"
definition GW_RING_OP_MODULE_HANDLE :: u8 where "GW_RING_OP_MODULE_HANDLE = 2"
definition TG_API_GET_UPDATES :: u8 where "TG_API_GET_UPDATES = 0"

lemmas ring_op_defs = GW_RING_OP_NOP_def GW_RING_OP_TG_API_CALL_def GW_RING_OP_MODULE_HANDLE_def

record tg_api_call =
  call_op :: u8
  call_ctx :: ptr
  updates_p :: ptr
  call_offset :: i64

record tg_module_handle =
  handle_ctx :: ptr
  handle_update :: ptr

text \<open>The union of an SQE, with the member last stored in it. Reading the other one is \<open>None\<close>.\<close>

datatype sqe_union =
    U_zero
  | U_tg_api_call tg_api_call
  | U_tg_module_handle tg_module_handle

record gw_ring_sqe =
  sqe_op :: u8
  sqe_user_data :: u64
  sqe_union :: sqe_union

record gw_ring_cqe =
  cqe_op :: u8
  cqe_res :: i64
  cqe_flags :: u32
  cqe_user_data :: u64

definition zero_sqe :: gw_ring_sqe where
  "zero_sqe = \<lparr>sqe_op = 0, sqe_user_data = 0, sqe_union = U_zero\<rparr>"

definition zero_cqe :: gw_ring_cqe where
  "zero_cqe = \<lparr>cqe_op = 0, cqe_res = 0, cqe_flags = 0, cqe_user_data = 0\<rparr>"

record gw_ring =
  ring_should_stop :: bool
  wait_cqe_cond_flag :: bool
  sq_head :: u32
  sq_tail :: u32
  sq_mask :: u32
  cq_head :: u32
  cq_tail :: u32
  cq_mask :: u32
  cqes :: "gw_ring_cqe list"
  sqes :: "gw_ring_sqe list"
  ring_wq :: workqueue_struct

text \<open>The only event of a ring section: the broadcast on \<open>wait_cqe_cond\<close>.\<close>

datatype ring_event = Wake_wait_cqe

fun sqe_api_call :: "gw_ring_sqe \<Rightarrow> tg_api_call option" where
  "sqe_api_call sqe = (case sqe_union sqe of U_tg_api_call c \<Rightarrow> Some c | _ \<Rightarrow> None)"

fun sqe_module_handle :: "gw_ring_sqe \<Rightarrow> tg_module_handle option" where
  "sqe_module_handle sqe = (case sqe_union sqe of U_tg_module_handle h \<Rightarrow> Some h | _ \<Rightarrow> None)"

section \<open>Preparing an SQE\<close>

text \<open>Neither function sets \<open>user_data\<close>, which keeps what the slot held before.\<close>

definition gw_ring_prep_tg_get_updates :: "ptr \<Rightarrow> ptr \<Rightarrow> i64 \<Rightarrow> gw_ring_sqe \<Rightarrow> gw_ring_sqe" where
  "gw_ring_prep_tg_get_updates ctx up offset sqe =
     sqe\<lparr>sqe_op := GW_RING_OP_TG_API_CALL,
         sqe_union := U_tg_api_call \<lparr>call_op = TG_API_GET_UPDATES, call_ctx = ctx,
           updates_p = up, call_offset = offset\<rparr>\<rparr>"

definition gw_ring_prep_tg_module_handle :: "ptr \<Rightarrow> ptr \<Rightarrow> gw_ring_sqe \<Rightarrow> gw_ring_sqe" where
  "gw_ring_prep_tg_module_handle ctx update sqe =
     sqe\<lparr>sqe_op := GW_RING_OP_MODULE_HANDLE,
         sqe_union := U_tg_module_handle \<lparr>handle_ctx = ctx, handle_update = update\<rparr>\<rparr>"

section \<open>Setting up and tearing down\<close>

datatype ring_resource =
  R_sqes | R_cqes | R_sq_lock | R_cq_lock | R_wait_cqe_cond | R_wq_part wq_resource

record ring_env =
  env_calloc_sqes :: bool
  env_calloc_cqes :: bool
  env_init_sq_lock :: int
  env_init_cq_lock :: int
  env_init_wait_cqe_cond :: int
  env_wq :: wq_env

definition ring_wq_attr :: workqueue_attr where
  "ring_wq_attr = \<lparr>attr_name = ''gw-ring-wq'', flags = WQ_F_LAZY_THREAD_CREATION,
     max_threads = 1024, min_threads = 32, max_pending_works = 4096\<rparr>"

definition out_free_sqes :: "ring_resource trace_ev list" where
  "out_free_sqes = [Release R_sqes]"

definition out_free_cqes :: "ring_resource trace_ev list" where
  "out_free_cqes = Release R_cqes # out_free_sqes"

definition out_free_sq_lock :: "ring_resource trace_ev list" where
  "out_free_sq_lock = Release R_sq_lock # out_free_cqes"

definition out_free_cq_lock :: "ring_resource trace_ev list" where
  "out_free_cq_lock = Release R_cq_lock # out_free_sq_lock"

definition out_free_wait_cqe_cond :: "ring_resource trace_ev list" where
  "out_free_wait_cqe_cond = Release R_wait_cqe_cond # out_free_cq_lock"

lemmas out_label_defs = out_free_sqes_def out_free_cqes_def out_free_sq_lock_def
  out_free_cq_lock_def out_free_wait_cqe_cond_def

definition fresh_ring :: "u32 \<Rightarrow> u32 \<Rightarrow> workqueue_struct \<Rightarrow> gw_ring" where
  "fresh_ring sm cm q =
     \<lparr>ring_should_stop = False, wait_cqe_cond_flag = False,
      sq_head = 0, sq_tail = 0, sq_mask = sm, cq_head = 0, cq_tail = 0, cq_mask = cm,
      cqes = replicate (unat (cm + 1)) zero_cqe, sqes = replicate (unat (sm + 1)) zero_sqe,
      ring_wq = q\<rparr>"

text \<open>
  \<open>None\<close>: the rounding loop never ends. The ring comes back only with result 0; a failed
  initialisation leaves dangling pointers in the caller's record.
\<close>

definition gw_ring_init ::
    "ring_env \<Rightarrow> u32 \<Rightarrow> (int \<times> gw_ring option \<times> ring_resource trace_ev list) option" where
  "gw_ring_init env sz =
     (case round_up_pow2 2 sz of
        None \<Rightarrow> None
      | Some mx \<Rightarrow>
          let sm = mx - 1;
              cm = mx * 2 - 1;
              t1 = [Acquire R_sqes];
              t2 = t1 @ [Acquire R_cqes];
              r1 = env_init_sq_lock env;
              t3 = t2 @ [Acquire R_sq_lock];
              r2 = env_init_cq_lock env;
              t4 = t3 @ [Acquire R_cq_lock];
              r3 = env_init_wait_cqe_cond env;
              t5 = t4 @ [Acquire R_wait_cqe_cond]
          in if \<not> env_calloc_sqes env then Some (- ENOMEM, None, [])
             else if \<not> env_calloc_cqes env then Some (- ENOMEM, None, t1 @ out_free_sqes)
             else if r1 \<noteq> 0 then Some (r1, None, t2 @ out_free_cqes)
             else if r2 \<noteq> 0 then Some (r2, None, t3 @ out_free_sq_lock)
             else if r3 \<noteq> 0 then Some (r3, None, t4 @ out_free_cq_lock)
             else
               (case alloc_workqueue (env_wq env) ring_wq_attr of
                  None \<Rightarrow> None
                | Some (r4, wqo, ev, tr) \<Rightarrow>
                    let t6 = t5 @ map (map_trace_ev R_wq_part) tr
                    in if r4 \<noteq> 0 then Some (r4, None, t6 @ out_free_wait_cqe_cond)
                       else Some (0, map_option (fresh_ring sm cm) wqo, t6)))"

text \<open>The section of \<open>gw_ring_destroy\<close> under both locks, and what it releases afterwards.\<close>

definition gw_ring_destroy_locked :: "gw_ring \<Rightarrow> gw_ring \<times> ring_event list" where
  "gw_ring_destroy_locked ring =
     (let ring1 = ring\<lparr>ring_should_stop := True\<rparr>
      in (ring1, if wait_cqe_cond_flag ring1 then [Wake_wait_cqe] else []))"

definition gw_ring_destroy_release :: "gw_ring \<Rightarrow> ring_resource trace_ev list" where
  "gw_ring_destroy_release ring =
     map (map_trace_ev R_wq_part) (destroy_workqueue_release (ring_wq ring)) @
     [Release R_cq_lock, Release R_sq_lock, Release R_wait_cqe_cond, Release R_cqes,
      Release R_sqes]"

section \<open>The completion queue\<close>

text \<open>The stores of \<open>post_cqe\<close> into the slot at the tail, and the tail's advance.\<close>

definition cq_push :: "gw_ring_cqe \<Rightarrow> gw_ring \<Rightarrow> gw_ring" where
  "cq_push cqe ring =
     ring\<lparr>cqes := (cqes ring)[slot (cq_tail ring) (cq_mask ring) := cqe],
          cq_tail := cq_tail ring + 1\<rparr>"

definition wake_up_wait_cqe_callers :: "gw_ring \<Rightarrow> ring_event list" where
  "wake_up_wait_cqe_callers ring = (if wait_cqe_cond_flag ring then [Wake_wait_cqe] else [])"

definition cqe_of :: "gw_ring_sqe \<Rightarrow> i64 \<Rightarrow> gw_ring_cqe" where
  "cqe_of sqe res =
     \<lparr>cqe_op = sqe_op sqe, cqe_res = res, cqe_flags = 0, cqe_user_data = sqe_user_data sqe\<rparr>"

definition post_cqe :: "gw_ring_sqe \<Rightarrow> i64 \<Rightarrow> gw_ring \<Rightarrow> bool \<times> gw_ring \<times> ring_event list" where
  "post_cqe sqe res ring =
     (if cq_mask ring + 1 \<le> u32_diff (cq_tail ring) (cq_head ring) then (False, ring, [])
      else let ring1 = cq_push (cqe_of sqe res) ring
           in (True, ring1, wake_up_wait_cqe_callers ring1))"

text \<open>\<open>__gw_ring_wait_cqe\<close>: the unsigned distance is returned as an \<open>int\<close>.\<close>

definition gw_ring_wait_cqe_once :: "gw_ring \<Rightarrow> int \<times> nat option" where
  "gw_ring_wait_cqe_once ring =
     (if cq_tail ring = cq_head ring then (- EAGAIN, None)
      else (sint (u32_diff (cq_tail ring) (cq_head ring)),
            Some (slot (cq_head ring) (cq_mask ring))))"

text \<open>One pass of the loop of \<open>gw_ring_wait_cqe\<close>: it breaks with a value and the slot stored
  in \<open>*cqe_p\<close>, if any, or sleeps (\<open>None\<close>).\<close>

definition wait_cqe_pass :: "gw_ring \<Rightarrow> (int \<times> nat option) option \<times> gw_ring" where
  "wait_cqe_pass ring =
     (if ring_should_stop ring then (Some (- EOWNERDEAD, None), ring)
      else let r = gw_ring_wait_cqe_once ring
           in if 0 < fst r then (Some r, ring)
              else (None, ring\<lparr>wait_cqe_cond_flag := True\<rparr>))"

definition wait_cqe_woken :: "gw_ring \<Rightarrow> gw_ring" where
  "wait_cqe_woken ring = ring\<lparr>wait_cqe_cond_flag := False\<rparr>"

text \<open>The whole call; \<open>others\<close> as for \<open>queue_work\<close>.\<close>

fun gw_ring_wait_cqe ::
    "(gw_ring \<Rightarrow> gw_ring) list \<Rightarrow> gw_ring \<Rightarrow> (int \<times> nat option \<times> gw_ring) option" where
  "gw_ring_wait_cqe others ring =
     (case wait_cqe_pass ring of
        (Some (ret, sl), ring1) \<Rightarrow> Some (ret, sl, ring1)
      | (None, ring1) \<Rightarrow>
          (case others of
             [] \<Rightarrow> None
           | other # rest \<Rightarrow> gw_ring_wait_cqe rest (wait_cqe_woken (other ring1))))"

declare gw_ring_wait_cqe.simps [simp del]

text \<open>The consumer's side: \<open>gw_ring_load_head_cqe\<close>, \<open>gw_ring_cq_advance\<close> and the loop of
  \<open>gw_ring_for_each_cqe\<close>, which visits slots without advancing the head of the ring.\<close>

definition gw_ring_load_head_cqe :: "u32 \<Rightarrow> gw_ring \<Rightarrow> gw_ring_cqe option" where
  "gw_ring_load_head_cqe head ring =
     (if head \<noteq> cq_tail ring then Some (cqes ring ! slot head (cq_mask ring)) else None)"

definition gw_ring_cq_advance :: "u32 \<Rightarrow> gw_ring \<Rightarrow> gw_ring" where
  "gw_ring_cq_advance n ring = ring\<lparr>cq_head := cq_head ring + n\<rparr>"

function for_each_cqe_from :: "u32 \<Rightarrow> gw_ring \<Rightarrow> gw_ring_cqe list" where
  "for_each_cqe_from head ring =
     (case gw_ring_load_head_cqe head ring of
        None \<Rightarrow> []
      | Some cqe \<Rightarrow> cqe # for_each_cqe_from (head + 1) ring)"
  by pat_completeness auto
termination
proof (relation "measure (\<lambda>(head, ring). unat (cq_tail ring - head))")
  fix head and ring :: gw_ring and cqe
  assume "gw_ring_load_head_cqe head ring = Some cqe"
  then have "head \<noteq> cq_tail ring" by (simp add: gw_ring_load_head_cqe_def split: if_splits)
  from unat_diff_pop [OF this]
  show "((head + 1, ring), (head, ring)) \<in> measure (\<lambda>(head, ring). unat (cq_tail ring - head))"
    by simp
qed simp

declare for_each_cqe_from.simps [simp del]

definition gw_ring_for_each_cqe :: "gw_ring \<Rightarrow> gw_ring_cqe list" where
  "gw_ring_for_each_cqe ring = for_each_cqe_from (cq_head ring) ring"

section \<open>The submission queue\<close>

text \<open>The slot handed to the caller is returned by its index. It is not cleared.\<close>

definition gw_ring_get_sqe :: "gw_ring \<Rightarrow> nat option \<times> gw_ring" where
  "gw_ring_get_sqe ring =
     (if sq_mask ring + 1 \<le> u32_diff (sq_head ring) (sq_tail ring) then (None, ring)
      else (Some (slot (sq_tail ring) (sq_mask ring)), ring\<lparr>sq_tail := sq_tail ring + 1\<rparr>))"

text \<open>The caller's stores through the pointer.\<close>

definition write_sqe :: "nat \<Rightarrow> (gw_ring_sqe \<Rightarrow> gw_ring_sqe) \<Rightarrow> gw_ring \<Rightarrow> gw_ring" where
  "write_sqe i f ring = ring\<lparr>sqes := (sqes ring)[i := f (sqes ring ! i)]\<rparr>"

section \<open>Issuing and punting\<close>

text \<open>The two functions the ring hands to its work queue, as addresses.\<close>

definition GW_RING_WQ_SQE_EXEC :: ptr where "GW_RING_WQ_SQE_EXEC = 1"
definition GW_RING_WQ_SQE_DELETE :: ptr where "GW_RING_WQ_SQE_DELETE = 2"

text \<open>
  The memory the ring's threads share: the ring, the \<open>wq_sqe_data\<close> blocks (there is one ring, so
  the field \<open>ring\<close> of a block is left out), the updates handed to \<open>tgapi_free_update\<close> and the
  events. The rest is the surroundings: the answers of \<open>malloc\<close> and \<open>thread_create\<close>, and what
  the other threads do during each sleep of \<open>queue_work\<close>.
\<close>

record ring_sys =
  ring :: gw_ring
  datas :: "gw_ring_sqe heap"
  freed_updates :: "ptr list"
  ring_events :: "ring_event list"
  wq_events :: "wq_event list"

record io_env =
  io_mallocs :: allocs
  io_spawn :: "nat \<Rightarrow> int"
  io_others :: "(ring_sys \<Rightarrow> ring_sys) list"

type_synonym io_state = "io_env \<times> ring_sys"

text \<open>The loop of \<open>queue_work\<close> on the ring's work queue, where the sleeps let others change all
  of the shared memory. \<open>None\<close>: the caller is still asleep when the list is used up.\<close>

fun ring_queue_work ::
    "(nat \<Rightarrow> int) \<Rightarrow> (ring_sys \<Rightarrow> ring_sys) list \<Rightarrow> work_struct \<Rightarrow> ring_sys \<Rightarrow>
     (int \<times> (ring_sys \<Rightarrow> ring_sys) list \<times> ring_sys) option" where
  "ring_queue_work tc others work s =
     (case queue_work_pass tc work (ring_wq (ring s)) of
        (ro, q, ev) \<Rightarrow>
          let s1 = s\<lparr>ring := (ring s)\<lparr>ring_wq := q\<rparr>, wq_events := wq_events s @ ev\<rparr>
          in case ro of
               Some ret \<Rightarrow> Some (ret, others, s1)
             | None \<Rightarrow>
                 (case others of
                    [] \<Rightarrow> None
                  | other # rest \<Rightarrow>
                      let s2 = other s1
                      in ring_queue_work tc rest work
                           (s2\<lparr>ring := (ring s2)\<lparr>ring_wq := queue_work_woken (ring_wq (ring s2))\<rparr>\<rparr>)))"

declare ring_queue_work.simps [simp del]

definition punt_to_io_wq :: "gw_ring_sqe \<Rightarrow> io_state \<Rightarrow> (bool \<times> io_state) option" where
  "punt_to_io_wq sqe st =
     (let (env, s) = st;
          (ok, ms) = next_alloc (io_mallocs env);
          env1 = env\<lparr>io_mallocs := ms\<rparr>
      in if \<not> ok then Some (False, (env1, s))
         else
           let data = fresh_ptr (datas s);
               s1 = s\<lparr>datas := (data, sqe) # datas s\<rparr>
           in case ring_queue_work (io_spawn env1) (io_others env1)
                     \<lparr>func = GW_RING_WQ_SQE_EXEC, arg = data, deleter = GW_RING_WQ_SQE_DELETE\<rparr> s1 of
                None \<Rightarrow> None
              | Some (ret, others, s2) \<Rightarrow>
                  let env2 = env1\<lparr>io_others := others\<rparr>
                  in if ret < 0 then Some (False, (env2, s2\<lparr>datas := heap_free data (datas s2)\<rparr>))
                     else Some (True, (env2, s2)))"

definition post_in :: "gw_ring_sqe \<Rightarrow> i64 \<Rightarrow> ring_sys \<Rightarrow> bool \<times> ring_sys" where
  "post_in sqe res s =
     (let (ok, r, ev) = post_cqe sqe res (ring s)
      in (ok, s\<lparr>ring := r, ring_events := ring_events s @ ev\<rparr>))"

definition issue_op_nop :: "gw_ring_sqe \<Rightarrow> ring_sys \<Rightarrow> bool \<times> ring_sys" where
  "issue_op_nop sqe s = post_in sqe 0 s"

definition issue_op_tg_api_call :: "gw_ring_sqe \<Rightarrow> io_state \<Rightarrow> (bool \<times> io_state) option" where
  "issue_op_tg_api_call sqe st = punt_to_io_wq sqe st"

text \<open>\<open>None\<close> also stands for reading the union through a member that was not stored.\<close>

definition free_sqe_update :: "gw_ring_sqe \<Rightarrow> ring_sys \<Rightarrow> ring_sys option" where
  "free_sqe_update sqe s =
     map_option (\<lambda>h. s\<lparr>freed_updates := freed_updates s @ [handle_update h]\<rparr>) (sqe_module_handle sqe)"

definition issue_op_module_handle :: "gw_ring_sqe \<Rightarrow> io_state \<Rightarrow> (bool \<times> io_state) option" where
  "issue_op_module_handle sqe st =
     (case punt_to_io_wq sqe st of
        None \<Rightarrow> None
      | Some (ok, (env, s)) \<Rightarrow>
          if \<not> ok then map_option (\<lambda>s1. (False, (env, s1))) (free_sqe_update sqe s)
          else Some (True, (env, s)))"

definition submit_sqe :: "gw_ring_sqe \<Rightarrow> io_state \<Rightarrow> (bool \<times> io_state) option" where
  "submit_sqe sqe st =
     (if sqe_op sqe = GW_RING_OP_NOP
      then let (ok, s) = issue_op_nop sqe (snd st) in Some (ok, (fst st, s))
      else if sqe_op sqe = GW_RING_OP_TG_API_CALL then issue_op_tg_api_call sqe st
      else if sqe_op sqe = GW_RING_OP_MODULE_HANDLE then issue_op_module_handle sqe st
      else Some (False, st))"

text \<open>The loop of \<open>gw_ring_submit\<close> on its local copies of the indices.\<close>

function submit_loop ::
    "u32 \<Rightarrow> u32 \<Rightarrow> u32 \<Rightarrow> int \<Rightarrow> io_state \<Rightarrow> (int \<times> u32 \<times> io_state) option" where
  "submit_loop msk head tail ret st =
     (if head \<noteq> tail
      then case submit_sqe (sqes (ring (snd st)) ! slot head msk) st of
             None \<Rightarrow> None
           | Some (ok, st1) \<Rightarrow> submit_loop msk (head + 1) tail (if ok then ret + 1 else ret) st1
      else Some (ret, head, st))"
  by pat_completeness auto
termination
proof (relation "measure (\<lambda>(msk, head, tail, ret, st). unat (tail - head))")
  fix msk head tail :: u32
  assume "head \<noteq> tail"
  from unat_diff_pop [OF this]
  show "((msk, head + 1, tail, ret', st'), (msk, head, tail, ret, st)) \<in>
      measure (\<lambda>(msk, head, tail, ret, st). unat (tail - head))"
    for ret ret' :: int and st st' :: io_state by simp
qed simp

declare submit_loop.simps [simp del]

definition gw_ring_submit :: "io_state \<Rightarrow> (int \<times> io_state) option" where
  "gw_ring_submit st =
     (let r = ring (snd st)
      in if ring_should_stop r then Some (- EOWNERDEAD, st)
         else case submit_loop (sq_mask r) (sq_head r) (sq_tail r) 0 st of
                None \<Rightarrow> None
              | Some (ret, head, (env, s)) \<Rightarrow>
                  Some (ret, (env, s\<lparr>ring := (ring s)\<lparr>sq_head := head\<rparr>\<rparr>)))"

section \<open>The worker's side\<close>

text \<open>
  \<open>run\<close> gives the results of \<open>tgapi_call_get_updates\<close> and \<open>gw_module_handle\<close>, which other
  theories model.
\<close>

datatype io_call = Call_get_updates tg_api_call | Call_module_handle tg_module_handle

definition exec_tg_api_call :: "(io_call \<Rightarrow> int) \<Rightarrow> gw_ring_sqe \<Rightarrow> ring_sys \<Rightarrow> (bool \<times> ring_sys) option" where
  "exec_tg_api_call run sqe s =
     map_option (\<lambda>call.
        let res = (if call_op call = TG_API_GET_UPDATES then run (Call_get_updates call)
                   else - EOPNOTSUPP)
        in post_in sqe (word_of_int res) s) (sqe_api_call sqe)"

definition exec_module_handle :: "(io_call \<Rightarrow> int) \<Rightarrow> gw_ring_sqe \<Rightarrow> ring_sys \<Rightarrow> (bool \<times> ring_sys) option" where
  "exec_module_handle run sqe s =
     map_option (\<lambda>h. post_in sqe (word_of_int (run (Call_module_handle h))) s) (sqe_module_handle sqe)"

text \<open>The answers of the posts are ignored. \<open>None\<close>: \<open>data\<close> is not a live block.\<close>

definition gw_ring_wq_sqe_exec :: "(io_call \<Rightarrow> int) \<Rightarrow> ptr \<Rightarrow> ring_sys \<Rightarrow> ring_sys option" where
  "gw_ring_wq_sqe_exec run data s =
     (case map_of (datas s) data of
        None \<Rightarrow> None
      | Some sqe \<Rightarrow>
          if sqe_op sqe = GW_RING_OP_NOP then Some (snd (issue_op_nop sqe s))
          else if sqe_op sqe = GW_RING_OP_TG_API_CALL then map_option snd (exec_tg_api_call run sqe s)
          else if sqe_op sqe = GW_RING_OP_MODULE_HANDLE
          then map_option snd (exec_module_handle run sqe s)
          else Some s)"

definition gw_ring_wq_sqe_delete :: "ptr \<Rightarrow> ring_sys \<Rightarrow> ring_sys option" where
  "gw_ring_wq_sqe_delete data s =
     (case map_of (datas s) data of
        None \<Rightarrow> None
      | Some sqe \<Rightarrow>
          map_option (\<lambda>s1. s1\<lparr>datas := heap_free data (datas s1)\<rparr>)
            (if sqe_op sqe = GW_RING_OP_MODULE_HANDLE then free_sqe_update sqe s else Some s))"

section \<open>Well-formed rings\<close>

definition cq_contents :: "gw_ring \<Rightarrow> gw_ring_cqe list" where
  "cq_contents r = circ_contents (cqes r) (cq_mask r) (cq_head r) (cq_tail r)"

definition sq_contents :: "gw_ring \<Rightarrow> gw_ring_sqe list" where
  "sq_contents r = circ_contents (sqes r) (sq_mask r) (sq_head r) (sq_tail r)"

definition cq_ok :: "gw_ring \<Rightarrow> bool" where
  "cq_ok r = (circ_ok (cqes r) (cq_mask r) \<and> unat (cq_tail r - cq_head r) \<le> length (cqes r))"

definition sq_ok :: "gw_ring \<Rightarrow> bool" where
  "sq_ok r = (circ_ok (sqes r) (sq_mask r) \<and> unat (sq_tail r - sq_head r) \<le> length (sqes r))"

definition ring_ok :: "gw_ring \<Rightarrow> bool" where
  "ring_ok r = (cq_ok r \<and> sq_ok r \<and> wq_ok (ring_wq r))"

definition cq_unwrapped :: "gw_ring \<Rightarrow> bool" where
  "cq_unwrapped r = (cq_head r \<le> cq_tail r)"

lemma length_cq_contents [simp]: "length (cq_contents r) = unat (cq_tail r - cq_head r)"
  and length_sq_contents [simp]: "length (sq_contents r) = unat (sq_tail r - sq_head r)"
  by (simp_all add: cq_contents_def sq_contents_def)

lemma cq_contents_Nil_iff: "cq_contents r = [] \<longleftrightarrow> cq_head r = cq_tail r"
  and sq_contents_Nil_iff: "sq_contents r = [] \<longleftrightarrow> sq_head r = sq_tail r"
  by (simp_all add: cq_contents_def sq_contents_def circ_contents_Nil_iff)

definition cq_pop :: "gw_ring \<Rightarrow> gw_ring_cqe \<times> gw_ring" where
  "cq_pop r = (cqes r ! slot (cq_head r) (cq_mask r), gw_ring_cq_advance 1 r)"

lemma cq_push_ok:
  assumes ok: "cq_ok r" and room: "unat (cq_tail r - cq_head r) < length (cqes r)"
  shows "cq_ok (cq_push x r) \<and> cq_contents (cq_push x r) = cq_contents r @ [x]"
proof -
  have *: "circ_contents ((cqes r)[slot (cq_tail r) (cq_mask r) := x]) (cq_mask r)
        (cq_head r) (cq_tail r + 1) = cq_contents r @ [x]"
    unfolding cq_contents_def by (rule circ_contents_push) (use ok room in \<open>simp_all add: cq_ok_def\<close>)
  then have "unat (cq_tail r + 1 - cq_head r) = Suc (length (cq_contents r))"
    by (metis length_append_singleton length_circ_contents)
  with * ok room show ?thesis by (simp add: cq_ok_def cq_push_def cq_contents_def)
qed

lemma cq_pop_ok:
  assumes ok: "cq_ok r" and c: "cq_contents r = y # ys"
  shows "fst (cq_pop r) = y \<and> cq_contents (snd (cq_pop r)) = ys \<and> cq_ok (snd (cq_pop r))"
proof -
  have ne: "cq_head r \<noteq> cq_tail r" using c cq_contents_Nil_iff [of r] by auto
  from c circ_contents_pop [OF ne, of "cqes r" "cq_mask r"] have
    "y = cqes r ! slot (cq_head r) (cq_mask r)"
    "ys = circ_contents (cqes r) (cq_mask r) (cq_head r + 1) (cq_tail r)"
    by (simp_all add: cq_contents_def)
  moreover have "unat (cq_tail r - (cq_head r + 1)) \<le> length (cqes r)"
    using ok unat_diff_pop [OF ne] by (simp add: cq_ok_def)
  ultimately show ?thesis
    using ok by (simp add: cq_pop_def gw_ring_cq_advance_def cq_contents_def cq_ok_def)
qed

interpretation cq_fifo: bounded_fifo cq_push cq_pop cq_contents "\<lambda>r. length (cqes r)" cq_ok
proof unfold_locales
  show "cq_contents (cq_push x r) = cq_contents r @ [x]"
    if "cq_ok r" "length (cq_contents r) < length (cqes r)" for r x
    using cq_push_ok that by simp
  show "cq_ok (cq_push x r)" if "cq_ok r" "length (cq_contents r) < length (cqes r)" for r x
    using cq_push_ok that by simp
  show "length (cqes (cq_push x r)) = length (cqes r)" if "cq_ok r" for r x
    by (simp add: cq_push_def)
  show "fst (cq_pop r) = y \<and> cq_contents (snd (cq_pop r)) = ys"
    if "cq_ok r" "cq_contents r = y # ys" for r y ys
    using cq_pop_ok that by simp
  show "cq_ok (snd (cq_pop r))" if "cq_ok r" "cq_contents r \<noteq> []" for r
    using cq_pop_ok that by (metis neq_Nil_conv)
qed

text \<open>The submission queue: a slot is taken and written, and \<open>gw_ring_submit\<close> removes it.\<close>

definition sq_push :: "gw_ring_sqe \<Rightarrow> gw_ring \<Rightarrow> gw_ring" where
  "sq_push sqe r =
     r\<lparr>sqes := (sqes r)[slot (sq_tail r) (sq_mask r) := sqe], sq_tail := sq_tail r + 1\<rparr>"

definition sq_pop :: "gw_ring \<Rightarrow> gw_ring_sqe \<times> gw_ring" where
  "sq_pop r = (sqes r ! slot (sq_head r) (sq_mask r), r\<lparr>sq_head := sq_head r + 1\<rparr>)"

lemma sq_push_ok:
  assumes ok: "sq_ok r" and room: "unat (sq_tail r - sq_head r) < length (sqes r)"
  shows "sq_ok (sq_push x r) \<and> sq_contents (sq_push x r) = sq_contents r @ [x]"
proof -
  have *: "circ_contents ((sqes r)[slot (sq_tail r) (sq_mask r) := x]) (sq_mask r)
        (sq_head r) (sq_tail r + 1) = sq_contents r @ [x]"
    unfolding sq_contents_def by (rule circ_contents_push) (use ok room in \<open>simp_all add: sq_ok_def\<close>)
  then have "unat (sq_tail r + 1 - sq_head r) = Suc (length (sq_contents r))"
    by (metis length_append_singleton length_circ_contents)
  with * ok room show ?thesis by (simp add: sq_ok_def sq_push_def sq_contents_def)
qed

lemma sq_pop_ok:
  assumes ok: "sq_ok r" and c: "sq_contents r = y # ys"
  shows "fst (sq_pop r) = y \<and> sq_contents (snd (sq_pop r)) = ys \<and> sq_ok (snd (sq_pop r))"
proof -
  have ne: "sq_head r \<noteq> sq_tail r" using c sq_contents_Nil_iff [of r] by auto
  from c circ_contents_pop [OF ne, of "sqes r" "sq_mask r"] have
    "y = sqes r ! slot (sq_head r) (sq_mask r)"
    "ys = circ_contents (sqes r) (sq_mask r) (sq_head r + 1) (sq_tail r)"
    by (simp_all add: sq_contents_def)
  moreover have "unat (sq_tail r - (sq_head r + 1)) \<le> length (sqes r)"
    using ok unat_diff_pop [OF ne] by (simp add: sq_ok_def)
  ultimately show ?thesis using ok by (simp add: sq_pop_def sq_contents_def sq_ok_def)
qed

interpretation sq_fifo: bounded_fifo sq_push sq_pop sq_contents "\<lambda>r. length (sqes r)" sq_ok
proof unfold_locales
  show "sq_contents (sq_push x r) = sq_contents r @ [x]"
    if "sq_ok r" "length (sq_contents r) < length (sqes r)" for r x
    using sq_push_ok that by simp
  show "sq_ok (sq_push x r)" if "sq_ok r" "length (sq_contents r) < length (sqes r)" for r x
    using sq_push_ok that by simp
  show "length (sqes (sq_push x r)) = length (sqes r)" if "sq_ok r" for r x
    by (simp add: sq_push_def)
  show "fst (sq_pop r) = y \<and> sq_contents (snd (sq_pop r)) = ys"
    if "sq_ok r" "sq_contents r = y # ys" for r y ys
    using sq_pop_ok that by simp
  show "sq_ok (snd (sq_pop r))" if "sq_ok r" "sq_contents r \<noteq> []" for r
    using sq_pop_ok that by (metis neq_Nil_conv)
qed

text \<open>An operation on one queue leaves the other one and the work queue alone.\<close>

lemma ring_frames [simp]:
  "sq_contents (cq_push x r) = sq_contents r" "sq_ok (cq_push x r) = sq_ok r"
  "ring_wq (cq_push x r) = ring_wq r" "cq_contents (sq_push y r) = cq_contents r"
  "cq_ok (sq_push y r) = cq_ok r" "ring_wq (sq_push y r) = ring_wq r"
  "cq_contents (r\<lparr>ring_wq := q\<rparr>) = cq_contents r" "sq_contents (r\<lparr>ring_wq := q\<rparr>) = sq_contents r"
  "cq_ok (r\<lparr>ring_wq := q\<rparr>) = cq_ok r" "sq_ok (r\<lparr>ring_wq := q\<rparr>) = sq_ok r"
  "cq_contents (r\<lparr>wait_cqe_cond_flag := f\<rparr>) = cq_contents r"
  "sq_contents (r\<lparr>wait_cqe_cond_flag := f\<rparr>) = sq_contents r"
  "ring_ok (r\<lparr>wait_cqe_cond_flag := f\<rparr>) = ring_ok r"
  by (simp_all add: cq_push_def sq_push_def cq_contents_def sq_contents_def cq_ok_def sq_ok_def
      ring_ok_def)

lemma cq_full_iff:
  assumes "cq_ok r"
  shows "cq_mask r + 1 \<le> u32_diff (cq_tail r) (cq_head r) \<longleftrightarrow>
    \<not> (unat (cq_tail r - cq_head r) < length (cqes r) \<and> cq_unwrapped r)"
  using assms circ_full_iff [of "cqes r" "cq_mask r" "cq_tail r" "cq_head r"]
  unfolding cq_ok_def cq_unwrapped_def by (auto simp only: not_less not_le le_less)

lemma sq_full_iff:
  assumes "sq_ok r"
  shows "sq_mask r + 1 \<le> u32_diff (sq_head r) (sq_tail r) \<longleftrightarrow>
    unat (sq_tail r - sq_head r) = length (sqes r) \<or> sq_tail r < sq_head r"
  unfolding u32_diff_commute [of "sq_head r"]
  using assms circ_full_iff [of "sqes r" "sq_mask r" "sq_tail r" "sq_head r"]
  by (simp only: sq_ok_def)

lemma post_cqe_cases:
  assumes "cq_ok r"
  shows "post_cqe sqe res r =
    (if unat (cq_tail r - cq_head r) < length (cqes r) \<and> cq_unwrapped r
     then (True, cq_push (cqe_of sqe res) r, wake_up_wait_cqe_callers r) else (False, r, []))"
  unfolding post_cqe_def cq_full_iff [OF assms]
  by (simp add: Let_def wake_up_wait_cqe_callers_def cq_push_def)

section \<open>What setting up promises\<close>

lemma held_ring_prefix:
  "held [] (map Acquire xs @ es) = held (rev xs) es"
  using held_acquires [of "[]" xs] by (simp add: held_append)

text \<open>A round-up that ends doubles to the least power of two not below the size.\<close>

lemma round_up_pow2_Some:
  assumes "round_up_pow2 2 sz = Some mx"
  obtains m where "1 \<le> m" "m \<le> 31" "mx = 2 ^ m" "sz \<le> 2 ^ m" "\<not> 2 ^ 31 < sz"
    "m \<le> 30 \<longleftrightarrow> sz \<le> 2 ^ 30"
proof -
  have le: "sz \<le> 2 ^ 31"
  proof (rule ccontr)
    assume "\<not> sz \<le> 2 ^ 31"
    then have "round_up_pow2 (2 ^ 1) sz = None" by (intro round_up_pow2_diverges) simp
    with assms show False by simp
  qed
  from round_up_pow2_le [of 1 sz, OF _ this] assms obtain m where
    m: "1 \<le> m" "m \<le> 31" "mx = 2 ^ m" "sz \<le> 2 ^ m" "m = 1 \<or> 2 ^ (m - 1) < sz" by auto
  have "m \<le> 30 \<longleftrightarrow> sz \<le> 2 ^ 30"
  proof
    assume "m \<le> 30"
    then have "(2 :: nat) ^ m \<le> 2 ^ 30" by (intro power_increasing) simp_all
    then have "(2 :: u32) ^ m \<le> 2 ^ 30"
      using unat_two_pow [of m] unat_two_pow [of 30] m(2) by (simp add: word_le_nat_alt)
    with m(4) show "sz \<le> 2 ^ 30" by (rule order_trans)
  next
    assume sz: "sz \<le> 2 ^ 30"
    show "m \<le> 30"
    proof (rule ccontr)
      assume "\<not> m \<le> 30"
      with m(2) have "m = 31" by simp
      with m(5) sz show False by auto
    qed
  qed
  with m le show ?thesis by (intro that) simp_all
qed

lemma fresh_ring_ok:
  assumes "1 \<le> m" and "m \<le> 30" and "wq_ok q"
  shows "ring_ok (fresh_ring (2 ^ m - 1) (2 ^ m * 2 - 1) q)"
proof -
  have "(2 :: u32) ^ m * 2 = 2 ^ Suc m" by simp
  moreover have "unat ((2 :: u32) ^ m) = 2 ^ m" "unat ((2 :: u32) ^ Suc m) = 2 ^ Suc m"
    using assms(2) by (intro unat_two_pow; simp)+
  ultimately show ?thesis
    using assms
    by (auto simp: ring_ok_def cq_ok_def sq_ok_def circ_ok_def fresh_ring_def
        intro: bexI [of _ m] bexI [of _ "Suc m"] simp del: power_Suc)
qed

lemma alloc_ring_wq_ok:
  assumes "alloc_workqueue env ring_wq_attr = Some (0, wqo, ev, tr)"
  obtains q rs where "wqo = Some q" "wq_ok q" "wq_contents q = []"
    "held [] tr = Some rs" "mset rs = mset (wq_resources q)"
proof -
  obtain at n m where m: "m \<le> 31" "max_pending_works at = 2 ^ m" "max_threads at \<noteq> 0"
    and n: "n \<le> unat (max_threads at)"
    and wqo: "wqo = Some ((fresh_wq at)\<lparr>workers :=
      map (\<lambda>i. \<lparr>worker_id = of_nat i, thread = i < n, worker_wq = i < n\<rparr>) [0..<unat (max_threads at)]\<rparr>)"
    and tr: "tr = map Acquire ([R_wq, R_work_list_lock, R_cond Worker_cond, R_cond Wait_all_cond,
      R_cond Queue_work_cond, R_workers] @ map R_thread [0..<n])"
    by (rule alloc_workqueue_success [OF assms]) (rule that)
  define q where "q = (fresh_wq at)\<lparr>workers :=
      map (\<lambda>i. \<lparr>worker_id = of_nat i, thread = i < n, worker_wq = i < n\<rparr>) [0..<unat (max_threads at)]\<rparr>"
  have "filter (\<lambda>i. worker_wq (workers q ! i) \<and> thread (workers q ! i)) [0..<length (workers q)] =
      filter (\<lambda>i. i < n) [0..<unat (max_threads at)]"
    by (rule filter_cong) (simp_all add: q_def)
  then have res: "wq_resources q = [R_wq, R_work_list_lock, R_cond Worker_cond,
      R_cond Wait_all_cond, R_cond Queue_work_cond, R_workers] @ map R_thread [0..<n]"
    using filter_upt_less [OF n] by (simp add: wq_resources_def)
  have "wq_ok q" unfolding q_def by (rule fresh_wq_ok [OF m(2,1,3)]) simp_all
  moreover have "wq_contents q = []" by (simp add: q_def fresh_wq_def wq_contents_def)
  moreover have "held [] tr = Some (rev (wq_resources q))"
    using held_acquires [of "[]" "wq_resources q"] by (simp only: tr res append_Nil2)
  ultimately show ?thesis
    using that [of q "rev (wq_resources q)"] wqo [folded q_def] by simp
qed

text \<open>What a live ring holds.\<close>

definition ring_resources :: "gw_ring \<Rightarrow> ring_resource list" where
  "ring_resources r =
     map R_wq_part (wq_resources (ring_wq r)) @
     [R_sqes, R_cqes, R_sq_lock, R_cq_lock, R_wait_cqe_cond]"

lemma alloc_ring_wq_total: "alloc_workqueue env ring_wq_attr \<noteq> None"
proof -
  have "\<exists>mx. round_up_pow2 2 4096 = Some mx" using round_up_pow2_le [of 1 4096] by auto
  then show ?thesis
    by (auto simp: alloc_workqueue_def validate_and_adjust_workqueue_attr_def ring_wq_attr_def
        WQ_F_ALL_def Let_def split: prod.splits)
qed

lemma init_wq_fails:
  assumes "alloc_workqueue env ring_wq_attr = Some (ret, wqo, ev, tr)" and "ret \<noteq> 0"
  shows "held [] (map Acquire [R_sqes, R_cqes, R_sq_lock, R_cq_lock, R_wait_cqe_cond] @
    map (map_trace_ev R_wq_part) tr @ out_free_wait_cqe_cond) = Some []"
proof -
  have "held [] tr = Some []" using alloc_workqueue_failure [OF assms] by simp
  from held_map [OF this, of R_wq_part] show ?thesis
    by (simp add: held_append inj_def out_label_defs)
qed

lemma init_wq_succeeds:
  assumes "held [] tr = Some rs" and "mset rs = mset (wq_resources q)" and "ring_wq r = q"
  shows "\<exists>rs'. held [] (map Acquire [R_sqes, R_cqes, R_sq_lock, R_cq_lock, R_wait_cqe_cond] @
    map (map_trace_ev R_wq_part) tr) = Some rs' \<and> mset rs' = mset (ring_resources r)"
proof -
  have "mset (map R_wq_part rs) = mset (map R_wq_part (wq_resources q))"
    using assms(2) by simp
  with held_map [OF assms(1), of R_wq_part "[R_wait_cqe_cond, R_cq_lock, R_sq_lock, R_cqes, R_sqes]"]
  show ?thesis by (simp add: inj_def ring_resources_def assms(3))
qed

lemma fresh_ring_geometry:
  assumes m: "1 \<le> m" "m \<le> 31" and q: "wq_ok q" and sz: "(sz :: u32) \<le> 2 ^ m" "m \<le> 30 \<longleftrightarrow> sz \<le> 2 ^ 30"
    and r: "r = fresh_ring (2 ^ m - 1) (2 ^ m * 2 - 1) q"
  shows "if sz \<le> 2 ^ 30
    then ring_ok r \<and> cq_contents r = [] \<and> sq_contents r = [] \<and> cq_unwrapped r \<and>
         unat sz \<le> length (sqes r) \<and> length (cqes r) = 2 * length (sqes r)
    else cqes r = []"
proof (cases "m \<le> 30")
  case True
  have "ring_ok r" unfolding r by (rule fresh_ring_ok [OF m(1) True q])
  moreover have "cq_contents r = []" "sq_contents r = []" "cq_unwrapped r"
    by (simp_all add: r fresh_ring_def cq_contents_def sq_contents_def cq_unwrapped_def)
  moreover have "length (sqes r) = 2 ^ m"
    using unat_two_pow [of m] True by (simp add: r fresh_ring_def)
  moreover have "length (cqes r) = 2 ^ Suc m"
    using unat_two_pow [of "Suc m"] True by (simp add: r fresh_ring_def mult.commute)
  moreover have "unat sz \<le> 2 ^ m"
    using sz(1) unat_two_pow [of m] True by (simp add: word_le_nat_alt)
  ultimately show ?thesis using True sz(2) by simp
next
  case False
  with m(2) have "m = 31" by simp
  then have "cqes r = []" by (simp add: r fresh_ring_def)
  with False sz(2) show ?thesis by simp
qed

text \<open>An error gives back everything, for the caller's own unwinding.\<close>

lemma gw_ring_init_fails:
  assumes "gw_ring_init env sz = Some (ret, ro, tr)" and "ret \<noteq> 0"
  shows "ro = None \<and> held [] tr = Some []"
proof -
  obtain mx where mx: "round_up_pow2 2 sz = Some mx"
    using assms(1) by (cases "round_up_pow2 2 sz") (simp_all add: gw_ring_init_def)
  obtain r4 wqo ev t4 where al: "alloc_workqueue (env_wq env) ring_wq_attr = Some (r4, wqo, ev, t4)"
    using alloc_ring_wq_total [of "env_wq env"] by (metis not_None_eq prod_cases4)
  show ?thesis
  proof (cases "env_calloc_sqes env \<and> env_calloc_cqes env \<and> env_init_sq_lock env = 0 \<and>
      env_init_cq_lock env = 0 \<and> env_init_wait_cqe_cond env = 0")
    case False
    with assms(1) mx show ?thesis
      by (simp add: gw_ring_init_def Let_def out_label_defs split: if_splits) auto
  next
    case True
    with assms al mx have "r4 \<noteq> 0" and "ret = r4 \<and> ro = None \<and>
        tr = (map Acquire [R_sqes, R_cqes, R_sq_lock, R_cq_lock, R_wait_cqe_cond] @
          map (map_trace_ev R_wq_part) t4) @ out_free_wait_cqe_cond"
      by (auto simp: gw_ring_init_def Let_def split: option.splits if_splits)
    with init_wq_fails [OF al] show ?thesis by (simp del: held.simps)
  qed
qed

text \<open>
  C26: \<open>gw_ring_init\<close> for every size and every answer of the allocator and the thread library. Above
  \<open>2 ^ 31\<close>, and only there, it never returns. A non-zero result hands out no ring and has released
  exactly what was acquired. Result 0 holds exactly the resources of a live ring, and up to
  \<open>2 ^ 30\<close> the ring is well formed and empty, with at least \<open>size\<close> submission slots and twice as
  many completion slots; from there to \<open>2 ^ 31\<close> the doubled mask wraps and the completion queue has
  no slots at all.
\<close>

theorem gw_ring_init_spec:
  "case gw_ring_init env sz of
     None \<Rightarrow> 2 ^ 31 < sz
   | Some (ret, ro, tr) \<Rightarrow> \<not> 2 ^ 31 < sz \<and>
       (if ret \<noteq> 0 then ro = None \<and> held [] tr = Some []
        else \<exists>r rs. ro = Some r \<and> held [] tr = Some rs \<and> mset rs = mset (ring_resources r) \<and>
          (if sz \<le> 2 ^ 30
           then ring_ok r \<and> cq_contents r = [] \<and> sq_contents r = [] \<and> cq_unwrapped r \<and>
                unat sz \<le> length (sqes r) \<and> length (cqes r) = 2 * length (sqes r)
           else cqes r = []))"
proof (cases "round_up_pow2 2 sz")
  case None
  have "2 ^ 31 < sz"
  proof (rule ccontr)
    assume "\<not> 2 ^ 31 < sz"
    then have "sz \<le> 2 ^ 31" by (simp only: not_less)
    with round_up_pow2_le [of 1 sz] None show False by auto
  qed
  with None show ?thesis by (simp add: gw_ring_init_def)
next
  case (Some mx)
  obtain m where m: "1 \<le> m" "m \<le> 31" "mx = 2 ^ m" "sz \<le> 2 ^ m" "\<not> 2 ^ 31 < sz"
      "m \<le> 30 \<longleftrightarrow> sz \<le> 2 ^ 30"
    by (rule round_up_pow2_Some [OF Some])
  have nz: "- ENOMEM \<noteq> 0" by (simp add: ENOMEM_def)
  obtain ret wqo ev tr where al: "alloc_workqueue (env_wq env) ring_wq_attr = Some (ret, wqo, ev, tr)"
    using alloc_ring_wq_total [of "env_wq env"] by (metis not_None_eq prod_cases4)
  show ?thesis
  proof (cases "env_calloc_sqes env \<and> env_calloc_cqes env \<and> env_init_sq_lock env = 0 \<and>
      env_init_cq_lock env = 0 \<and> env_init_wait_cqe_cond env = 0")
    case False
    with Some m(5) nz show ?thesis by (auto simp: gw_ring_init_def Let_def out_label_defs)
  next
    case True
    let ?t = "map Acquire [R_sqes, R_cqes, R_sq_lock, R_cq_lock, R_wait_cqe_cond] @
      map (map_trace_ev R_wq_part) tr"
    have init: "gw_ring_init env sz =
        (if ret \<noteq> 0 then Some (ret, None, ?t @ out_free_wait_cqe_cond)
         else Some (0, map_option (fresh_ring (mx - 1) (mx * 2 - 1)) wqo, ?t))"
      using True Some al by (simp add: gw_ring_init_def Let_def)
    show ?thesis
    proof (cases "ret = 0")
      case False
      with init init_wq_fails [OF al False] m(5) show ?thesis by (simp del: held.simps)
    next
      case True
      obtain q rs where q: "wqo = Some q" "wq_ok q" "held [] tr = Some rs"
          "mset rs = mset (wq_resources q)"
        by (rule alloc_ring_wq_ok [OF al [unfolded True]])
      define r where "r = fresh_ring (mx - 1) (mx * 2 - 1) q"
      have rq: "ring_wq r = q" by (simp add: r_def fresh_ring_def)
      obtain rs' where rs': "held [] ?t = Some rs'" "mset rs' = mset (ring_resources r)"
        using init_wq_succeeds [OF q(3,4) rq] by blast
      note geo = fresh_ring_geometry [OF m(1,2) q(2) m(4,6) r_def [unfolded m(3)]]
      with init True q(1) rs' m(5) show ?thesis by (simp add: r_def [symmetric] del: held.simps)
    qed
  qed
qed

section \<open>Completions\<close>

text \<open>
  C20: \<open>post_cqe\<close> on a well-formed ring. It succeeds exactly when the completion queue has room and
  its tail has not wrapped below its head; then the completion, with the operation and the user data
  of the request, becomes the last one, and the sleepers are woken if there may be any. Otherwise
  the completion is lost and nothing changes.
\<close>

theorem post_cqe_spec:
  assumes "ring_ok r" and "post_cqe sqe res r = (ok, r', ev)"
  shows "ok = (length (cq_contents r) < length (cqes r) \<and> cq_unwrapped r) \<and>
    sq_contents r' = sq_contents r \<and> ring_ok r' \<and>
    (if ok then cq_contents r' = cq_contents r @
           [\<lparr>cqe_op = sqe_op sqe, cqe_res = res, cqe_flags = 0, cqe_user_data = sqe_user_data sqe\<rparr>] \<and>
         ev = (if wait_cqe_cond_flag r then [Wake_wait_cqe] else [])
     else r' = r \<and> ev = [])"
proof -
  have cq: "cq_ok r" using assms(1) by (simp add: ring_ok_def)
  show ?thesis
  proof (cases "unat (cq_tail r - cq_head r) < length (cqes r) \<and> cq_unwrapped r")
    case True
    with assms(2) have "ok" "r' = cq_push (cqe_of sqe res) r" "ev = wake_up_wait_cqe_callers r"
      by (simp_all add: post_cqe_cases [OF cq])
    with True assms(1) cq_push_ok [OF cq, of "cqe_of sqe res"] show ?thesis
      by (simp add: ring_ok_def cqe_of_def wake_up_wait_cqe_callers_def)
  next
    case False
    with assms(2) have "\<not> ok" "r' = r" "ev = []" by (simp_all only: post_cqe_cases [OF cq] if_False prod.inject simp_thms)
    with False assms(1) show ?thesis by simp
  qed
qed

text \<open>A small ring with two submission and four completion slots.\<close>

definition sample_ring :: gw_ring where
  "sample_ring = fresh_ring 1 3 sample_wq"

lemma sample_ring_ok: "ring_ok sample_ring" and sample_ring_contents [simp]:
  "cq_contents sample_ring = []" "sq_contents sample_ring = []"
  and sample_ring_fields [simp]: "length (cqes sample_ring) = 4" "length (sqes sample_ring) = 2"
  "cq_unwrapped sample_ring" "\<not> ring_should_stop sample_ring" "\<not> wait_cqe_cond_flag sample_ring"
  "ring_wq sample_ring = sample_wq" "sq_head sample_ring = 0" "sq_tail sample_ring = 0"
  "cq_head sample_ring = 0" "cq_tail sample_ring = 0" "cq_mask sample_ring = 3" "sq_mask sample_ring = 1"
proof -
  show "ring_ok sample_ring"
    using fresh_ring_ok [of 1 sample_wq] sample_wq_ok by (simp add: sample_ring_def)
qed (simp_all add: sample_ring_def fresh_ring_def cq_contents_def sq_contents_def cq_unwrapped_def)

theorem post_cqe_spec_witness:
  "cq_contents (fst (snd (post_cqe (zero_sqe\<lparr>sqe_user_data := 7\<rparr>) 5 sample_ring))) =
     [\<lparr>cqe_op = 0, cqe_res = 5, cqe_flags = 0, cqe_user_data = 7\<rparr>]"
proof -
  obtain ok r' ev where p: "post_cqe (zero_sqe\<lparr>sqe_user_data := 7\<rparr>) 5 sample_ring = (ok, r', ev)"
    by (metis prod_cases3)
  from post_cqe_spec [OF sample_ring_ok p] p show ?thesis by (simp add: zero_sqe_def)
qed

lemma wait_cqe_pass_returns:
  assumes pass: "wait_cqe_pass r = (Some (ret, sl), r')" and ok: "ring_ok r" and ret: "ret \<noteq> - EOWNERDEAD"
  shows "\<not> ring_should_stop r' \<and> ring_ok r' \<and> ret = int (length (cq_contents r')) \<and> 0 < ret \<and>
    (\<exists>i. sl = Some i \<and> cqes r' ! i = hd (cq_contents r'))"
proof -
  from pass ret have w: "\<not> ring_should_stop r" "r' = r" "0 < ret" "gw_ring_wait_cqe_once r = (ret, sl)"
    by (auto simp: wait_cqe_pass_def Let_def split: if_splits)
  from w(3,4) have ne: "cq_tail r \<noteq> cq_head r" and
    ret: "ret = sint (u32_diff (cq_tail r) (cq_head r))" and
    sl: "sl = Some (slot (cq_head r) (cq_mask r))"
    by (auto simp: gw_ring_wait_cqe_once_def EAGAIN_def split: if_splits)
  have le: "unat (cq_tail r - cq_head r) \<le> 2 ^ 31"
    using ok circ_ok_length [of "cqes r" "cq_mask r"] by (auto simp: ring_ok_def cq_ok_def)
  have unw: "cq_head r \<le> cq_tail r"
    using sint_u32_diff_wrapped [OF le] w(3) ret by (metis less_asym linorder_not_less)
  have lt: "unat (cq_tail r - cq_head r) < 2 ^ 31"
  proof (rule ccontr)
    assume "\<not> unat (cq_tail r - cq_head r) < 2 ^ 31"
    with unat_diff_le [OF unw] have "2 ^ 31 \<le> unat (cq_tail r - cq_head r)"
      "unat (u32_diff (cq_tail r) (cq_head r)) = unat (cq_tail r - cq_head r)" by simp_all
    from sint_big [OF this] w(3) ret show False by simp
  qed
  have "cqes r ! slot (cq_head r) (cq_mask r) = hd (cq_contents r)"
    using circ_contents_pop [of "cq_head r" "cq_tail r" "cqes r" "cq_mask r"] ne
    by (simp add: cq_contents_def)
  then show ?thesis
    using w(1-3) sint_u32_diff [OF lt unw] ok unfolding ret sl
    by (simp only: length_cq_contents) blast
qed

text \<open>
  A call of \<open>gw_ring_wait_cqe\<close> that returns, whatever the other threads do to the ring while it
  sleeps (anything that keeps it well formed), either reports a stopped ring, or returns the positive
  number of completions and the slot of the oldest one. It never returns \<open>-EAGAIN\<close>.
\<close>

lemma gw_ring_wait_cqe_outcome:
  assumes "gw_ring_wait_cqe others r = Some (ret, sl, r')" and "ring_ok r"
    and "\<forall>f \<in> set others. \<forall>x. ring_ok x \<longrightarrow> ring_ok (f x)" and "ret \<noteq> - EOWNERDEAD"
  shows "\<not> ring_should_stop r' \<and> ring_ok r' \<and> ret = int (length (cq_contents r')) \<and> 0 < ret \<and>
    (\<exists>i. sl = Some i \<and> cqes r' ! i = hd (cq_contents r'))"
  using assms
proof (induction others r rule: gw_ring_wait_cqe.induct)
  case (1 others r)
  note call = "1.prems"(1) [unfolded gw_ring_wait_cqe.simps [of others r]]
  show ?case
  proof (cases "wait_cqe_pass r")
    case (Pair ro r1)
    show ?thesis
    proof (cases ro)
      case (Some a)
      obtain ret1 sl1 where a: "a = (ret1, sl1)" by (cases a)
      with call Some Pair have "wait_cqe_pass r = (Some (ret, sl), r')" by simp
      from wait_cqe_pass_returns [OF this "1.prems"(2,4)] show ?thesis .
    next
      case None
      with call Pair obtain other rest where o: "others = other # rest"
        and rec: "gw_ring_wait_cqe rest (wait_cqe_woken (other r1)) = Some (ret, sl, r')"
        by (auto split: list.splits)
      from None Pair have r1: "r1 = r\<lparr>wait_cqe_cond_flag := True\<rparr>"
        by (auto simp: wait_cqe_pass_def Let_def split: if_splits)
      have "ring_ok (wait_cqe_woken (other r1))"
        using "1.prems"(2,3) by (simp add: wait_cqe_woken_def o r1)
      from "1.IH" [OF Pair [symmetric] None o rec this] "1.prems"(3,4) o show ?thesis by simp
    qed
  qed
qed

lemma for_each_cqe_from_eq:
  "for_each_cqe_from head r = circ_contents (cqes r) (cq_mask r) head (cq_tail r)"
proof (induction head r rule: for_each_cqe_from.induct)
  case (1 head r)
  show ?case
  proof (cases "head = cq_tail r")
    case False
    then have l: "gw_ring_load_head_cqe head r = Some (cqes r ! slot head (cq_mask r))"
      by (simp add: gw_ring_load_head_cqe_def)
    from "1.IH" [OF l] show ?thesis
      unfolding circ_contents_pop [OF False] by (subst for_each_cqe_from.simps) (simp add: l)
  qed (subst for_each_cqe_from.simps, simp add: gw_ring_load_head_cqe_def)
qed

text \<open>Posting a list of results, in order.\<close>

fun post_all :: "(gw_ring_sqe \<times> i64) list \<Rightarrow> gw_ring \<Rightarrow> gw_ring" where
  "post_all [] r = r"
| "post_all ((sqe, res) # ps) r = post_all ps (fst (snd (post_cqe sqe res r)))"

lemma cq_unwrapped_push:
  assumes "cq_unwrapped r" and "unat (cq_tail r) < 2 ^ 32 - 1"
  shows "cq_unwrapped (cq_push x r)" and "unat (cq_tail (cq_push x r)) = Suc (unat (cq_tail r))"
  using assms unat_plus_one [OF assms(2)]
  by (simp_all add: cq_unwrapped_def cq_push_def word_le_nat_alt)

lemma post_all_pushes:
  assumes "cq_ok r" and "cq_unwrapped r" and "unat (cq_tail r) + length ps < 2 ^ 32"
    and "length (cq_contents r) + length ps \<le> length (cqes r)"
  shows "post_all ps r = pushes cq_push (map (\<lambda>(sqe, res). cqe_of sqe res) ps) r"
  using assms
proof (induction ps arbitrary: r)
  case (Cons p ps)
  obtain sqe res where p: "p = (sqe, res)" by (cases p)
  from Cons.prems have room: "unat (cq_tail r - cq_head r) < length (cqes r)"
    and small: "unat (cq_tail r) < 2 ^ 32 - 1" by simp_all
  let ?r1 = "cq_push (cqe_of sqe res) r"
  from cq_push_ok [OF Cons.prems(1) room] have ok1: "cq_ok ?r1"
    and c1: "cq_contents ?r1 = cq_contents r @ [cqe_of sqe res]" by simp_all
  note unw = cq_unwrapped_push [OF Cons.prems(2) small, of "cqe_of sqe res"]
  have "post_all ps ?r1 = pushes cq_push (map (\<lambda>(sqe, res). cqe_of sqe res) ps) ?r1"
  proof (rule Cons.IH [OF ok1 unw(1)])
    show "unat (cq_tail ?r1) + length ps < 2 ^ 32" unfolding unw(2) using Cons.prems(3) by simp
    show "length (cq_contents ?r1) + length ps \<le> length (cqes ?r1)"
      unfolding c1 using Cons.prems(4) by (simp add: cq_push_def)
  qed
  with room Cons.prems(1,2) show ?case by (simp add: p post_cqe_cases)
qed simp

text \<open>
  C21: completions come out in the order in which they were posted. Posting results while there is
  room (and before the 32-bit tail wraps), then visiting the queue with \<open>gw_ring_for_each_cqe\<close>, gives
  what was there before followed by the new completions, and \<open>gw_ring_cq_advance\<close> by the number of
  visited ones empties the queue.
\<close>

theorem cq_roundtrip:
  assumes "ring_ok r" and "cq_unwrapped r" and "unat (cq_tail r) + length ps < 2 ^ 32"
    and "length (cq_contents r) + length ps \<le> length (cqes r)"
  shows "gw_ring_for_each_cqe (post_all ps r) =
      cq_contents r @ map (\<lambda>(sqe, res). cqe_of sqe res) ps \<and>
    cq_contents (gw_ring_cq_advance
      (of_nat (length (gw_ring_for_each_cqe (post_all ps r)))) (post_all ps r)) = []"
proof -
  have cq: "cq_ok r" using assms(1) by (simp add: ring_ok_def)
  have len: "length (cq_contents r) + length (map (\<lambda>(sqe, res). cqe_of sqe res) ps) \<le> length (cqes r)"
    using assms(4) by simp
  define r' where "r' = post_all ps r"
  have c: "cq_contents r' = cq_contents r @ map (\<lambda>(sqe, res). cqe_of sqe res) ps"
    using cq_fifo.pushes_contents [OF cq len] unfolding r'_def post_all_pushes [OF cq assms(2-4)] by simp
  have v: "gw_ring_for_each_cqe r' = cq_contents r'"
    by (simp add: gw_ring_for_each_cqe_def for_each_cqe_from_eq cq_contents_def)
  have "cq_head r' + of_nat (length (cq_contents r')) = cq_tail r'" by simp
  then have "cq_contents (gw_ring_cq_advance (of_nat (length (cq_contents r'))) r') = []"
    unfolding cq_contents_Nil_iff by (simp add: gw_ring_cq_advance_def)
  with v c show ?thesis unfolding r'_def [symmetric] by simp
qed

theorem cq_roundtrip_witness:
  "gw_ring_for_each_cqe (post_all [(zero_sqe, 1), (zero_sqe\<lparr>sqe_user_data := 9\<rparr>, 2)] sample_ring) =
     [cqe_of zero_sqe 1, cqe_of (zero_sqe\<lparr>sqe_user_data := 9\<rparr>) 2]"
  using cq_roundtrip [OF sample_ring_ok, of "[(zero_sqe, 1), (zero_sqe\<lparr>sqe_user_data := 9\<rparr>, 2)]"]
  by simp

text \<open>
  C30: after the 32-bit tail of a non-empty completion queue has wrapped below its head the ring is dead.
  Every further completion is lost, and \<open>gw_ring_wait_cqe\<close> sleeps on although completions are there:
  the distance it computes is negative as an \<open>int\<close>. No number of wake-ups and posts by the other
  threads changes that. The witness wraps the tail with one successful post.
\<close>

theorem cq_wrap_deadlock:
  assumes "ring_ok r" and "cq_contents r \<noteq> []" and "\<not> cq_unwrapped r" and "\<not> ring_should_stop r"
  shows "post_cqe sqe res r = (False, r, []) \<and>
    gw_ring_wait_cqe (map post_all pss) r = None"
proof
  have cq: "cq_ok r" using assms(1) by (simp add: ring_ok_def)
  then show "post_cqe sqe res r = (False, r, [])" using assms(3) by (simp add: post_cqe_cases)
  have "\<exists>f. post_all ps (r\<lparr>wait_cqe_cond_flag := f0\<rparr>) = r\<lparr>wait_cqe_cond_flag := f\<rparr>" for ps f0
  proof (induction ps)
    case (Cons p ps)
    have "cq_ok (r\<lparr>wait_cqe_cond_flag := f0\<rparr>)" using cq by (simp add: cq_ok_def)
    moreover have "\<not> cq_unwrapped (r\<lparr>wait_cqe_cond_flag := f0\<rparr>)" using assms(3) by (simp add: cq_unwrapped_def)
    ultimately show ?case using Cons by (cases p) (simp add: post_cqe_cases)
  qed auto
  then have post: "\<exists>f. post_all ps (r\<lparr>wait_cqe_cond_flag := True\<rparr>) = r\<lparr>wait_cqe_cond_flag := f\<rparr>" for ps .
  have len: "unat (cq_tail r - cq_head r) \<le> 2 ^ 31"
    using cq circ_ok_length [of "cqes r" "cq_mask r"] by (auto simp: cq_ok_def)
  have "cq_tail r < cq_head r" using assms(3) by (simp add: cq_unwrapped_def)
  from sint_u32_diff_wrapped [OF len this] assms(4)
  have pass: "wait_cqe_pass (r\<lparr>wait_cqe_cond_flag := f\<rparr>) = (None, r\<lparr>wait_cqe_cond_flag := True\<rparr>)" for f
    by (simp add: wait_cqe_pass_def gw_ring_wait_cqe_once_def EAGAIN_def)
  have "gw_ring_wait_cqe (map post_all pss) (r\<lparr>wait_cqe_cond_flag := f\<rparr>) = None" for f
  proof (induction pss arbitrary: f)
    case Nil
    then show ?case by (simp add: gw_ring_wait_cqe.simps [of "[]"] pass)
  next
    case (Cons ps pss)
    obtain g where "post_all ps (r\<lparr>wait_cqe_cond_flag := True\<rparr>) = r\<lparr>wait_cqe_cond_flag := g\<rparr>"
      using post by blast
    then show ?case
      using Cons.IH by (subst gw_ring_wait_cqe.simps) (simp add: pass wait_cqe_woken_def)
  qed
  from this [of "wait_cqe_cond_flag r"] show "gw_ring_wait_cqe (map post_all pss) r = None" by simp
qed

definition wrapping_ring :: gw_ring where
  "wrapping_ring = sample_ring\<lparr>cq_head := - 1, cq_tail := - 1\<rparr>"

theorem cq_wrap_deadlock_witness:
  "\<exists>r. post_cqe zero_sqe 5 wrapping_ring = (True, r, []) \<and> length (cq_contents r) = 1 \<and>
     gw_ring_wait_cqe (map post_all [[(zero_sqe, 6)], [(zero_sqe, 7)]]) r = None"
proof -
  have cq: "cq_ok wrapping_ring" and unw: "cq_unwrapped wrapping_ring"
    using sample_ring_ok by (simp_all add: wrapping_ring_def ring_ok_def cq_ok_def cq_unwrapped_def)
  define r where "r = cq_push (cqe_of zero_sqe 5) wrapping_ring"
  have room: "unat (cq_tail wrapping_ring - cq_head wrapping_ring) < length (cqes wrapping_ring)"
    by (simp add: wrapping_ring_def)
  have p: "post_cqe zero_sqe 5 wrapping_ring = (True, r, [])"
    using room unw by (simp add: post_cqe_cases [OF cq] r_def wake_up_wait_cqe_callers_def)
      (simp add: wrapping_ring_def)
  have c: "cq_contents r = [cqe_of zero_sqe 5]" and ok: "cq_ok r"
    using cq_push_ok [OF cq room, of "cqe_of zero_sqe 5"]
    by (simp_all add: r_def) (simp add: cq_contents_def wrapping_ring_def)
  have "ring_ok r" using ok sample_ring_ok by (simp add: ring_ok_def r_def) (simp add: wrapping_ring_def sq_ok_def)
  moreover have "\<not> cq_unwrapped r" "\<not> ring_should_stop r"
    by (simp_all add: r_def cq_push_def wrapping_ring_def cq_unwrapped_def)
  ultimately have "gw_ring_wait_cqe (map post_all [[(zero_sqe, 6)], [(zero_sqe, 7)]]) r = None"
    using cq_wrap_deadlock [of r zero_sqe 0 "[[(zero_sqe, 6)], [(zero_sqe, 7)]]"] c by simp
  with p c show ?thesis by (auto simp del: length_cq_contents)
qed

section \<open>Submissions\<close>

text \<open>
  \<open>gw_ring_get_sqe\<close> hands out a slot exactly when the submission queue is not full (and its
  indices have not wrapped apart); a caller that stores a request through the pointer has appended it to
  the submission queue, and the queued requests and the completions are untouched.
\<close>

lemma gw_ring_get_sqe_spec:
  assumes "ring_ok r" and "gw_ring_get_sqe r = (sl, r')"
  shows "case sl of
      None \<Rightarrow> r' = r \<and> (length (sq_contents r) = length (sqes r) \<or> sq_tail r < sq_head r)
    | Some i \<Rightarrow> i < length (sqes r) \<and> ring_ok (write_sqe i f r') \<and>
        sq_contents (write_sqe i f r') = sq_contents r @ [f (sqes r ! i)] \<and>
        cq_contents (write_sqe i f r') = cq_contents r"
proof -
  have sq: "sq_ok r" using assms(1) by (simp add: ring_ok_def)
  note full = sq_full_iff [OF sq]
  show ?thesis
  proof (cases "sq_mask r + 1 \<le> u32_diff (sq_head r) (sq_tail r)")
    case True
    with assms(2) have "sl = None" "r' = r" by (simp_all add: gw_ring_get_sqe_def)
    with True full show ?thesis by simp
  next
    case False
    let ?i = "slot (sq_tail r) (sq_mask r)"
    from False assms(2) have sl: "sl = Some ?i" and r': "r' = r\<lparr>sq_tail := sq_tail r + 1\<rparr>"
      by (simp_all add: gw_ring_get_sqe_def)
    have w: "write_sqe ?i f r' = sq_push (f (sqes r ! ?i)) r"
      by (simp add: write_sqe_def sq_push_def r')
    from False full sq have room: "unat (sq_tail r - sq_head r) < length (sqes r)"
      unfolding sq_ok_def by (metis le_neq_implies_less)
    have "?i < length (sqes r)" using sq slot_less by (auto simp: sq_ok_def)
    with sq_push_ok [OF sq room, of "f (sqes r ! ?i)"] assms(1) show ?thesis
      unfolding sl option.case w by (simp add: ring_ok_def)
  qed
qed

lemma gw_ring_get_sqe_spec_example:
  "sq_contents (write_sqe 0 (gw_ring_prep_tg_module_handle 3 4) (snd (gw_ring_get_sqe sample_ring))) =
     [gw_ring_prep_tg_module_handle 3 4 zero_sqe]"
proof -
  have s: "slot 0 1 = 0" by (simp add: slot_def)
  have "gw_ring_get_sqe sample_ring = (Some 0, snd (gw_ring_get_sqe sample_ring))"
    by (simp add: gw_ring_get_sqe_def u32_diff_def s)
  moreover have "sqes sample_ring ! 0 = zero_sqe" by (simp add: sample_ring_def fresh_ring_def)
  ultimately show ?thesis
    using gw_ring_get_sqe_spec [OF sample_ring_ok, of "Some 0" _ "gw_ring_prep_tg_module_handle 3 4"]
    by simp
qed

text \<open>The submission loop on the list of requests.\<close>

fun submit_all :: "gw_ring_sqe list \<Rightarrow> int \<Rightarrow> io_state \<Rightarrow> (int \<times> io_state) option" where
  "submit_all [] ret st = Some (ret, st)"
| "submit_all (sqe # rest) ret st =
     (case submit_sqe sqe st of
        None \<Rightarrow> None
      | Some (ok, st1) \<Rightarrow> submit_all rest (if ok then ret + 1 else ret) st1)"

text \<open>Other threads leave the submission queue alone while \<open>sq_lock\<close> is held.\<close>

definition same_sq :: "gw_ring \<Rightarrow> gw_ring \<Rightarrow> bool" where
  "same_sq r r' = (sqes r' = sqes r \<and> sq_head r' = sq_head r \<and> sq_tail r' = sq_tail r \<and>
     sq_mask r' = sq_mask r)"

definition respects_sq_lock :: "(ring_sys \<Rightarrow> ring_sys) \<Rightarrow> bool" where
  "respects_sq_lock f = (\<forall>s. same_sq (ring s) (ring (f s)))"

lemma same_sq_trans: "same_sq a b \<Longrightarrow> same_sq b c \<Longrightarrow> same_sq a c"
  by (simp add: same_sq_def)

lemma same_sq_wq [simp]: "same_sq a (b\<lparr>ring_wq := q\<rparr>) = same_sq a b"
  "same_sq (a\<lparr>ring_wq := q\<rparr>) b = same_sq a b" "same_sq a a"
  by (simp_all add: same_sq_def)

lemma ring_queue_work_sq:
  assumes "ring_queue_work tc others work s = Some (ret, os, s')"
    and "\<forall>f \<in> set others. respects_sq_lock f"
  shows "same_sq (ring s) (ring s') \<and> set os \<subseteq> set others"
  using assms
proof (induction tc others work s rule: ring_queue_work.induct)
  case (1 tc others work s)
  obtain ro q ev where p: "queue_work_pass tc work (ring_wq (ring s)) = (ro, q, ev)"
    by (metis prod_cases3)
  let ?s1 = "s\<lparr>ring := (ring s)\<lparr>ring_wq := q\<rparr>, wq_events := wq_events s @ ev\<rparr>"
  note call = "1.prems"(1) [unfolded ring_queue_work.simps [of tc others work s] p prod.case Let_def]
  show ?case
  proof (cases ro)
    case (Some r)
    with call show ?thesis by auto
  next
    case None
    show ?thesis
    proof (cases others)
      case Nil
      with call None show ?thesis by simp
    next
      case (Cons other rest)
      let ?s2 = "other ?s1"
      let ?s3 = "?s2\<lparr>ring := (ring ?s2)\<lparr>ring_wq := queue_work_woken (ring_wq (ring ?s2))\<rparr>\<rparr>"
      have rec: "ring_queue_work tc rest work ?s3 = Some (ret, os, s')"
        using call None Cons by simp
      from "1.IH" [OF p [symmetric] refl refl None Cons refl rec] "1.prems"(2) Cons
      have IH: "same_sq (ring ?s3) (ring s') \<and> set os \<subseteq> set rest" by simp
      moreover have "respects_sq_lock other" using "1.prems"(2) Cons by simp
      then have "same_sq (ring ?s1) (ring ?s2)" unfolding respects_sq_lock_def by blast
      then have "same_sq (ring s) (ring ?s3)" by (simp add: same_sq_def)
      ultimately show ?thesis using Cons by (auto intro: same_sq_trans)
    qed
  qed
qed

definition locked_env :: "io_env \<Rightarrow> bool" where
  "locked_env env = (\<forall>f \<in> set (io_others env). respects_sq_lock f)"

lemma punt_to_io_wq_sq:
  assumes "punt_to_io_wq sqe (env, s) = Some (ok, (env', s'))" and "locked_env env"
  shows "same_sq (ring s) (ring s') \<and> locked_env env'"
proof (cases "fst (next_alloc (io_mallocs env))")
  case False
  with assms show ?thesis
    by (auto simp: punt_to_io_wq_def Let_def locked_env_def split: prod.splits)
next
  case True
  let ?d = "fresh_ptr (datas s)"
  let ?s1 = "s\<lparr>datas := (?d, sqe) # datas s\<rparr>"
  let ?w = "\<lparr>func = GW_RING_WQ_SQE_EXEC, arg = ?d, deleter = GW_RING_WQ_SQE_DELETE\<rparr>"
  from True assms(1) obtain ret os s2 where
    q: "ring_queue_work (io_spawn env) (io_others env) ?w ?s1 = Some (ret, os, s2)"
    and env': "io_others env' = os" and s': "ring s' = ring s2"
    by (auto simp: punt_to_io_wq_def Let_def split: prod.splits option.splits if_splits)
  from ring_queue_work_sq [OF q] assms(2) show ?thesis
    by (auto simp: locked_env_def env' s')
qed

lemma post_in_sq: "same_sq (ring s) (ring (snd (post_in sqe res s)))"
  by (simp add: post_in_def post_cqe_def Let_def same_sq_def cq_push_def)

lemma submit_sqe_sq:
  assumes "submit_sqe sqe (env, s) = Some (ok, (env', s'))" and "locked_env env"
  shows "same_sq (ring s) (ring s') \<and> locked_env env'"
proof -
  have mh: "same_sq (ring s) (ring s') \<and> locked_env env'"
    if h: "issue_op_module_handle sqe (env, s) = Some (ok, (env', s'))"
  proof -
    from h obtain ok1 env1 s1 where p: "punt_to_io_wq sqe (env, s) = Some (ok1, (env1, s1))"
      and "env' = env1" "ring s' = ring s1"
      by (auto simp: issue_op_module_handle_def free_sqe_update_def split: option.splits if_splits)
    with punt_to_io_wq_sq [OF p assms(2)] show ?thesis by simp
  qed
  from assms punt_to_io_wq_sq mh post_in_sq [of s sqe 0] show ?thesis
    by (auto simp: submit_sqe_def issue_op_nop_def issue_op_tg_api_call_def split: if_splits prod.splits)
qed

lemma submit_loop_all:
  assumes "same_sq r (ring s)" and "locked_env env"
  shows "submit_loop (sq_mask r) head (sq_tail r) ret (env, s) =
    map_option (\<lambda>(ret, st). (ret, sq_tail r, st))
      (submit_all (circ_contents (sqes r) (sq_mask r) head (sq_tail r)) ret (env, s))"
  using assms
proof (induction "unat (sq_tail r - head)" arbitrary: head ret env s)
  case 0
  then have "head = sq_tail r" by (simp add: unat_eq_0)
  then show ?case by (simp add: submit_loop.simps)
next
  case (Suc n)
  then have ne: "head \<noteq> sq_tail r" by auto
  then have n: "n = unat (sq_tail r - (head + 1))" using unat_diff_pop [OF ne] Suc.hyps(2) by simp
  let ?sqe = "sqes r ! slot head (sq_mask r)"
  have sqe: "sqes (ring s) ! slot head (sq_mask r) = ?sqe" using Suc.prems(1) by (simp add: same_sq_def)
  show ?case
  proof (cases "submit_sqe ?sqe (env, s)")
    case None
    with ne sqe show ?thesis
      unfolding circ_contents_pop [OF ne] by (simp add: submit_loop.simps [of "sq_mask r" head])
  next
    case (Some res)
    obtain ok env1 s1 where res: "res = (ok, (env1, s1))" by (metis prod_cases3)
    from submit_sqe_sq [OF Some [unfolded res] Suc.prems(2)] Suc.prems(1)
    have "same_sq r (ring s1)" "locked_env env1" by (auto intro: same_sq_trans)
    from Suc.hyps(1) [OF n this] ne sqe Some res show ?thesis
      unfolding circ_contents_pop [OF ne] by (simp add: submit_loop.simps [of "sq_mask r" head])
  qed
qed

lemma submit_refines:
  assumes "locked_env (fst st)"
  shows "gw_ring_submit st =
    (if ring_should_stop (ring (snd st)) then Some (- EOWNERDEAD, st)
     else map_option (\<lambda>(ret, (env, s)). (ret, (env, s\<lparr>ring := (ring s)\<lparr>sq_head := sq_tail (ring (snd st))\<rparr>\<rparr>)))
            (submit_all (sq_contents (ring (snd st))) 0 st))"
proof -
  obtain env s where st: "st = (env, s)" by (cases st)
  have "same_sq (ring s) (ring s)" by simp
  from submit_loop_all [OF this, of env "sq_head (ring s)" 0] assms show ?thesis
    by (auto simp: st gw_ring_submit_def Let_def sq_contents_def split: option.splits)
qed

lemma submit_all_sq:
  assumes "submit_all sqs ret (env, s) = Some (ret', (env', s'))" and "locked_env env"
  shows "same_sq (ring s) (ring s')"
  using assms
proof (induction sqs arbitrary: ret env s)
  case (Cons sqe rest)
  then obtain ok env1 s1 where o: "submit_sqe sqe (env, s) = Some (ok, (env1, s1))"
    and rec: "submit_all rest (if ok then ret + 1 else ret) (env1, s1) = Some (ret', (env', s'))"
    by (auto split: option.splits)
  from submit_sqe_sq [OF o Cons.prems(2)] Cons.IH [OF rec] show ?case by (auto intro: same_sq_trans)
qed simp

text \<open>
  C15: \<open>gw_ring_submit\<close>, while the other threads respect \<open>sq_lock\<close>, is the submission of the queued
  requests one by one, oldest first: the index loop refines the fold over the queue's contents. When it
  returns the submission queue is empty, unless the ring is being stopped: then it submits nothing.
\<close>

theorem gw_ring_submit_refines:
  assumes "locked_env (fst st)"
  shows "gw_ring_submit st =
    (if ring_should_stop (ring (snd st)) then Some (- EOWNERDEAD, st)
     else map_option (\<lambda>(ret, (env, s)). (ret, (env, s\<lparr>ring := (ring s)\<lparr>sq_head := sq_tail (ring (snd st))\<rparr>\<rparr>)))
            (submit_all (sq_contents (ring (snd st))) 0 st)) \<and>
    (case gw_ring_submit st of
       None \<Rightarrow> True
     | Some (ret, (env, s)) \<Rightarrow> ring_should_stop (ring (snd st)) \<or> sq_contents (ring s) = [])"
proof -
  obtain env s where st: "st = (env, s)" by (cases st)
  note eq = submit_refines [OF assms]
  have "sq_contents (ring s1) = []"
    if live: "\<not> ring_should_stop (ring s)" and run: "gw_ring_submit st = Some (ret, (env1, s1))" for ret env1 s1
  proof -
    obtain s2 where all: "submit_all (sq_contents (ring s)) 0 (env, s) = Some (ret, (env1, s2))"
      and s1: "s1 = s2\<lparr>ring := (ring s2)\<lparr>sq_head := sq_tail (ring s)\<rparr>\<rparr>"
      using eq live run by (auto simp: st)
    have "locked_env env" using assms by (simp add: st)
    from submit_all_sq [OF all this] have "sq_tail (ring s2) = sq_tail (ring s)" by (simp add: same_sq_def)
    then show ?thesis by (simp add: s1 sq_contents_Nil_iff)
  qed
  with eq show ?thesis by (auto simp: st split: option.splits)
qed

lemma cq_room_push:
  assumes "cq_ok r" and "unat (cq_tail r - cq_head r) < length (cqes r)"
  shows "unat (cq_tail (cq_push x r) - cq_head (cq_push x r)) = Suc (unat (cq_tail r - cq_head r))"
  using cq_push_ok [OF assms, of x] by (metis length_append_singleton length_cq_contents)

lemma submit_all_nops:
  assumes "\<forall>sqe \<in> set sqs. sqe_op sqe = GW_RING_OP_NOP" and "cq_ok (ring s)"
    and "cq_unwrapped (ring s)" and "unat (cq_tail (ring s)) + length sqs < 2 ^ 32"
    and "k = min (length sqs) (length (cqes (ring s)) - length (cq_contents (ring s)))"
  shows "\<exists>s'. submit_all sqs ret (env, s) = Some (ret + int k, (env, s')) \<and>
    cq_contents (ring s') = cq_contents (ring s) @ map (\<lambda>sqe. cqe_of sqe 0) (take k sqs)"
  using assms
proof (induction sqs arbitrary: s ret k)
  case (Cons sqe rest)
  note cq = Cons.prems(2)
  let ?r = "ring s"
  have nop: "sqe_op sqe = GW_RING_OP_NOP" and nops: "\<forall>sqe \<in> set rest. sqe_op sqe = GW_RING_OP_NOP"
    using Cons.prems(1) by simp_all
  show ?case
  proof (cases "unat (cq_tail ?r - cq_head ?r) < length (cqes ?r)")
    case True
    let ?r1 = "cq_push (cqe_of sqe 0) ?r"
    define s1 where "s1 = s\<lparr>ring := ?r1, ring_events := ring_events s @ wake_up_wait_cqe_callers ?r\<rparr>"
    have step: "submit_sqe sqe (env, s) = Some (True, (env, s1))"
      using True nop Cons.prems(3)
      by (simp add: submit_sqe_def issue_op_nop_def post_in_def post_cqe_cases [OF cq] s1_def)
    from cq_push_ok [OF cq True, of "cqe_of sqe 0"] have ok1: "cq_ok (ring s1)"
      and c1: "cq_contents (ring s1) = cq_contents ?r @ [cqe_of sqe 0]" by (simp_all add: s1_def)
    have small: "unat (cq_tail ?r) < 2 ^ 32 - 1" using Cons.prems(4) by simp
    note unw = cq_unwrapped_push [OF Cons.prems(3) small, of "cqe_of sqe 0"]
    have unw1: "cq_unwrapped (ring s1)" and t1: "unat (cq_tail (ring s1)) + length rest < 2 ^ 32"
      using unw Cons.prems(4) by (simp_all add: s1_def)
    obtain k1 where k1: "k1 = min (length rest) (length (cqes (ring s1)) - length (cq_contents (ring s1)))"
      by simp
    have "length (cqes (ring s1)) = length (cqes ?r)" by (simp add: s1_def cq_push_def)
    moreover have "length (cq_contents (ring s1)) = Suc (length (cq_contents ?r))" by (simp only: c1) simp
    ultimately have k: "k = Suc k1" using True Cons.prems(5) unfolding k1 length_cq_contents by simp
    from Cons.IH [OF nops ok1 unw1 t1 k1, of "ret + 1"] obtain s' where
      "submit_all rest (ret + 1) (env, s1) = Some (ret + 1 + int k1, (env, s'))"
      "cq_contents (ring s') = cq_contents (ring s1) @ map (\<lambda>sqe. cqe_of sqe 0) (take k1 rest)"
      by blast
    with step c1 k show ?thesis by simp
  next
    case False
    then have step: "submit_sqe sqe (env, s) = Some (False, (env, s))"
      using nop by (simp add: submit_sqe_def issue_op_nop_def post_in_def post_cqe_cases [OF cq])
    from False cq Cons.prems(5) have k: "k = 0" by simp
    then have k0: "0 = min (length rest) (length (cqes ?r) - length (cq_contents ?r))"
      using False by simp
    have t: "unat (cq_tail ?r) + length rest < 2 ^ 32" using Cons.prems(4) by simp
    from Cons.IH [OF nops cq Cons.prems(3) t k0, of ret] step k show ?thesis by simp
  qed
qed auto

text \<open>
  Submitting no-ops completes them on the spot: as many as the completion queue has room for are
  posted, in the order of submission and with their user data, that number is returned, the rest is
  dropped, and the submission queue is empty.
\<close>

lemma gw_ring_submit_nops:
  assumes "ring_ok (ring s)" and "\<not> ring_should_stop (ring s)" and "locked_env env"
    and "\<forall>sqe \<in> set (sq_contents (ring s)). sqe_op sqe = GW_RING_OP_NOP"
    and "cq_unwrapped (ring s)" and "unat (cq_tail (ring s)) + length (sq_contents (ring s)) < 2 ^ 32"
    and "k = min (length (sq_contents (ring s))) (length (cqes (ring s)) - length (cq_contents (ring s)))"
  shows "\<exists>s'. gw_ring_submit (env, s) = Some (int k, (env, s')) \<and> sq_contents (ring s') = [] \<and>
    cq_contents (ring s') = cq_contents (ring s) @
      map (\<lambda>sqe. cqe_of sqe 0) (take k (sq_contents (ring s)))"
proof -
  have cq: "cq_ok (ring s)" using assms(1) by (simp add: ring_ok_def)
  from submit_all_nops [OF assms(4) cq assms(5-7), of 0 env] obtain s1 where
    a: "submit_all (sq_contents (ring s)) 0 (env, s) = Some (int k, (env, s1))"
    and c: "cq_contents (ring s1) = cq_contents (ring s) @
      map (\<lambda>sqe. cqe_of sqe 0) (take k (sq_contents (ring s)))"
    by auto
  let ?s' = "s1\<lparr>ring := (ring s1)\<lparr>sq_head := sq_tail (ring s)\<rparr>\<rparr>"
  from submit_loop_all [of "ring s" s env "sq_head (ring s)" 0] assms(3) a assms(2)
  have "gw_ring_submit (env, s) = Some (int k, (env, ?s'))"
    by (simp add: gw_ring_submit_def sq_contents_def)
  moreover have "sq_tail (ring s1) = sq_tail (ring s)"
    using submit_all_sq [OF a assms(3)] by (simp add: same_sq_def)
  then have "sq_contents (ring ?s') = []" by (simp add: sq_contents_Nil_iff)
  moreover have "cq_contents (ring ?s') = cq_contents (ring s1)" by (simp add: cq_contents_def)
  ultimately show ?thesis using c by auto
qed

text \<open>Surroundings in which everything succeeds at once, and the shared memory around a ring.\<close>

definition quiet_env :: io_env where
  "quiet_env = \<lparr>io_mallocs = [], io_spawn = (\<lambda>_. 0), io_others = []\<rparr>"

definition fresh_sys :: "gw_ring \<Rightarrow> ring_sys" where
  "fresh_sys r = \<lparr>ring = r, datas = [], freed_updates = [], ring_events = [], wq_events = []\<rparr>"

lemma quiet_locked [simp]: "locked_env quiet_env"
  by (simp add: locked_env_def quiet_env_def)

definition two_nops :: gw_ring where
  "two_nops = sq_push (zero_sqe\<lparr>sqe_user_data := 2\<rparr>) (sq_push (zero_sqe\<lparr>sqe_user_data := 1\<rparr>) sample_ring)"

lemma two_nops_ok: "ring_ok two_nops"
  and two_nops_contents: "sq_contents two_nops = [zero_sqe\<lparr>sqe_user_data := 1\<rparr>, zero_sqe\<lparr>sqe_user_data := 2\<rparr>]"
proof -
  have sq: "sq_ok sample_ring" "cq_ok sample_ring" "wq_ok (ring_wq sample_ring)"
    using sample_ring_ok by (simp_all add: ring_ok_def)
  let ?r1 = "sq_push (zero_sqe\<lparr>sqe_user_data := 1\<rparr>) sample_ring"
  have 1: "sq_ok ?r1" "sq_contents ?r1 = [zero_sqe\<lparr>sqe_user_data := 1\<rparr>]"
    using sq_push_ok [OF sq(1)] by simp_all
  have "unat (sq_tail ?r1 - sq_head ?r1) < length (sqes ?r1)" by (simp add: sq_push_def)
  from sq_push_ok [OF 1(1) this, of "zero_sqe\<lparr>sqe_user_data := 2\<rparr>"] 1 sq
  show "ring_ok two_nops"
    "sq_contents two_nops = [zero_sqe\<lparr>sqe_user_data := 1\<rparr>, zero_sqe\<lparr>sqe_user_data := 2\<rparr>]"
    by (simp_all add: two_nops_def ring_ok_def)
qed

theorem gw_ring_submit_refines_witness:
  "\<exists>s'. gw_ring_submit (quiet_env, fresh_sys two_nops) = Some (2, (quiet_env, s')) \<and>
     sq_contents (ring s') = [] \<and> map cqe_user_data (cq_contents (ring s')) = [1, 2]"
proof -
  let ?s = "fresh_sys two_nops"
  have r: "ring ?s = two_nops" by (simp add: fresh_sys_def)
  have cq: "cq_ok two_nops" "cq_contents two_nops = []" "cq_unwrapped two_nops" "\<not> ring_should_stop two_nops"
      "unat (cq_tail two_nops) + length (sq_contents two_nops) < 2 ^ 32" "length (cqes two_nops) = 4"
    using two_nops_ok
    by (simp_all add: two_nops_def ring_ok_def cq_contents_def cq_unwrapped_def sample_ring_def fresh_ring_def sq_push_def)
  have nops: "\<forall>sqe \<in> set (sq_contents two_nops). sqe_op sqe = GW_RING_OP_NOP"
    by (simp add: two_nops_contents zero_sqe_def ring_op_defs)
  have k: "2 = min (length (sq_contents two_nops)) (length (cqes two_nops) - length (cq_contents two_nops))"
    unfolding two_nops_contents cq(2,6) by simp
  from submit_all_nops [of _ ?s, unfolded r, OF nops cq(1,3,5) k, of 0 quiet_env] obtain s1 where
    all: "submit_all (sq_contents two_nops) 0 (quiet_env, ?s) = Some (2, (quiet_env, s1))"
    and c: "cq_contents (ring s1) = map (\<lambda>sqe. cqe_of sqe 0) (take 2 (sq_contents two_nops))"
    by (auto simp: cq(2))
  let ?s' = "s1\<lparr>ring := (ring s1)\<lparr>sq_head := sq_tail two_nops\<rparr>\<rparr>"
  have l: "locked_env (fst (quiet_env, ?s))" by simp
  have run: "gw_ring_submit (quiet_env, ?s) = Some (2, (quiet_env, ?s'))"
    using gw_ring_submit_refines [OF l, THEN conjunct1] all cq(4) by (simp add: r)
  note c2 = gw_ring_submit_refines [OF l, THEN conjunct2, unfolded run option.case prod.case snd_conv r]
  have e: "sq_contents (ring ?s') = []" using c2 by (rule disjE) (use cq(4) in blast)
  have "cq_contents (ring ?s') = cq_contents (ring s1)" by (simp add: cq_contents_def)
  then have "map cqe_user_data (cq_contents (ring ?s')) = [1, 2]"
    unfolding c two_nops_contents by (simp add: cqe_of_def)
  with run e show ?thesis by (intro exI [of _ ?s'] conjI)
qed

section \<open>Submitting requests for the workers\<close>

text \<open>A running work queue with room for \<open>n\<close> more works before it is full or its indices wrap.\<close>

definition wq_room :: "nat \<Rightarrow> workqueue_struct \<Rightarrow> bool" where
  "wq_room n wq = (wq_ok wq \<and> \<not> should_stop wq \<and> \<not> queue_is_blocked wq \<and> wq_head wq \<le> wq_tail wq \<and>
     unat (wq_tail wq) + n < 2 ^ 32 \<and> length (wq_contents wq) + n \<le> length (work_list wq))"

lemma queue_work_pass_room:
  assumes "wq_room (Suc n) wq"
  obtains wq' ev where "queue_work_pass tc work wq = (Some 0, wq', ev)" and "wq_room n wq'"
    and "wq_contents wq' = wq_contents wq @ [work]"
proof -
  obtain ret wq' ev where t: "try_queue_work_locked tc work wq = (ret, wq', ev)" by (metis prod_cases3)
  have ok: "wq_ok wq" and run: "\<not> should_stop wq" "\<not> queue_is_blocked wq" and le: "wq_head wq \<le> wq_tail wq"
    and room: "length (wq_contents wq) + Suc n \<le> length (work_list wq)"
    and t32: "unat (wq_tail wq) + Suc n < 2 ^ 32"
    using assms by (simp_all add: wq_room_def)
  have "length (wq_contents wq) \<noteq> length (work_list wq)" "\<not> wq_tail wq < wq_head wq"
    using room le by (simp_all add: not_less)
  with try_queue_work_locked_cases [OF ok t] run have ret: "ret = 0" and ok': "wq_ok wq'"
    and c: "wq_contents wq' = wq_contents wq @ [work]"
    and p: "wq' = (wq_push work wq)\<lparr>workers := workers wq'\<rparr>" by blast+
  have u: "unat (wq_tail wq + 1) = Suc (unat (wq_tail wq))" by (rule unat_plus_one) (use t32 in simp)
  have f: "should_stop wq' = should_stop wq" "queue_is_blocked wq' = queue_is_blocked wq"
      "wq_head wq' = wq_head wq" "wq_tail wq' = wq_tail wq + 1" "length (work_list wq') = length (work_list wq)"
    by (subst p, simp add: wq_push_def)+
  have "length (wq_contents wq') = Suc (length (wq_contents wq))" by (simp only: c length_append_singleton)
  with f ok' run room t32 le u have "wq_room n wq'"
    by (simp add: wq_room_def word_le_nat_alt del: wq_contents_length)
  moreover have "queue_work_pass tc work wq = (Some 0, wq', ev)"
    using t ret by (simp add: queue_work_pass_def EAGAIN_def)
  ultimately show ?thesis using c that by blast
qed

text \<open>The work that a request in the block \<open>d\<close> becomes, and the requests that become works.\<close>

definition punted_work :: "ptr \<Rightarrow> work_struct" where
  "punted_work d = \<lparr>func = GW_RING_WQ_SQE_EXEC, arg = d, deleter = GW_RING_WQ_SQE_DELETE\<rparr>"

definition is_punted :: "gw_ring_sqe \<Rightarrow> bool" where
  "is_punted sqe = (sqe_op sqe \<in> {GW_RING_OP_TG_API_CALL, GW_RING_OP_MODULE_HANDLE})"

lemma submit_sqe_room:
  assumes "is_punted sqe" and "io_mallocs env = []" and "wq_room (Suc n) (ring_wq (ring s))"
  obtains wq' ev where
    "submit_sqe sqe (env, s) = Some (True, (env, s\<lparr>ring := (ring s)\<lparr>ring_wq := wq'\<rparr>,
       datas := (fresh_ptr (datas s), sqe) # datas s, wq_events := wq_events s @ ev\<rparr>))"
    and "wq_room n wq'" and "wq_contents wq' = wq_contents (ring_wq (ring s)) @ [punted_work (fresh_ptr (datas s))]"
proof -
  let ?d = "fresh_ptr (datas s)"
  obtain wq' ev where p: "queue_work_pass (io_spawn env) (punted_work ?d) (ring_wq (ring s)) = (Some 0, wq', ev)"
    "wq_room n wq'" "wq_contents wq' = wq_contents (ring_wq (ring s)) @ [punted_work ?d]"
    using queue_work_pass_room [OF assms(3)] by blast
  let ?s = "s\<lparr>ring := (ring s)\<lparr>ring_wq := wq'\<rparr>, datas := (?d, sqe) # datas s, wq_events := wq_events s @ ev\<rparr>"
  have env: "env\<lparr>io_mallocs := []\<rparr> = env" "env\<lparr>io_others := io_others env\<rparr> = env" using assms(2) by simp_all
  have "punt_to_io_wq sqe (env, s) = Some (True, (env, ?s))"
    using p(1) assms(2) env by (simp add: punt_to_io_wq_def ring_queue_work.simps punted_work_def Let_def)
  then have "submit_sqe sqe (env, s) = Some (True, (env, ?s))"
    using assms(1)
    by (auto simp: submit_sqe_def is_punted_def issue_op_tg_api_call_def issue_op_module_handle_def ring_op_defs)
  with p(2,3) that show ?thesis by blast
qed

text \<open>What submitting the requests \<open>sqs\<close> does: a new block for each of them, and its work.\<close>

definition punted :: "gw_ring_sqe list \<Rightarrow> ptr list \<Rightarrow> ring_sys \<Rightarrow> ring_sys \<Rightarrow> bool" where
  "punted sqs ds s s' =
     (length ds = length sqs \<and> distinct ds \<and> (\<forall>d \<in> set ds. map_of (datas s) d = None) \<and>
      map_of (datas s') = map_of (datas s) ++ map_of (zip ds sqs) \<and>
      wq_contents (ring_wq (ring s')) = wq_contents (ring_wq (ring s)) @ map punted_work ds)"

lemma submit_all_punted:
  assumes "\<forall>sqe \<in> set sqs. is_punted sqe" and "io_mallocs env = []" and "wq_room (length sqs) (ring_wq (ring s))"
  shows "\<exists>s' ds q. submit_all sqs ret (env, s) = Some (ret + int (length sqs), (env, s')) \<and>
    punted sqs ds s s' \<and> ring s' = (ring s)\<lparr>ring_wq := q\<rparr>"
  using assms
proof (induction sqs arbitrary: s ret)
  case Nil
  have "punted [] [] s s" by (simp add: punted_def)
  then show ?case by (intro exI [of _ s] exI [of _ "[]"] exI [of _ "ring_wq (ring s)"]) simp
next
  case (Cons sqe rest)
  let ?d = "fresh_ptr (datas s)"
  have "is_punted sqe" "wq_room (Suc (length rest)) (ring_wq (ring s))" using Cons.prems by simp_all
  from submit_sqe_room [OF this(1) Cons.prems(2) this(2)] obtain wq' ev where
    step: "submit_sqe sqe (env, s) = Some (True, (env, s\<lparr>ring := (ring s)\<lparr>ring_wq := wq'\<rparr>,
       datas := (?d, sqe) # datas s, wq_events := wq_events s @ ev\<rparr>))"
    and room: "wq_room (length rest) wq'"
    and c: "wq_contents wq' = wq_contents (ring_wq (ring s)) @ [punted_work ?d]" .
  let ?s1 = "s\<lparr>ring := (ring s)\<lparr>ring_wq := wq'\<rparr>, datas := (?d, sqe) # datas s, wq_events := wq_events s @ ev\<rparr>"
  have room1: "wq_room (length rest) (ring_wq (ring ?s1))" and rest: "\<forall>sqe \<in> set rest. is_punted sqe"
    using room Cons.prems(1) by simp_all
  from Cons.IH [OF rest Cons.prems(2) room1, of "ret + 1"] obtain s' ds q where
    rec: "submit_all rest (ret + 1) (env, ?s1) = Some (ret + 1 + int (length rest), (env, s'))"
    and p: "punted rest ds ?s1 s'" and q: "ring s' = (ring ?s1)\<lparr>ring_wq := q\<rparr>" by blast
  have nd: "?d \<notin> set ds" and old: "\<forall>d \<in> set ds. map_of (datas s) d = None"
    using p by (auto simp: punted_def split: if_splits)
  then have "map_of (zip ds rest) ?d = None" by (auto simp: map_of_eq_None_iff dest: set_zip_leftD)
  then have "?d \<notin> dom (map_of (zip ds rest))" by (simp add: domIff)
  from map_add_upd_left [OF this, of "map_of (datas s)" sqe]
  have "map_of (datas s) ++ map_of (zip (?d # ds) (sqe # rest)) = map_of (datas ?s1) ++ map_of (zip ds rest)"
    by simp
  with p c nd old have "punted (sqe # rest) (?d # ds) s s'" by (simp add: punted_def)
  moreover have "ring s' = (ring s)\<lparr>ring_wq := q\<rparr>" using q by simp
  moreover have "submit_all (sqe # rest) ret (env, s) = Some (ret + int (length (sqe # rest)), (env, s'))"
    using step rec by (simp add: algebra_simps)
  ultimately show ?case by blast
qed

text \<open>
  Submitting requests for the workers, while memory does not run out and the work queue has room.
  Every request gets a block of its own that holds it, the works on these blocks are appended to the work queue in
  the order of submission, all are counted in the result, nothing is posted, and the submission queue is empty.
\<close>

lemma submit_punts:
  assumes "\<not> ring_should_stop (ring s)" and "locked_env env" and "io_mallocs env = []"
    and "\<forall>sqe \<in> set (sq_contents (ring s)). is_punted sqe"
    and "wq_room (length (sq_contents (ring s))) (ring_wq (ring s))"
  shows "\<exists>s' ds. gw_ring_submit (env, s) = Some (int (length (sq_contents (ring s))), (env, s')) \<and>
    punted (sq_contents (ring s)) ds s s' \<and> sq_contents (ring s') = [] \<and>
    cq_contents (ring s') = cq_contents (ring s) \<and>
    (\<exists>q. ring s' = (ring s)\<lparr>ring_wq := q, sq_head := sq_tail (ring s)\<rparr>)"
proof -
  from submit_all_punted [OF assms(4,3,5), of 0] obtain s1 ds q where
    a: "submit_all (sq_contents (ring s)) 0 (env, s) = Some (int (length (sq_contents (ring s))), (env, s1))"
    and p: "punted (sq_contents (ring s)) ds s s1" and q: "ring s1 = (ring s)\<lparr>ring_wq := q\<rparr>" by auto
  let ?s' = "s1\<lparr>ring := (ring s1)\<lparr>sq_head := sq_tail (ring s)\<rparr>\<rparr>"
  have "gw_ring_submit (env, s) = Some (int (length (sq_contents (ring s))), (env, ?s'))"
    using submit_refines [of "(env, s)"] assms(1,2) a by simp
  moreover have "punted (sq_contents (ring s)) ds s ?s'" using p by (simp add: punted_def)
  moreover have "sq_contents (ring ?s') = []" "cq_contents (ring ?s') = cq_contents (ring s)"
    "ring ?s' = (ring s)\<lparr>ring_wq := q, sq_head := sq_tail (ring s)\<rparr>"
    by (simp_all add: q sq_contents_Nil_iff cq_contents_def)
  ultimately show ?thesis by blast
qed

lemma sample_wq_room: "wq_room 2 sample_wq"
  using sample_wq_ok by (simp add: wq_room_def)

section \<open>Who owns a request\<close>

text \<open>Other threads keep the work queue well formed and do not touch the block at \<open>d\<close>.\<close>

definition respects_block :: "ptr \<Rightarrow> (ring_sys \<Rightarrow> ring_sys) \<Rightarrow> bool" where
  "respects_block d f =
     (\<forall>s. (wq_ok (ring_wq (ring s)) \<longrightarrow> wq_ok (ring_wq (ring (f s)))) \<and>
        map_of (datas (f s)) d = map_of (datas s) d)"

lemma ring_queue_work_outcome:
  assumes "ring_queue_work tc others w s = Some (ret, os, s')" and "wq_ok (ring_wq (ring s))"
    and "\<forall>f \<in> set others. respects_block d f"
  shows "map_of (datas s') d = map_of (datas s) d \<and> wq_ok (ring_wq (ring s')) \<and>
    (ret = - EOWNERDEAD \<or> ret = 0 \<and> (\<exists>cs. wq_contents (ring_wq (ring s')) = cs @ [w]))"
  using assms
proof (induction tc others w s rule: ring_queue_work.induct)
  case (1 tc others w s)
  obtain ro q ev where p: "queue_work_pass tc w (ring_wq (ring s)) = (ro, q, ev)"
    by (metis prod_cases3)
  let ?s1 = "s\<lparr>ring := (ring s)\<lparr>ring_wq := q\<rparr>, wq_events := wq_events s @ ev\<rparr>"
  note call = "1.prems"(1) [unfolded ring_queue_work.simps [of tc others w s] p prod.case Let_def]
  obtain ret1 q1 ev1 where t: "try_queue_work_locked tc w (ring_wq (ring s)) = (ret1, q1, ev1)"
    by (metis prod_cases3)
  note cases = try_queue_work_locked_cases [OF "1.prems"(2) t]
  have neg: "EOWNERDEAD \<noteq> EAGAIN" "0 \<le> EOWNERDEAD" "0 \<noteq> - EAGAIN" by (simp_all add: errno_defs)
  show ?case
  proof (cases ro)
    case (Some r)
    with call have eqs: "ret = r" "s' = ?s1" by simp_all
    from p t cases neg Some "1.prems"(2) have
      "wq_ok q" "r = - EOWNERDEAD \<or> r = 0 \<and> wq_contents q = wq_contents (ring_wq (ring s)) @ [w]"
      by (elim disjE conjE; simp add: queue_work_pass_def Let_def)+
    then show ?thesis unfolding eqs by auto
  next
    case None
    from p t cases neg None "1.prems"(2) have q: "wq_ok q"
      by (elim disjE conjE; auto simp: queue_work_pass_def Let_def)
    show ?thesis
    proof (cases others)
      case Nil
      with call None show ?thesis by simp
    next
      case (Cons other rest)
      let ?s2 = "other ?s1"
      let ?s3 = "?s2\<lparr>ring := (ring ?s2)\<lparr>ring_wq := queue_work_woken (ring_wq (ring ?s2))\<rparr>\<rparr>"
      have rec: "ring_queue_work tc rest w ?s3 = Some (ret, os, s')"
        using call None Cons by simp
      have resp: "respects_block d other" "\<forall>f \<in> set rest. respects_block d f"
        using "1.prems"(3) Cons by simp_all
      have "wq_ok (ring_wq (ring ?s1))" using q by simp
      then have "wq_ok (ring_wq (ring ?s2))" "map_of (datas ?s2) d = map_of (datas ?s1) d"
        using resp(1) unfolding respects_block_def by blast+
      then have "wq_ok (ring_wq (ring ?s3))" "map_of (datas ?s3) d = map_of (datas s) d"
        by (simp_all add: queue_work_woken_def)
      from "1.IH" [OF p [symmetric] refl refl None Cons refl rec this(1) resp(2)] this(2)
      show ?thesis by simp
    qed
  qed
qed

text \<open>
  \<open>punt_to_io_wq\<close>, whatever \<open>malloc\<close> and the other threads do (they keep the queue well formed and
  the new block alone): on success exactly one new block holds a copy of the request and the last pending
  work of the queue is the pair of ring callbacks on that block; on failure the block is gone again.
\<close>

lemma punt_to_io_wq_spec:
  assumes "punt_to_io_wq sqe (env, s) = Some (ok, (env', s'))" and "wq_ok (ring_wq (ring s))"
    and "\<forall>f \<in> set (io_others env). respects_block (fresh_ptr (datas s)) f"
  shows "if ok
    then map_of (datas s') (fresh_ptr (datas s)) = Some sqe \<and>
      (\<exists>cs. wq_contents (ring_wq (ring s')) =
         cs @ [\<lparr>func = GW_RING_WQ_SQE_EXEC, arg = fresh_ptr (datas s), deleter = GW_RING_WQ_SQE_DELETE\<rparr>])
    else map_of (datas s') (fresh_ptr (datas s)) = None"
proof (cases "fst (next_alloc (io_mallocs env))")
  case False
  with assms(1) have "\<not> ok" "s' = s"
    by (auto simp: punt_to_io_wq_def Let_def split: prod.splits)
  then show ?thesis by simp
next
  case True
  let ?d = "fresh_ptr (datas s)"
  let ?s1 = "s\<lparr>datas := (?d, sqe) # datas s\<rparr>"
  let ?w = "\<lparr>func = GW_RING_WQ_SQE_EXEC, arg = ?d, deleter = GW_RING_WQ_SQE_DELETE\<rparr>"
  from True assms(1) obtain ret os s2 where
    q: "ring_queue_work (io_spawn env) (io_others env) ?w ?s1 = Some (ret, os, s2)"
    and ok: "ok = (\<not> ret < 0)"
    and s': "s' = (if ret < 0 then s2\<lparr>datas := heap_free ?d (datas s2)\<rparr> else s2)"
    by (auto simp: punt_to_io_wq_def Let_def split: prod.splits option.splits if_splits)
  have "wq_ok (ring_wq (ring ?s1))" using assms(2) by simp
  from ring_queue_work_outcome [OF q this assms(3)] have
    "map_of (datas s2) ?d = Some sqe" "ret = - EOWNERDEAD \<or> ret = 0 \<and> (\<exists>cs. wq_contents (ring_wq (ring s2)) = cs @ [?w])"
    by simp_all
  then show ?thesis unfolding ok s' by (auto simp: EOWNERDEAD_def)
qed

definition sample_punt :: gw_ring_sqe where
  "sample_punt = gw_ring_prep_tg_module_handle 8 9 zero_sqe"

text \<open>A request whose union holds the member its operation reads.\<close>

definition sqe_ok :: "gw_ring_sqe \<Rightarrow> bool" where
  "sqe_ok sqe =
     ((sqe_op sqe = GW_RING_OP_TG_API_CALL \<longrightarrow> sqe_api_call sqe \<noteq> None) \<and>
      (sqe_op sqe = GW_RING_OP_MODULE_HANDLE \<longrightarrow> sqe_module_handle sqe \<noteq> None))"

definition updates_of :: "gw_ring_sqe \<Rightarrow> ptr list" where
  "updates_of sqe =
     (if sqe_op sqe = GW_RING_OP_MODULE_HANDLE
      then case sqe_module_handle sqe of Some h \<Rightarrow> [handle_update h] | None \<Rightarrow> [] else [])"

text \<open>The result a request is completed with.\<close>

definition result_of :: "(io_call \<Rightarrow> int) \<Rightarrow> gw_ring_sqe \<Rightarrow> int" where
  "result_of run sqe =
     (case sqe_union sqe of
        U_tg_api_call c \<Rightarrow>
          if sqe_op sqe = GW_RING_OP_NOP then 0
          else if call_op c = TG_API_GET_UPDATES then run (Call_get_updates c) else - EOPNOTSUPP
      | U_tg_module_handle h \<Rightarrow>
          if sqe_op sqe = GW_RING_OP_NOP then 0 else run (Call_module_handle h)
      | U_zero \<Rightarrow> 0)"

text \<open>
  C16: the worker's side of a punted request. Running \<open>gw_ring_wq_sqe_exec\<close> and then
  \<open>gw_ring_wq_sqe_delete\<close> on the block of a well-formed request posts one completion with its
  result (if the queue has room), frees the block and nothing else, and hands the update of a module request
  to \<open>tgapi_free_update\<close> exactly once.
\<close>

theorem sqe_lifecycle:
  assumes "map_of (datas s) d = Some sqe" and "sqe_ok sqe"
    and "sqe_op sqe \<in> {GW_RING_OP_NOP, GW_RING_OP_TG_API_CALL, GW_RING_OP_MODULE_HANDLE}"
  shows "\<exists>s1 s2. gw_ring_wq_sqe_exec run d s = Some s1 \<and> gw_ring_wq_sqe_delete d s1 = Some s2 \<and>
    ring s2 = fst (snd (post_cqe sqe (word_of_int (result_of run sqe)) (ring s))) \<and>
    map_of (datas s2) = (map_of (datas s))(d := None) \<and>
    freed_updates s2 = freed_updates s @ updates_of sqe"
proof -
  define s1 where "s1 = snd (post_in sqe (word_of_int (result_of run sqe)) s)"
  have s1: "datas s1 = datas s" "freed_updates s1 = freed_updates s"
      "ring s1 = fst (snd (post_cqe sqe (word_of_int (result_of run sqe)) (ring s)))"
    by (simp_all add: s1_def post_in_def split: prod.splits)
  have exec: "gw_ring_wq_sqe_exec run d s = Some s1"
    using assms
    by (cases "sqe_union sqe")
      (auto simp: gw_ring_wq_sqe_exec_def s1_def exec_tg_api_call_def exec_module_handle_def
        result_of_def issue_op_nop_def sqe_ok_def ring_op_defs)
  let ?s2 = "s1\<lparr>datas := heap_free d (datas s1), freed_updates := freed_updates s @ updates_of sqe\<rparr>"
  have "gw_ring_wq_sqe_delete d s1 = Some ?s2"
    using assms
    by (cases "sqe_union sqe")
      (auto simp: gw_ring_wq_sqe_delete_def s1(1,2) free_sqe_update_def updates_of_def sqe_ok_def)
  moreover have "map_of (datas ?s2) = (map_of (datas s))(d := None)" by (auto simp: s1)
  ultimately show ?thesis using exec s1(3) by (intro exI [of _ s1] exI [of _ ?s2]) simp
qed

theorem sqe_lifecycle_witness:
  "\<exists>s1 s2. gw_ring_wq_sqe_exec (\<lambda>_. 3) 1 ((fresh_sys sample_ring)\<lparr>datas := [(1, sample_punt)]\<rparr>) = Some s1 \<and>
     gw_ring_wq_sqe_delete 1 s1 = Some s2 \<and> map_of (datas s2) = Map.empty \<and> freed_updates s2 = [9]"
proof -
  let ?s = "(fresh_sys sample_ring)\<lparr>datas := [(1, sample_punt)]\<rparr>"
  have "sqe_ok sample_punt"
    by (simp add: sqe_ok_def sample_punt_def gw_ring_prep_tg_module_handle_def ring_op_defs)
  moreover have "sqe_op sample_punt \<in> {GW_RING_OP_NOP, GW_RING_OP_TG_API_CALL, GW_RING_OP_MODULE_HANDLE}"
    by (simp add: sample_punt_def gw_ring_prep_tg_module_handle_def)
  moreover have "updates_of sample_punt = [9]"
    by (simp add: updates_of_def sample_punt_def gw_ring_prep_tg_module_handle_def)
  ultimately show ?thesis
    using sqe_lifecycle [of ?s 1 sample_punt "\<lambda>_. 3"] by (auto simp: fresh_sys_def)
qed

end
