(* ===== verification/RingSys.thy ===== *)
theory RingSys
  imports Ring GwSteps
begin

text \<open>
  The completion queue of core/ring.c under its threads: workers that post completions, threads in
  \<open>gw_ring_wait_cqe\<close>, a consumer that advances the head over what it has visited, and
  \<open>gw_ring_destroy\<close>. A step is one section under \<open>cq_lock\<close>, or a spurious wake-up. The invariant
  holds until the ring has taken \<open>2 ^ 32\<close> completions; what happens when the tail wraps after that is
  shown in theory Ring.
\<close>

section \<open>Steps\<close>

datatype cqe_waiter = Cw_idle | Cw_asleep | Cw_woken

text \<open>\<open>posted\<close> counts the completions stored so far; no step depends on it.\<close>

record cq_sys =
  the_ring :: gw_ring
  waiters :: "cqe_waiter list"
  posted :: nat

definition cq_events :: "ring_event list \<Rightarrow> cqe_waiter list \<Rightarrow> cqe_waiter list" where
  "cq_events evs ws = (if evs = [] then ws else wake_all ((=) Cw_asleep) (\<lambda>_. Cw_woken) ws)"

definition do_post :: "gw_ring_sqe \<Rightarrow> i64 \<Rightarrow> cq_sys \<Rightarrow> cq_sys" where
  "do_post sqe res s =
     (let (ok, r, ev) = post_cqe sqe res (the_ring s)
      in s\<lparr>the_ring := r, waiters := cq_events ev (waiters s), posted := (if ok then posted s + 1 else posted s)\<rparr>)"

definition do_wait :: "nat \<Rightarrow> gw_ring \<Rightarrow> cq_sys \<Rightarrow> cq_sys" where
  "do_wait k r s =
     (let (ro, r1) = wait_cqe_pass r
      in s\<lparr>the_ring := r1, waiters := (waiters s)[k := (if ro = None then Cw_asleep else Cw_idle)]\<rparr>)"

definition do_ring_destroy :: "cq_sys \<Rightarrow> cq_sys" where
  "do_ring_destroy s =
     (let (r, ev) = gw_ring_destroy_locked (the_ring s)
      in s\<lparr>the_ring := r, waiters := cq_events ev (waiters s)\<rparr>)"

datatype cq_action = A_post | A_wait nat | A_advance | A_destroy | A_spurious

inductive cq_step :: "cq_sys \<Rightarrow> cq_action \<Rightarrow> cq_sys \<Rightarrow> bool" where
  post: "cq_step s A_post (do_post sqe res s)"
| wait_call: "k < length (waiters s) \<Longrightarrow> waiters s ! k = Cw_idle \<Longrightarrow>
     cq_step s (A_wait k) (do_wait k (the_ring s) s)"
| wait_woken: "k < length (waiters s) \<Longrightarrow> waiters s ! k = Cw_woken \<Longrightarrow>
     cq_step s (A_wait k) (do_wait k (wait_cqe_woken (the_ring s)) s)"
| advance: "unat n \<le> length (cq_contents (the_ring s)) \<Longrightarrow>
     cq_step s A_advance (s\<lparr>the_ring := gw_ring_cq_advance n (the_ring s)\<rparr>)"
| ring_destroy: "cq_step s A_destroy (do_ring_destroy s)"
| cq_spurious: "k < length (waiters s) \<Longrightarrow> waiters s ! k = Cw_asleep \<Longrightarrow>
     cq_step s A_spurious (s\<lparr>waiters := (waiters s)[k := Cw_woken]\<rparr>)"

inductive_cases cq_waitE: "cq_step s (A_wait k) t"

definition cq_init :: "cq_sys \<Rightarrow> bool" where
  "cq_init s = (\<exists>env sz r tr n. gw_ring_init env sz = Some (0, Some r, tr) \<and> sz \<le> 2 ^ 29 \<and>
     s = \<lparr>the_ring = r, waiters = replicate n Cw_idle, posted = 0\<rparr>)"

abbreviation cq_reachable :: "cq_sys \<Rightarrow> bool" where
  "cq_reachable \<equiv> reach cq_init cq_step"

lemma reach_ring_init:
  "gw_ring_init env sz = Some (0, Some r, tr) \<Longrightarrow> sz \<le> 2 ^ 29 \<Longrightarrow>
   cq_reachable \<lparr>the_ring = r, waiters = replicate n Cw_idle, posted = 0\<rparr>"
  by (rule reach_init) (auto simp: cq_init_def)

section \<open>The invariant\<close>

definition cq_inv :: "cq_sys \<Rightarrow> bool" where
  "cq_inv s =
     (unat (cq_tail (the_ring s)) = posted s \<and> cq_ok (the_ring s) \<and> cq_unwrapped (the_ring s) \<and> length (cqes (the_ring s)) < 2 ^ 31 \<and>
      (\<forall>k < length (waiters s). waiters s ! k = Cw_asleep \<longrightarrow>
         wait_cqe_cond_flag (the_ring s) \<and> \<not> ring_should_stop (the_ring s) \<and>
         cq_contents (the_ring s) = []))"

lemma nth_cq_events:
  "k < length ws \<Longrightarrow> cq_events evs ws ! k =
     (if evs \<noteq> [] \<and> ws ! k = Cw_asleep then Cw_woken else ws ! k)"
  by (simp add: cq_events_def nth_wake_all)

lemma length_cq_events [simp]: "length (cq_events evs ws) = length ws"
  by (simp add: cq_events_def)

lemma wait_cqe_pass_eq:
  assumes "cq_ok r" and "cq_unwrapped r" and "length (cqes r) < 2 ^ 31"
  shows "wait_cqe_pass r =
    (if ring_should_stop r then (Some (- EOWNERDEAD, None), r)
     else if cq_contents r = [] then (None, r\<lparr>wait_cqe_cond_flag := True\<rparr>)
     else (Some (int (length (cq_contents r)), Some (slot (cq_head r) (cq_mask r))), r))"
proof -
  have "unat (cq_tail r - cq_head r) < 2 ^ 31" using assms(1,3) by (simp add: cq_ok_def)
  moreover have "cq_head r \<le> cq_tail r" using assms(2) by (simp add: cq_unwrapped_def)
  ultimately have "sint (u32_diff (cq_tail r) (cq_head r)) = int (length (cq_contents r))"
    by (simp only: sint_u32_diff length_cq_contents)
  moreover have "0 < int (length (cq_contents r))" if "cq_contents r \<noteq> []"
    using that by (simp del: length_cq_contents)
  ultimately show ?thesis
    by (auto simp: wait_cqe_pass_def gw_ring_wait_cqe_once_def Let_def EAGAIN_def cq_contents_Nil_iff
        simp del: length_cq_contents)
qed

lemma do_post_inv:
  assumes inv: "cq_inv s" and small: "posted (do_post sqe res s) < 2 ^ 32"
  shows "cq_inv (do_post sqe res s)"
proof -
  let ?r = "the_ring s"
  from inv have cq: "cq_ok ?r" "cq_unwrapped ?r" "length (cqes ?r) < 2 ^ 31" "unat (cq_tail ?r) = posted s"
    by (simp_all add: cq_inv_def)
  show ?thesis
  proof (cases "unat (cq_tail ?r - cq_head ?r) < length (cqes ?r)")
    case True
    then have p: "do_post sqe res s = s\<lparr>the_ring := cq_push (cqe_of sqe res) ?r,
        waiters := cq_events (wake_up_wait_cqe_callers ?r) (waiters s), posted := posted s + 1\<rparr>"
      using cq(2) by (simp add: do_post_def post_cqe_cases [OF cq(1)])
    have room: "unat (cq_tail ?r) < 2 ^ 32 - 1" using small cq(4) by (simp add: p)
    then have "unat (cq_tail ?r + 1) = Suc (unat (cq_tail ?r))" by (intro unat_plus_one) simp
    then have count: "unat (cq_tail (cq_push (cqe_of sqe res) ?r)) = posted s + 1" by (simp add: cq_push_def cq(4))
    have "\<not> waiters (do_post sqe res s) ! k = Cw_asleep" if "k < length (waiters s)" for k
      using inv that by (auto simp: p nth_cq_events cq_inv_def wake_up_wait_cqe_callers_def)
    moreover have "length (cqes (cq_push (cqe_of sqe res) ?r)) < 2 ^ 31" using cq(3) by (simp add: cq_push_def)
    ultimately show ?thesis
      using cq_push_ok [OF cq(1) True] cq_unwrapped_push(1) [OF cq(2) room] count by (simp add: cq_inv_def p)
  next
    case False
    then have "do_post sqe res s = s"
      by (simp add: do_post_def post_cqe_cases [OF cq(1)] cq_events_def)
    with inv show ?thesis by simp
  qed
qed

lemma do_wait_inv:
  assumes inv: "cq_inv s" and k: "k < length (waiters s)"
    and r: "r = (the_ring s)\<lparr>wait_cqe_cond_flag := f\<rparr>"
  shows "cq_inv (do_wait k r s)"
    and "waiters (do_wait k r s) ! k =
      (if ring_should_stop (the_ring s) \<or> cq_contents (the_ring s) \<noteq> [] then Cw_idle else Cw_asleep)"
proof -
  from inv have cq: "cq_ok r" "cq_unwrapped r" "length (cqes r) < 2 ^ 31" "unat (cq_tail r) = posted s"
    by (simp_all add: cq_inv_def r cq_ok_def cq_unwrapped_def)
  note pass = wait_cqe_pass_eq [OF cq(1-3)]
  show "waiters (do_wait k r s) ! k =
      (if ring_should_stop (the_ring s) \<or> cq_contents (the_ring s) \<noteq> [] then Cw_idle else Cw_asleep)"
    using k unfolding do_wait_def pass by (simp add: r)
  show "cq_inv (do_wait k r s)"
  proof (cases "ring_should_stop (the_ring s) \<or> cq_contents (the_ring s) \<noteq> []")
    case True
    with inv have "\<forall>m < length (waiters s). waiters s ! m \<noteq> Cw_asleep" by (auto simp: cq_inv_def)
    moreover from True have "do_wait k r s = s\<lparr>the_ring := r, waiters := (waiters s)[k := Cw_idle]\<rparr>"
      unfolding do_wait_def pass by (auto simp: r)
    ultimately show ?thesis using cq by (auto simp: cq_inv_def nth_list_update_at)
  next
    case False
    then have "do_wait k r s = s\<lparr>the_ring := r\<lparr>wait_cqe_cond_flag := True\<rparr>,
        waiters := (waiters s)[k := Cw_asleep]\<rparr>"
      unfolding do_wait_def pass by (simp add: r)
    with False cq show ?thesis by (simp add: cq_inv_def cq_ok_def cq_unwrapped_def r)
  qed
qed

lemma advance_inv:
  assumes inv: "cq_inv s" and n: "unat n \<le> length (cq_contents (the_ring s))"
  shows "cq_inv (s\<lparr>the_ring := gw_ring_cq_advance n (the_ring s)\<rparr>)"
proof -
  let ?r = "the_ring s"
  from inv have cq: "cq_ok ?r" "cq_head ?r \<le> cq_tail ?r" by (simp_all add: cq_inv_def cq_unwrapped_def)
  have le: "unat n \<le> unat (cq_tail ?r) - unat (cq_head ?r)"
    using n cq(2) by (simp add: unat_sub)
  have "unat (cq_tail ?r) < 2 ^ 32" using unsigned_less [of "cq_tail ?r"] by simp
  then have "unat (cq_head ?r) + unat n < 2 ^ 32"
    using le cq(2) by (simp add: word_le_nat_alt)
  then have h: "unat (cq_head ?r + n) = unat (cq_head ?r) + unat n" by (simp add: unat_word_ariths)
  with le cq(2) have le': "cq_head ?r + n \<le> cq_tail ?r" by (simp add: word_le_nat_alt)
  then have "unat (cq_tail ?r - (cq_head ?r + n)) \<le> unat (cq_tail ?r - cq_head ?r)"
    using h cq(2) by (simp add: unat_sub)
  with cq le' have ok: "cq_ok (gw_ring_cq_advance n ?r)" "cq_unwrapped (gw_ring_cq_advance n ?r)"
    by (simp_all add: cq_ok_def cq_unwrapped_def gw_ring_cq_advance_def)
  have "cq_contents (gw_ring_cq_advance n ?r) = []" if "cq_contents ?r = []"
  proof -
    from that n have "n = 0" by (simp add: unat_eq_0)
    with that show ?thesis by (simp add: gw_ring_cq_advance_def)
  qed
  with inv ok show ?thesis by (simp add: cq_inv_def) (auto simp: gw_ring_cq_advance_def)
qed

lemma cq_step_inv:
  assumes "cq_step s a t" and "cq_inv s" and "posted t < 2 ^ 32"
  shows "cq_inv t"
  using assms
proof cases
  case (wait_call k)
  have "the_ring s = (the_ring s)\<lparr>wait_cqe_cond_flag := wait_cqe_cond_flag (the_ring s)\<rparr>" by simp
  from do_wait_inv(1) [OF assms(2) wait_call(3) this] wait_call(2) show ?thesis by simp
next
  case (wait_woken k)
  from do_wait_inv(1) [OF assms(2) wait_woken(3) wait_cqe_woken_def] wait_woken(2) show ?thesis by simp
next
  case ring_destroy
  with assms(2) show ?thesis
    by (auto simp: cq_inv_def do_ring_destroy_def gw_ring_destroy_locked_def nth_cq_events cq_ok_def
        cq_unwrapped_def Let_def)
next
  case (cq_spurious k)
  with assms(2) show ?thesis by (auto simp: cq_inv_def nth_list_update_at)
qed (use assms(2,3) do_post_inv advance_inv in auto)

text \<open>The completions are counted upwards, so that the invariant holds as long as the count has not reached \<open>2 ^ 32\<close>.\<close>

lemma posted_mono: "cq_step s a t \<Longrightarrow> posted s \<le> posted t"
  by (cases rule: cq_step.cases) (auto simp: do_post_def do_wait_def do_ring_destroy_def Let_def split: prod.splits)

definition cq_inv_until :: "cq_sys \<Rightarrow> bool" where
  "cq_inv_until s = (posted s < 2 ^ 32 \<longrightarrow> cq_inv s)"

lemma cq_inv_until_step:
  assumes "cq_inv_until s" and "cq_step s a t"
  shows "cq_inv_until t"
  using assms cq_step_inv [OF assms(2)] posted_mono [OF assms(2)] by (auto simp: cq_inv_until_def)

lemma cq_init_inv:
  assumes "gw_ring_init env sz = Some (0, Some r, tr)" and "sz \<le> 2 ^ 29"
  shows "cq_inv \<lparr>the_ring = r, waiters = replicate n Cw_idle, posted = 0\<rparr>"
proof -
  obtain mx where mx: "round_up_pow2 2 sz = Some mx"
    using assms(1) by (auto simp: gw_ring_init_def split: option.splits)
  from round_up_pow2_le [of 1 sz] assms(2) mx obtain m where
    m: "1 \<le> m" "m \<le> 31" "mx = 2 ^ m" "m = 1 \<or> 2 ^ (m - 1) < sz"
    using order_trans [of sz "2 ^ 29" "2 ^ 31"] by auto
  have "m \<le> 29"
  proof (rule ccontr)
    assume big: "\<not> m \<le> 29"
    then have "(2 :: nat) ^ 29 \<le> 2 ^ (m - 1)" by (intro power_increasing) simp_all
    then have "(2 :: u32) ^ 29 \<le> 2 ^ (m - 1)"
      using unat_two_pow [of "m - 1"] unat_two_pow [of 29] m(2) by (simp add: word_le_nat_alt)
    with m(4) big assms(2) show False by auto
  qed
  obtain q where r: "r = fresh_ring (2 ^ m - 1) (2 ^ m * 2 - 1) q"
    using assms(1) mx m(3)
    by (auto simp: gw_ring_init_def Let_def ENOMEM_def split: option.splits if_splits)
  have l: "length (cqes r) = 2 ^ Suc m"
    using unat_two_pow [of "Suc m"] \<open>m \<le> 29\<close> by (simp add: r fresh_ring_def mult.commute)
  have "cq_ok r"
    using \<open>m \<le> 29\<close> l by (auto simp: cq_ok_def circ_ok_def r fresh_ring_def intro!: bexI [of _ "Suc m"])
  moreover have "(2 :: nat) ^ Suc m \<le> 2 ^ 30" using \<open>m \<le> 29\<close> by (intro power_increasing) simp_all
  moreover have "cq_unwrapped r" by (simp add: r fresh_ring_def cq_unwrapped_def)
  moreover have "unat (cq_tail r) = 0" by (simp add: r fresh_ring_def)
  ultimately show ?thesis using l by (simp add: cq_inv_def)
qed

interpretation cq_safe: invariant_system cq_init cq_step cq_inv_until
  by unfold_locales (auto simp: cq_init_def cq_inv_until_def intro: cq_init_inv cq_inv_until_step [unfolded cq_inv_until_def, rule_format])

lemma cq_reachable_inv: "cq_reachable s \<Longrightarrow> posted s < 2 ^ 32 \<Longrightarrow> cq_inv s"
  using cq_safe.reach_inv by (simp add: cq_inv_until_def)

section \<open>No completion is waited for in vain\<close>

text \<open>
  C22: no wake-up of \<open>gw_ring_wait_cqe\<close> is lost while fewer than \<open>2 ^ 32\<close> completions have been posted to a ring
  of at most \<open>2 ^ 29\<close> entries, however many threads wait and in whatever order they, the posting workers, the consumer and
  the destruction act: a thread asleep in it has an empty completion queue and a ring that is not being destroyed, although
  every woken thread clears the one flag they share. (Once the tail has wrapped past a non-empty queue this fails: the theory Ring has the
  counterexample.)
\<close>

theorem wait_cqe_not_forgotten:
  assumes "cq_reachable s" and "posted s < 2 ^ 32" and "k < length (waiters s)" and "waiters s ! k = Cw_asleep"
  shows "cq_contents (the_ring s) = [] \<and> \<not> ring_should_stop (the_ring s) \<and>
    wait_cqe_cond_flag (the_ring s)"
  using cq_reachable_inv [OF assms(1,2)] assms(3,4) by (simp add: cq_inv_def)

text \<open>
  A thread that runs in \<open>gw_ring_wait_cqe\<close> returns from that step exactly when there is a
  completion or the ring is being destroyed; otherwise it is asleep after it.
\<close>

lemma wait_cqe_returns_iff:
  assumes "cq_reachable s" and "posted s < 2 ^ 32" and "cq_step s (A_wait k) t"
  shows "waiters t ! k =
    (if ring_should_stop (the_ring s) \<or> cq_contents (the_ring s) \<noteq> [] then Cw_idle else Cw_asleep)"
  using assms(3)
proof cases
  case wait_call
  have "the_ring s = (the_ring s)\<lparr>wait_cqe_cond_flag := wait_cqe_cond_flag (the_ring s)\<rparr>" by simp
  from do_wait_inv(2) [OF cq_reachable_inv [OF assms(1,2)] wait_call(2) this] wait_call(1) show ?thesis by simp
next
  case wait_woken
  from do_wait_inv(2) [OF cq_reachable_inv [OF assms(1,2)] wait_woken(2) wait_cqe_woken_def]
    wait_woken(1) show ?thesis by simp
qed

section \<open>A state with a sleeper\<close>

lemma create_workers_succeeds:
  "(\<And>i. tc i = 0) \<Longrightarrow> \<exists>j ws'. create_workers tc i n ws = (0, j, ws')"
  by (induction n arbitrary: i ws) (simp_all add: Let_def)

definition sample_ring_env :: ring_env where
  "sample_ring_env = \<lparr>env_calloc_sqes = True, env_calloc_cqes = True, env_init_sq_lock = 0,
     env_init_cq_lock = 0, env_init_wait_cqe_cond = 0, env_wq = sample_env\<rparr>"

lemma sample_ring_init: "\<exists>q tr. gw_ring_init sample_ring_env 2 = Some (0, Some (fresh_ring 1 3 q), tr)"
proof -
  obtain r0 at where v: "validate_and_adjust_workqueue_attr ring_wq_attr = Some (0, at)"
    using round_up_pow2_le [of 1 4096]
    by (auto simp: validate_and_adjust_workqueue_attr_def ring_wq_attr_def WQ_F_ALL_def Let_def)
  obtain j ws where "create_workers (env_thread_create sample_env) 0
      (unat (nr_thread_to_create at)) (zero_workers (max_threads at)) = (0, j, ws)"
    using create_workers_succeeds [of "env_thread_create sample_env"]
    by (metis sample_env_def wq_env.select_convs(5))
  with v have "\<exists>q ev tr. alloc_workqueue sample_env ring_wq_attr = Some (0, Some q, ev, tr)"
    by (simp add: alloc_workqueue_def alloc_workers_def sample_env_def fresh_wq_def Let_def)
  then show ?thesis
    by (auto simp: gw_ring_init_def sample_ring_env_def round_up_pow2.simps Let_def)
qed

lemma sleeper_reachable:
  obtains q where "cq_reachable \<lparr>the_ring = (fresh_ring 1 3 q)\<lparr>wait_cqe_cond_flag := True\<rparr>,
    waiters = [Cw_asleep, Cw_idle], posted = 0\<rparr>"
proof -
  obtain q tr where i: "gw_ring_init sample_ring_env 2 = Some (0, Some (fresh_ring 1 3 q), tr)"
    using sample_ring_init by blast
  let ?s = "\<lparr>the_ring = fresh_ring 1 3 q, waiters = replicate 2 Cw_idle, posted = 0\<rparr>"
  have "cq_reachable ?s" by (rule reach_ring_init [OF i]) (simp add: word_le_nat_alt)
  moreover have "cq_step ?s (A_wait 0) (do_wait 0 (the_ring ?s) ?s)" by (rule wait_call) simp_all
  moreover have "do_wait 0 (the_ring ?s) ?s =
      \<lparr>the_ring = (fresh_ring 1 3 q)\<lparr>wait_cqe_cond_flag := True\<rparr>, waiters = [Cw_asleep, Cw_idle], posted = 0\<rparr>"
    by (simp add: do_wait_def wait_cqe_pass_def gw_ring_wait_cqe_once_def fresh_ring_def EAGAIN_def
        numeral_2_eq_2)
  ultimately have "cq_reachable \<lparr>the_ring = (fresh_ring 1 3 q)\<lparr>wait_cqe_cond_flag := True\<rparr>,
      waiters = [Cw_asleep, Cw_idle], posted = 0\<rparr>"
    by (metis reach_next)
  then show ?thesis by (rule that)
qed

theorem wait_cqe_not_forgotten_witness:
  "\<exists>s. cq_reachable s \<and> waiters s ! 0 = Cw_asleep \<and> wait_cqe_cond_flag (the_ring s)"
proof -
  obtain q where r: "cq_reachable \<lparr>the_ring = (fresh_ring 1 3 q)\<lparr>wait_cqe_cond_flag := True\<rparr>,
      waiters = [Cw_asleep, Cw_idle], posted = 0\<rparr>" (is "cq_reachable ?s")
    by (rule sleeper_reachable)
  have "posted ?s < 2 ^ 32" "0 < length (waiters ?s)" "waiters ?s ! 0 = Cw_asleep" by simp_all
  with wait_cqe_not_forgotten [OF r this] r show ?thesis by blast
qed

lemma wait_cqe_returns_iff_example:
  "\<exists>s t. cq_reachable s \<and> cq_step s (A_wait 1) t \<and> waiters t ! 1 = Cw_asleep"
proof -
  obtain q where r: "cq_reachable \<lparr>the_ring = (fresh_ring 1 3 q)\<lparr>wait_cqe_cond_flag := True\<rparr>,
      waiters = [Cw_asleep, Cw_idle], posted = 0\<rparr>" (is "cq_reachable ?s")
    by (rule sleeper_reachable)
  have st: "cq_step ?s (A_wait 1) (do_wait 1 (the_ring ?s) ?s)" by (rule wait_call) simp_all
  have "cq_contents (the_ring ?s) = []" "\<not> ring_should_stop (the_ring ?s)"
    by (simp_all add: fresh_ring_def cq_contents_def)
  with wait_cqe_returns_iff [OF r _ st] r st show ?thesis by auto
qed

end
