(* ===== verification/Tgapi.thy ===== *)
theory Tgapi
  imports GwPrelude
begin

text \<open>
  lib/tgapi.c and include/gw/lib/tgapi.h: from JSON text to updates, and the ownership of what the
  parser allocates.

  json-c is not part of the program. Its functions are the record \<open>json_ops\<close>, an argument of
  every definition that calls them; reference counts live in a state of a type of their own, which
  only json-c's functions change. Strings handed out by json-c are values here (\<open>None\<close> is
  \<open>NULL\<close>): who keeps them alive is what the reference counts are for.
\<close>

section \<open>json-c\<close>

record ('j, 'r) json_ops =
  js_null :: 'j
  js_get :: "'j \<Rightarrow> string \<Rightarrow> 'j option"
  js_length :: "'j \<Rightarrow> nat"
  js_idx :: "'j \<Rightarrow> nat \<Rightarrow> 'j"
  js_string :: "'j \<Rightarrow> string option"
  js_uint64 :: "'j \<Rightarrow> u64"
  js_int64 :: "'j \<Rightarrow> i64"
  js_bool :: "'j \<Rightarrow> bool"
  js_ref :: "'j \<Rightarrow> 'r \<Rightarrow> 'r"
  js_put :: "'j \<Rightarrow> 'r \<Rightarrow> int \<times> 'r"

text \<open>A tokener: whether \<open>json_tokener_new\<close> succeeds, and the object and error of the \<open>n\<close>-th call
  of \<open>json_tokener_parse_ex\<close> on the same text.\<close>

datatype tok_error = Tok_success | Tok_continue | Tok_failed

record 'j tokener =
  tok_new :: bool
  tok_parse :: "nat \<Rightarrow> 'j \<times> tok_error"

section \<open>Data\<close>

record tg_user =
  user_id :: u64
  user_first_name :: "string option"
  user_last_name :: "string option"
  user_username :: "string option"
  user_language_code :: "string option"
  user_is_bot :: bool

text \<open>Of a chat and a message, the fields some function of the program reads or writes; the others
  stay zero in every object the parser allocates.\<close>

datatype tg_chat_type =
  TG_CHAT_UNKNOWN | TG_CHAT_PRIVATE | TG_CHAT_GROUP | TG_CHAT_SUPERGROUP | TG_CHAT_CHANNEL

record tg_chat =
  chat_id :: i64
  chat_title :: "string option"
  chat_username :: "string option"
  chat_type :: tg_chat_type

text \<open>The message types are single bits. A zeroed message has none of them.\<close>

type_synonym tg_msg_type = u64

definition TG_MSG_UNKNOWN :: tg_msg_type where "TG_MSG_UNKNOWN = 2 ^ 0"
definition TG_MSG_TEXT :: tg_msg_type where "TG_MSG_TEXT = 2 ^ 1"
definition TG_MSG_AUDIO :: tg_msg_type where "TG_MSG_AUDIO = 2 ^ 3"
definition TG_MSG_DOCUMENT :: tg_msg_type where "TG_MSG_DOCUMENT = 2 ^ 4"
definition TG_MSG_PHOTO :: tg_msg_type where "TG_MSG_PHOTO = 2 ^ 5"
definition TG_MSG_STICKER :: tg_msg_type where "TG_MSG_STICKER = 2 ^ 6"
definition TG_MSG_VIDEO :: tg_msg_type where "TG_MSG_VIDEO = 2 ^ 7"
definition TG_MSG_VOICE :: tg_msg_type where "TG_MSG_VOICE = 2 ^ 9"
definition TG_MSG_CONTACT :: tg_msg_type where "TG_MSG_CONTACT = 2 ^ 10"
definition TG_MSG_LOCATION :: tg_msg_type where "TG_MSG_LOCATION = 2 ^ 15"
definition TG_MSG_NEW_CHAT_MEMBERS :: tg_msg_type where "TG_MSG_NEW_CHAT_MEMBERS = 2 ^ 16"
definition TG_MSG_LEFT_CHAT_MEMBER :: tg_msg_type where "TG_MSG_LEFT_CHAT_MEMBER = 2 ^ 17"
definition TG_MSG_NEW_CHAT_TITLE :: tg_msg_type where "TG_MSG_NEW_CHAT_TITLE = 2 ^ 18"
definition TG_MSG_NEW_CHAT_PHOTO :: tg_msg_type where "TG_MSG_NEW_CHAT_PHOTO = 2 ^ 19"
definition TG_MSG_DELETE_CHAT_PHOTO :: tg_msg_type where "TG_MSG_DELETE_CHAT_PHOTO = 2 ^ 20"
definition TG_MSG_GROUP_CHAT_CREATED :: tg_msg_type where "TG_MSG_GROUP_CHAT_CREATED = 2 ^ 21"
definition TG_MSG_SUPERGROUP_CHAT_CREATED :: tg_msg_type where "TG_MSG_SUPERGROUP_CHAT_CREATED = 2 ^ 22"
definition TG_MSG_CHANNEL_CHAT_CREATED :: tg_msg_type where "TG_MSG_CHANNEL_CHAT_CREATED = 2 ^ 23"
definition TG_MSG_MIGRATE_TO_CHAT_ID :: tg_msg_type where "TG_MSG_MIGRATE_TO_CHAT_ID = 2 ^ 24"
definition TG_MSG_MIGRATE_FROM_CHAT_ID :: tg_msg_type where "TG_MSG_MIGRATE_FROM_CHAT_ID = 2 ^ 25"
definition TG_MSG_PINNED_MESSAGE :: tg_msg_type where "TG_MSG_PINNED_MESSAGE = 2 ^ 26"

lemmas tg_msg_defs = TG_MSG_UNKNOWN_def TG_MSG_TEXT_def TG_MSG_AUDIO_def TG_MSG_DOCUMENT_def
  TG_MSG_PHOTO_def TG_MSG_STICKER_def TG_MSG_VIDEO_def TG_MSG_VOICE_def TG_MSG_CONTACT_def
  TG_MSG_LOCATION_def TG_MSG_NEW_CHAT_MEMBERS_def TG_MSG_LEFT_CHAT_MEMBER_def
  TG_MSG_NEW_CHAT_TITLE_def TG_MSG_NEW_CHAT_PHOTO_def TG_MSG_DELETE_CHAT_PHOTO_def
  TG_MSG_GROUP_CHAT_CREATED_def TG_MSG_SUPERGROUP_CHAT_CREATED_def
  TG_MSG_CHANNEL_CHAT_CREATED_def TG_MSG_MIGRATE_TO_CHAT_ID_def TG_MSG_MIGRATE_FROM_CHAT_ID_def
  TG_MSG_PINNED_MESSAGE_def

record tg_message =
  message_id :: u64
  msg_from :: ptr
  msg_date :: u64
  msg_chat :: ptr
  msg_text :: "string option"
  msg_entities :: ptr
  msg_entities_len :: nat
  msg_type :: tg_msg_type

datatype tg_update_type = TG_UPDATE_UNKNOWN | TG_UPDATE_MESSAGE

record 'j tg_update =
  update_id :: u64
  update_type :: tg_update_type
  update_message :: tg_message
  update_json :: 'j

record 'j tg_updates =
  updates_len :: nat
  updates_arr :: "'j tg_update list"

definition zero_user :: tg_user where
  "zero_user = \<lparr>user_id = 0, user_first_name = None, user_last_name = None, user_username = None,
     user_language_code = None, user_is_bot = False\<rparr>"

definition zero_chat :: tg_chat where
  "zero_chat = \<lparr>chat_id = 0, chat_title = None, chat_username = None, chat_type = TG_CHAT_UNKNOWN\<rparr>"

definition zero_message :: tg_message where
  "zero_message = \<lparr>message_id = 0, msg_from = NULL, msg_date = 0, msg_chat = NULL, msg_text = None,
     msg_entities = NULL, msg_entities_len = 0, msg_type = 0\<rparr>"

definition zero_update :: "('j, 'r) json_ops \<Rightarrow> 'j tg_update" where
  "zero_update js = \<lparr>update_id = 0, update_type = TG_UPDATE_UNKNOWN, update_message = zero_message,
     update_json = js_null js\<rparr>"

section \<open>Memory\<close>

datatype tg_block = B_user tg_user | B_chat tg_chat | B_entities nat

text \<open>The blocks the parser allocates, the update arrays, the allocator's answers, the frees of
  addresses that are neither \<open>NULL\<close> nor live, and json-c's reference counts.\<close>

record ('j, 'r) tg_mem =
  blocks :: "tg_block heap"
  arrays :: "'j tg_updates heap"
  tg_mallocs :: allocs
  bad_frees :: "ptr list"
  jstate :: 'r

definition tg_malloc :: "tg_block \<Rightarrow> ('j, 'r) tg_mem \<Rightarrow> ptr \<times> ('j, 'r) tg_mem" where
  "tg_malloc b m =
     (let (ok, ms) = next_alloc (tg_mallocs m);
          m1 = m\<lparr>tg_mallocs := ms\<rparr>;
          p = fresh_ptr (blocks m)
      in if ok then (p, m1\<lparr>blocks := (p, b) # blocks m\<rparr>) else (NULL, m1))"

definition tg_free :: "ptr \<Rightarrow> ('j, 'r) tg_mem \<Rightarrow> ('j, 'r) tg_mem" where
  "tg_free p m =
     (if p = NULL then m
      else if map_of (blocks m) p = None then m\<lparr>bad_frees := bad_frees m @ [p]\<rparr>
      else m\<lparr>blocks := heap_free p (blocks m)\<rparr>)"

section \<open>Parsing the text\<close>

text \<open>The loop of \<open>parse_json\<close> from its \<open>n\<close>-th round; \<open>None\<close>: it never ends.\<close>

partial_function (option) tok_loop :: "'j tokener \<Rightarrow> nat \<Rightarrow> ('j \<times> tok_error) option" where
  "tok_loop tok n =
     (if snd (tok_parse tok n) = Tok_continue then tok_loop tok (Suc n) else Some (tok_parse tok n))"

definition parse_json :: "'j tokener \<Rightarrow> (int \<times> 'j option) option" where
  "parse_json tok =
     (if \<not> tok_new tok then Some (- ENOMEM, None)
      else map_option (\<lambda>(jobj, jerr). if jerr \<noteq> Tok_success then (- EINVAL, None) else (0, Some jobj))
             (tok_loop tok 0))"

section \<open>Users and chats\<close>

definition tgj_get_user :: "('j, 'r) json_ops \<Rightarrow> 'j \<Rightarrow> int \<times> tg_user" where
  "tgj_get_user js juser =
     (case js_get js juser ''id'' of
        None \<Rightarrow> (- ENOENT, zero_user)
      | Some res \<Rightarrow>
          let u1 = zero_user\<lparr>user_id := js_uint64 js res\<rparr>
          in case js_get js juser ''first_name'' of
               None \<Rightarrow> (- ENOENT, u1)
             | Some res \<Rightarrow>
                 let u2 = u1\<lparr>user_first_name := js_string js res\<rparr>;
                     u3 = (case js_get js juser ''last_name'' of
                             Some res \<Rightarrow> u2\<lparr>user_last_name := js_string js res\<rparr> | None \<Rightarrow> u2);
                     u4 = (case js_get js juser ''username'' of
                             Some res \<Rightarrow> u3\<lparr>user_username := js_string js res\<rparr> | None \<Rightarrow> u3);
                     u5 = (case js_get js juser ''language_code'' of
                             Some res \<Rightarrow> u4\<lparr>user_language_code := js_string js res\<rparr> | None \<Rightarrow> u4);
                     u6 = (case js_get js juser ''is_bot'' of
                             Some res \<Rightarrow> u5\<lparr>user_is_bot := js_bool js res\<rparr> | None \<Rightarrow> u5)
                 in (0, u6))"

definition tgj_get_chat :: "('j, 'r) json_ops \<Rightarrow> 'j \<Rightarrow> int \<times> tg_chat" where
  "tgj_get_chat js jchat =
     (case js_get js jchat ''id'' of
        None \<Rightarrow> (- ENOENT, zero_chat)
      | Some res \<Rightarrow>
          let c1 = zero_chat\<lparr>chat_id := js_int64 js res\<rparr>;
              c2 = (case js_get js jchat ''title'' of
                      Some res \<Rightarrow> c1\<lparr>chat_title := js_string js res\<rparr> | None \<Rightarrow> c1);
              typed = (case js_get js jchat ''type'' of
                      None \<Rightarrow> Inr (c2\<lparr>chat_type := TG_CHAT_UNKNOWN\<rparr>)
                    | Some res \<Rightarrow>
                        (case js_string js res of
                           None \<Rightarrow> Inl (- EINVAL)
                         | Some p \<Rightarrow>
                             Inr (c2\<lparr>chat_type :=
                               (if p = ''supergroup'' then TG_CHAT_SUPERGROUP else TG_CHAT_UNKNOWN)\<rparr>)))
          in case typed of
               Inl ret \<Rightarrow> (ret, c2)
             | Inr c3 \<Rightarrow>
                 (0, case js_get js jchat ''username'' of
                       Some res \<Rightarrow> c3\<lparr>chat_username := js_string js res\<rparr> | None \<Rightarrow> c3))"

text \<open>\<open>malloc\<close> of a block that is filled in before anyone else sees it, and freed on an error.\<close>

definition tgj_get_user_and_alloc ::
    "('j, 'r) json_ops \<Rightarrow> 'j \<Rightarrow> ptr \<Rightarrow> ('j, 'r) tg_mem \<Rightarrow> int \<times> ptr \<times> ('j, 'r) tg_mem" where
  "tgj_get_user_and_alloc js jobj user_p m =
     (let (ret, user) = tgj_get_user js jobj;
          (p, m1) = tg_malloc (B_user user) m
      in if p = NULL then (- ENOMEM, user_p, m1)
         else if ret = 0 then (0, p, m1)
         else (ret, user_p, tg_free p m1))"

definition tgj_get_chat_and_alloc ::
    "('j, 'r) json_ops \<Rightarrow> 'j \<Rightarrow> ptr \<Rightarrow> ('j, 'r) tg_mem \<Rightarrow> int \<times> ptr \<times> ('j, 'r) tg_mem" where
  "tgj_get_chat_and_alloc js jobj chat_p m =
     (let (ret, chat) = tgj_get_chat js jobj;
          (p, m1) = tg_malloc (B_chat chat) m
      in if p = NULL then (- ENOMEM, chat_p, m1)
         else if ret = 0 then (0, p, m1)
         else (ret, chat_p, tg_free p m1))"

section \<open>Messages\<close>

text \<open>A \<open>size_t\<close> cast to \<open>int\<close>.\<close>

definition int_of_size :: "nat \<Rightarrow> int" where
  "int_of_size n = sint (of_nat n :: u32)"

definition tgj_get_message_entities :: "nat \<Rightarrow> int" where
  "tgj_get_message_entities len = int_of_size len"

definition tgj_get_entities_and_alloc ::
    "('j, 'r) json_ops \<Rightarrow> 'j \<Rightarrow> ptr \<Rightarrow> ('j, 'r) tg_mem \<Rightarrow> int \<times> ptr \<times> ('j, 'r) tg_mem" where
  "tgj_get_entities_and_alloc js jent ent_p m =
     (let len = js_length js jent;
          (p, m1) = tg_malloc (B_entities len) m
      in if p = NULL then (- ENOMEM, ent_p, m1)
         else
           let ret = tgj_get_message_entities len
           in if 0 \<le> ret then (int_of_size len, p, m1) else (ret, ent_p, tg_free p m1))"

definition tgj_arrange_message_variant ::
    "('j, 'r) json_ops \<Rightarrow> tg_message \<Rightarrow> 'j \<Rightarrow> ('j, 'r) tg_mem \<Rightarrow> int \<times> tg_message \<times> ('j, 'r) tg_mem" where
  "tgj_arrange_message_variant js msg jmsg m =
     (if js_get js jmsg ''text'' \<noteq> None
      then
        let msg1 = msg\<lparr>msg_type := TG_MSG_TEXT, msg_text := js_string js (the (js_get js jmsg ''text''))\<rparr>
        in case js_get js jmsg ''entities'' of
             None \<Rightarrow> (0, msg1, m)
           | Some res \<Rightarrow>
               let (ret, ents, m1) = tgj_get_entities_and_alloc js res (msg_entities msg1) m;
                   msg2 = msg1\<lparr>msg_entities := ents\<rparr>
               in if ret < 0 then (ret, msg2, m1)
                  else (0, msg2\<lparr>msg_entities_len := nat ret\<rparr>, m1)
     else if js_get js jmsg ''photo'' \<noteq> None then (0, msg\<lparr>msg_type := TG_MSG_PHOTO\<rparr>, m)
     else if js_get js jmsg ''sticker'' \<noteq> None then (0, msg\<lparr>msg_type := TG_MSG_STICKER\<rparr>, m)
     else if js_get js jmsg ''video'' \<noteq> None then (0, msg\<lparr>msg_type := TG_MSG_VIDEO\<rparr>, m)
     else if js_get js jmsg ''voice'' \<noteq> None then (0, msg\<lparr>msg_type := TG_MSG_VOICE\<rparr>, m)
     else if js_get js jmsg ''audio'' \<noteq> None then (0, msg\<lparr>msg_type := TG_MSG_AUDIO\<rparr>, m)
     else if js_get js jmsg ''document'' \<noteq> None then (0, msg\<lparr>msg_type := TG_MSG_DOCUMENT\<rparr>, m)
     else if js_get js jmsg ''location'' \<noteq> None then (0, msg\<lparr>msg_type := TG_MSG_LOCATION\<rparr>, m)
     else if js_get js jmsg ''contact'' \<noteq> None then (0, msg\<lparr>msg_type := TG_MSG_CONTACT\<rparr>, m)
     else if js_get js jmsg ''new_chat_members'' \<noteq> None then (0, msg\<lparr>msg_type := TG_MSG_NEW_CHAT_MEMBERS\<rparr>, m)
     else if js_get js jmsg ''left_chat_member'' \<noteq> None then (0, msg\<lparr>msg_type := TG_MSG_LEFT_CHAT_MEMBER\<rparr>, m)
     else if js_get js jmsg ''new_chat_title'' \<noteq> None then (0, msg\<lparr>msg_type := TG_MSG_NEW_CHAT_TITLE\<rparr>, m)
     else if js_get js jmsg ''new_chat_photo'' \<noteq> None then (0, msg\<lparr>msg_type := TG_MSG_NEW_CHAT_PHOTO\<rparr>, m)
     else if js_get js jmsg ''delete_chat_photo'' \<noteq> None then (0, msg\<lparr>msg_type := TG_MSG_DELETE_CHAT_PHOTO\<rparr>, m)
     else if js_get js jmsg ''group_chat_created'' \<noteq> None then (0, msg\<lparr>msg_type := TG_MSG_GROUP_CHAT_CREATED\<rparr>, m)
     else if js_get js jmsg ''supergroup_chat_created'' \<noteq> None then (0, msg\<lparr>msg_type := TG_MSG_SUPERGROUP_CHAT_CREATED\<rparr>, m)
     else if js_get js jmsg ''channel_chat_created'' \<noteq> None then (0, msg\<lparr>msg_type := TG_MSG_CHANNEL_CHAT_CREATED\<rparr>, m)
     else if js_get js jmsg ''migrate_to_chat_id'' \<noteq> None then (0, msg\<lparr>msg_type := TG_MSG_MIGRATE_TO_CHAT_ID\<rparr>, m)
     else if js_get js jmsg ''migrate_from_chat_id'' \<noteq> None then (0, msg\<lparr>msg_type := TG_MSG_MIGRATE_FROM_CHAT_ID\<rparr>, m)
     else if js_get js jmsg ''pinned_message'' \<noteq> None then (0, msg\<lparr>msg_type := TG_MSG_PINNED_MESSAGE\<rparr>, m)
     else (0, msg\<lparr>msg_type := TG_MSG_UNKNOWN\<rparr>, m))"

text \<open>The two error labels of \<open>tgj_get_message\<close>, the inner one first.\<close>

definition err_free_from ::
    "int \<Rightarrow> tg_message \<Rightarrow> ('j, 'r) tg_mem \<Rightarrow> int \<times> tg_message \<times> ('j, 'r) tg_mem" where
  "err_free_from ret msg m = (ret, msg\<lparr>msg_from := NULL\<rparr>, tg_free (msg_from msg) m)"

definition err_free_chat ::
    "int \<Rightarrow> tg_message \<Rightarrow> ('j, 'r) tg_mem \<Rightarrow> int \<times> tg_message \<times> ('j, 'r) tg_mem" where
  "err_free_chat ret msg m = err_free_from ret (msg\<lparr>msg_chat := NULL\<rparr>) (tg_free (msg_chat msg) m)"

definition tgj_get_message ::
    "('j, 'r) json_ops \<Rightarrow> tg_message \<Rightarrow> 'j \<Rightarrow> ('j, 'r) tg_mem \<Rightarrow> int \<times> tg_message \<times> ('j, 'r) tg_mem" where
  "tgj_get_message js msg jmsg m =
     (case js_get js jmsg ''message_id'' of
        None \<Rightarrow> (- ENOENT, msg, m)
      | Some res \<Rightarrow>
          let msg1 = msg\<lparr>message_id := js_uint64 js res\<rparr>
          in case js_get js jmsg ''date'' of
               None \<Rightarrow> (- ENOENT, msg1, m)
             | Some res \<Rightarrow>
                 let msg2 = msg1\<lparr>msg_date := js_uint64 js res\<rparr>
                 in case js_get js jmsg ''from'' of
                      None \<Rightarrow> (- ENOENT, msg2\<lparr>message_id := 0\<rparr>, m)
                    | Some res \<Rightarrow>
                        let (ret, frm, m1) = tgj_get_user_and_alloc js res (msg_from msg2) m;
                            msg3 = msg2\<lparr>msg_from := frm\<rparr>
                        in if ret \<noteq> 0 then (ret, msg3, m1)
                           else case js_get js jmsg ''chat'' of
                             None \<Rightarrow> err_free_from (- ENOENT) msg3 m1
                           | Some res \<Rightarrow>
                               let (ret, chat, m2) = tgj_get_chat_and_alloc js res (msg_chat msg3) m1;
                                   msg4 = msg3\<lparr>msg_chat := chat\<rparr>
                               in if ret \<noteq> 0 then err_free_from ret msg4 m2
                                  else
                                    let (ret, msg5, m3) = tgj_arrange_message_variant js msg4 jmsg m2
                                    in if ret \<noteq> 0 then err_free_chat ret msg5 m3
                                       else (0, msg5, m3))"

section \<open>Updates\<close>

definition tgj_get_update ::
    "('j, 'r) json_ops \<Rightarrow> 'j tg_update \<Rightarrow> 'j \<Rightarrow> ('j, 'r) tg_mem \<Rightarrow>
     int \<times> 'j tg_update \<times> ('j, 'r) tg_mem" where
  "tgj_get_update js update jobj m =
     (case js_get js jobj ''update_id'' of
        None \<Rightarrow> (- ENOENT, update, m)
      | Some res \<Rightarrow>
          let u1 = update\<lparr>update_id := js_uint64 js res\<rparr>
          in case js_get js jobj ''message'' of
               None \<Rightarrow> (0, u1\<lparr>update_type := TG_UPDATE_UNKNOWN\<rparr>, m)
             | Some res \<Rightarrow>
                 let u2 = u1\<lparr>update_type := TG_UPDATE_MESSAGE\<rparr>;
                     (ret, msg, m1) = tgj_get_message js (update_message u2) res m
                 in (ret, u2\<lparr>update_message := msg\<rparr>, m1))"

definition json_put :: "('j, 'r) json_ops \<Rightarrow> 'j \<Rightarrow> ('j, 'r) tg_mem \<Rightarrow> int \<times> ('j, 'r) tg_mem" where
  "json_put js j m = (let (ret, r) = js_put js j (jstate m) in (ret, m\<lparr>jstate := r\<rparr>))"

definition json_ref :: "('j, 'r) json_ops \<Rightarrow> 'j \<Rightarrow> ('j, 'r) tg_mem \<Rightarrow> ('j, 'r) tg_mem" where
  "json_ref js j m = m\<lparr>jstate := js_ref js j (jstate m)\<rparr>"

definition tgapi_parse_update_len ::
    "('j, 'r) json_ops \<Rightarrow> 'j tokener \<Rightarrow> 'j tg_update \<Rightarrow> ('j, 'r) tg_mem \<Rightarrow>
     (int \<times> 'j tg_update \<times> ('j, 'r) tg_mem) option" where
  "tgapi_parse_update_len js tok update m =
     (case parse_json tok of
        None \<Rightarrow> None
      | Some (ret, jo) \<Rightarrow>
          (case jo of
             None \<Rightarrow> Some (ret, update, m)
           | Some jobj \<Rightarrow>
               let (ret, u1, m1) = tgj_get_update js (update\<lparr>update_json := jobj\<rparr>) jobj m
               in if ret \<noteq> 0
                  then Some (ret, zero_update js, snd (json_put js (update_json u1) m1))
                  else Some (0, u1, m1)))"

definition tgapi_free_message :: "tg_message \<Rightarrow> ('j, 'r) tg_mem \<Rightarrow> ('j, 'r) tg_mem" where
  "tgapi_free_message msg m =
     (let m1 = (if msg_type msg = TG_MSG_TEXT then tg_free (msg_entities msg) m else m)
      in tg_free (msg_chat msg) (tg_free (msg_from msg) m1))"

definition tgapi_inc_ref_update ::
    "('j, 'r) json_ops \<Rightarrow> 'j tg_update \<Rightarrow> ('j, 'r) tg_mem \<Rightarrow> ('j, 'r) tg_mem" where
  "tgapi_inc_ref_update js update m = json_ref js (update_json update) m"

definition tgapi_free_update ::
    "('j, 'r) json_ops \<Rightarrow> 'j tg_update \<Rightarrow> ('j, 'r) tg_mem \<Rightarrow> 'j tg_update \<times> ('j, 'r) tg_mem" where
  "tgapi_free_update js update m =
     (if update_json update = js_null js then (update, m)
      else
        let (ret, m1) = json_put js (update_json update) m
        in if 0 < ret then (update, m1)
           else
             let u1 = update\<lparr>update_json := js_null js\<rparr>
             in (u1, if update_type u1 = TG_UPDATE_MESSAGE
                     then tgapi_free_message (update_message u1) m1 else m1))"

text \<open>\<open>for (i = 0; i < len; i++) tgapi_free_update(&updates[i])\<close>.\<close>

fun free_update_list ::
    "('j, 'r) json_ops \<Rightarrow> 'j tg_update list \<Rightarrow> ('j, 'r) tg_mem \<Rightarrow> ('j, 'r) tg_mem" where
  "free_update_list js [] m = m"
| "free_update_list js (u # us) m = free_update_list js us (snd (tgapi_free_update js u m))"

text \<open>
  The parsing loop of \<open>tgapi_parse_updates_len_max\<close> from index \<open>i\<close>, with \<open>n\<close> rounds to go:
  false when it left for the label \<open>out_clean\<close>.
\<close>

fun parse_updates_loop ::
    "('j, 'r) json_ops \<Rightarrow> 'j \<Rightarrow> nat \<Rightarrow> nat \<Rightarrow> nat \<Rightarrow> 'j tg_update list \<Rightarrow> ('j, 'r) tg_mem \<Rightarrow>
     bool \<times> nat \<times> 'j tg_update list \<times> ('j, 'r) tg_mem" where
  "parse_updates_loop js result i 0 j us m = (True, j, us, m)"
| "parse_updates_loop js result i (Suc n) j us m =
     (let update = js_idx js result i
      in if update = js_null js then (False, j, us, m)
         else
           let (ret, u, m1) = tgj_get_update js (us ! j) update m;
               us1 = us[j := u]
           in if ret \<noteq> 0 then parse_updates_loop js result (Suc i) n j us1 m1
              else parse_updates_loop js result (Suc i) n (Suc j) us1 (json_ref js update m1))"

text \<open>
  \<open>updates_p\<close> is the caller's variable. At \<open>out_clean\<close> the array is freed, and \<open>ret\<close> is
  still 0 when the code goes back to \<open>out\<close>.
\<close>

definition tgapi_parse_updates_len_max ::
    "('j, 'r) json_ops \<Rightarrow> 'j tokener \<Rightarrow> nat \<Rightarrow> ptr \<Rightarrow> ('j, 'r) tg_mem \<Rightarrow>
     (int \<times> ptr \<times> ('j, 'r) tg_mem) option" where
  "tgapi_parse_updates_len_max js tok max_updates updates_p m =
     (case parse_json tok of
        None \<Rightarrow> None
      | Some (ret, jo) \<Rightarrow>
          (case jo of
             None \<Rightarrow> Some (ret, updates_p, m)
           | Some jobj \<Rightarrow>
               (case js_get js jobj ''result'' of
                  None \<Rightarrow> Some (- ENOENT, updates_p, snd (json_put js jobj m))
                | Some result \<Rightarrow>
                    let len = min (js_length js result) max_updates;
                        (ok, ms) = next_alloc (tg_mallocs m);
                        m1 = m\<lparr>tg_mallocs := ms\<rparr>
                    in if \<not> ok then Some (- ENOMEM, updates_p, snd (json_put js jobj m1))
                       else
                         let p = fresh_ptr (arrays m1);
                             (fin, j, us, m2) =
                               parse_updates_loop js result 0 len 0 (replicate len (zero_update js)) m1;
                             m3 = (if fin
                                   then m2\<lparr>arrays := (p, \<lparr>updates_len = len, updates_arr = us\<rparr>) # arrays m2\<rparr>
                                   else free_update_list js us m2)
                         in Some (0, p, snd (json_put js jobj m3)))))"

text \<open>The calls with no limit, and the ones on a terminated string: \<open>tok_of\<close> is the tokener on a text of
  a length.\<close>

definition tgapi_parse_updates_len ::
    "('j, 'r) json_ops \<Rightarrow> 'j tokener \<Rightarrow> ptr \<Rightarrow> ('j, 'r) tg_mem \<Rightarrow>
     (int \<times> ptr \<times> ('j, 'r) tg_mem) option" where
  "tgapi_parse_updates_len js tok updates_p m =
     tgapi_parse_updates_len_max js tok (2 ^ 64 - 1) updates_p m"

definition tgapi_parse_updates ::
    "('j, 'r) json_ops \<Rightarrow> (char list option \<Rightarrow> nat \<Rightarrow> 'j tokener) \<Rightarrow> string \<Rightarrow> ptr \<Rightarrow> ('j, 'r) tg_mem \<Rightarrow>
     (int \<times> ptr \<times> ('j, 'r) tg_mem) option" where
  "tgapi_parse_updates js tok_of json updates_p m =
     tgapi_parse_updates_len js (tok_of (Some json) (length json + 1)) updates_p m"

definition tgapi_parse_update ::
    "('j, 'r) json_ops \<Rightarrow> (char list option \<Rightarrow> nat \<Rightarrow> 'j tokener) \<Rightarrow> string \<Rightarrow> 'j tg_update \<Rightarrow>
     ('j, 'r) tg_mem \<Rightarrow> (int \<times> 'j tg_update \<times> ('j, 'r) tg_mem) option" where
  "tgapi_parse_update js tok_of json update m =
     tgapi_parse_update_len js (tok_of (Some json) (length json + 1)) update m"

definition tgapi_free_updates ::
    "('j, 'r) json_ops \<Rightarrow> ptr \<Rightarrow> ('j, 'r) tg_mem \<Rightarrow> ('j, 'r) tg_mem option" where
  "tgapi_free_updates js p m =
     map_option (\<lambda>ups. let m1 = free_update_list js (updates_arr ups) m
                       in m1\<lparr>arrays := heap_free p (arrays m1)\<rparr>) (map_of (arrays m) p)"

text \<open>The keys the if chain tests after \<open>text\<close>, in its order.\<close>

definition variant_table :: "(string \<times> tg_msg_type) list" where
  "variant_table =
    [(''photo'', TG_MSG_PHOTO),
     (''sticker'', TG_MSG_STICKER),
     (''video'', TG_MSG_VIDEO),
     (''voice'', TG_MSG_VOICE),
     (''audio'', TG_MSG_AUDIO),
     (''document'', TG_MSG_DOCUMENT),
     (''location'', TG_MSG_LOCATION),
     (''contact'', TG_MSG_CONTACT),
     (''new_chat_members'', TG_MSG_NEW_CHAT_MEMBERS),
     (''left_chat_member'', TG_MSG_LEFT_CHAT_MEMBER),
     (''new_chat_title'', TG_MSG_NEW_CHAT_TITLE),
     (''new_chat_photo'', TG_MSG_NEW_CHAT_PHOTO),
     (''delete_chat_photo'', TG_MSG_DELETE_CHAT_PHOTO),
     (''group_chat_created'', TG_MSG_GROUP_CHAT_CREATED),
     (''supergroup_chat_created'', TG_MSG_SUPERGROUP_CHAT_CREATED),
     (''channel_chat_created'', TG_MSG_CHANNEL_CHAT_CREATED),
     (''migrate_to_chat_id'', TG_MSG_MIGRATE_TO_CHAT_ID),
     (''migrate_from_chat_id'', TG_MSG_MIGRATE_FROM_CHAT_ID),
     (''pinned_message'', TG_MSG_PINNED_MESSAGE)]"

section \<open>Allocation and release\<close>

text \<open>Two memories with the same live blocks, frees and references.\<close>

definition same_mem :: "('j, 'r) tg_mem \<Rightarrow> ('j, 'r) tg_mem \<Rightarrow> bool" where
  "same_mem m m' = (map_of (blocks m') = map_of (blocks m) \<and> bad_frees m' = bad_frees m \<and>
     arrays m' = arrays m \<and> jstate m' = jstate m)"

text \<open>\<open>m'\<close> is \<open>m\<close> with the new block \<open>b\<close> at \<open>p\<close>.\<close>

definition new_block :: "('j, 'r) tg_mem \<Rightarrow> ptr \<Rightarrow> tg_block \<Rightarrow> ('j, 'r) tg_mem \<Rightarrow> bool" where
  "new_block m p b m' = (p \<noteq> NULL \<and> map_of (blocks m) p = None \<and>
     map_of (blocks m') = (map_of (blocks m))(p \<mapsto> b) \<and> bad_frees m' = bad_frees m \<and>
     arrays m' = arrays m \<and> jstate m' = jstate m)"

lemma same_mem_refl [simp]: "same_mem m m"
  by (simp add: same_mem_def)

lemma same_mem_trans: "same_mem a b \<Longrightarrow> same_mem b c \<Longrightarrow> same_mem a c"
  by (simp add: same_mem_def)

lemma same_mem_new_block: "same_mem a b \<Longrightarrow> new_block b p x c \<Longrightarrow> new_block a p x c"
  by (simp add: same_mem_def new_block_def)

lemma tg_free_new_block:
  assumes "new_block m p b m'"
  shows "same_mem m (tg_free p m')"
  using assms by (auto simp: new_block_def same_mem_def tg_free_def)

lemma tg_free_swap:
  assumes "new_block m p b m1" and "new_block m1 q c m2"
  shows "new_block m q c (tg_free p m2)"
  using assms by (auto simp: new_block_def tg_free_def)

lemma new_block_null [simp]: "\<not> new_block m NULL b m'"
  by (simp add: new_block_def)

lemma tg_malloc_null: "tg_malloc b m = (NULL, m') \<Longrightarrow> same_mem m m'"
  by (auto simp: tg_malloc_def Let_def same_mem_def split: prod.splits if_splits)

lemma tg_malloc_new: "tg_malloc b m = (p, m') \<Longrightarrow> p \<noteq> NULL \<Longrightarrow> new_block m p b m'"
  by (auto simp: tg_malloc_def Let_def new_block_def split: prod.splits if_splits)

lemma tgj_get_user_and_alloc_cases:
  assumes "tgj_get_user_and_alloc js j up m = (ret, up', m')"
  shows "if ret = 0 then tgj_get_user js j = (0, snd (tgj_get_user js j)) \<and>
      new_block m up' (B_user (snd (tgj_get_user js j))) m'
    else up' = up \<and> same_mem m m'"
proof -
  obtain ru user where g: "tgj_get_user js j = (ru, user)" by (cases "tgj_get_user js j")
  obtain p m1 where a: "tg_malloc (B_user user) m = (p, m1)" by (cases "tg_malloc (B_user user) m")
  have nz: "ENOMEM \<noteq> 0" by (simp add: ENOMEM_def)
  show ?thesis
  proof (cases "p = NULL")
    case True
    with assms g a nz have "ret \<noteq> 0" "up' = up" "m' = m1"
      by (auto simp: tgj_get_user_and_alloc_def)
    with tg_malloc_null a True show ?thesis by simp
  next
    case False
    note nb = tg_malloc_new [OF a False]
    from assms g a False tg_free_new_block [OF nb] nb show ?thesis
      by (cases "ru = 0") (auto simp: tgj_get_user_and_alloc_def)
  qed
qed

lemma tgj_get_chat_and_alloc_cases:
  assumes "tgj_get_chat_and_alloc js j cp m = (ret, cp', m')"
  shows "if ret = 0 then tgj_get_chat js j = (0, snd (tgj_get_chat js j)) \<and>
      new_block m cp' (B_chat (snd (tgj_get_chat js j))) m'
    else cp' = cp \<and> same_mem m m'"
proof -
  obtain rc chat where g: "tgj_get_chat js j = (rc, chat)" by (cases "tgj_get_chat js j")
  obtain p m1 where a: "tg_malloc (B_chat chat) m = (p, m1)" by (cases "tg_malloc (B_chat chat) m")
  have nz: "ENOMEM \<noteq> 0" by (simp add: ENOMEM_def)
  show ?thesis
  proof (cases "p = NULL")
    case True
    with assms g a nz have "ret \<noteq> 0" "cp' = cp" "m' = m1"
      by (auto simp: tgj_get_chat_and_alloc_def)
    with tg_malloc_null a True show ?thesis by simp
  next
    case False
    note nb = tg_malloc_new [OF a False]
    from assms g a False tg_free_new_block [OF nb] nb show ?thesis
      by (cases "rc = 0") (auto simp: tgj_get_chat_and_alloc_def)
  qed
qed

lemma tgj_get_entities_and_alloc_cases:
  assumes "tgj_get_entities_and_alloc js j ep m = (ret, ep', m')"
  shows "if 0 \<le> ret then ret = int_of_size (js_length js j) \<and> new_block m ep' (B_entities (js_length js j)) m'
    else ep' = ep \<and> same_mem m m'"
proof -
  let ?b = "B_entities (js_length js j)"
  obtain p m1 where a: "tg_malloc ?b m = (p, m1)" by (cases "tg_malloc ?b m")
  have neg: "\<not> 0 \<le> - ENOMEM" by (simp add: ENOMEM_def)
  show ?thesis
  proof (cases "p = NULL")
    case True
    with assms a have "ret = - ENOMEM" "ep' = ep" "m' = m1"
      by (simp_all add: tgj_get_entities_and_alloc_def Let_def)
    with tg_malloc_null a True neg show ?thesis by simp
  next
    case False
    note nb = tg_malloc_new [OF a False]
    from assms a False tg_free_new_block [OF nb] nb show ?thesis
      by (auto simp: tgj_get_entities_and_alloc_def Let_def tgj_get_message_entities_def split: if_splits)
  qed
qed

section \<open>The kind of a message\<close>

definition variant_of :: "('j, 'r) json_ops \<Rightarrow> 'j \<Rightarrow> tg_msg_type" where
  "variant_of js jmsg =
     (if js_get js jmsg ''text'' \<noteq> None then TG_MSG_TEXT
      else case List.find (\<lambda>(k, t). js_get js jmsg k \<noteq> None) variant_table of
             Some (k, t) \<Rightarrow> t
           | None \<Rightarrow> TG_MSG_UNKNOWN)"

lemma arrange_no_text:
  assumes "js_get js jmsg ''text'' = None"
  shows "tgj_arrange_message_variant js msg jmsg m = (0, msg\<lparr>msg_type := variant_of js jmsg\<rparr>, m)"
  using assms
  by (simp add: tgj_arrange_message_variant_def variant_of_def variant_table_def
      if_distrib [of "case_option _ _"] if_distrib [of "\<lambda>t. (0, msg\<lparr>msg_type := t\<rparr>, m)"] cong: if_cong)

lemma arrange_cases:
  assumes "tgj_arrange_message_variant js msg jmsg m = (ret, msg', m')"
  shows "msg_type msg' = variant_of js jmsg \<and> message_id msg' = message_id msg \<and>
    msg_from msg' = msg_from msg \<and> msg_date msg' = msg_date msg \<and> msg_chat msg' = msg_chat msg \<and>
    (ret = 0 \<and> msg_type msg' = TG_MSG_TEXT \<and> (\<exists>n. new_block m (msg_entities msg') (B_entities n) m') \<or>
     msg_entities msg' = msg_entities msg \<and> same_mem m m')"
proof (cases "js_get js jmsg ''text''")
  case None
  with assms arrange_no_text [OF None, of msg m] show ?thesis by auto
next
  case (Some t)
  then have v: "variant_of js jmsg = TG_MSG_TEXT" by (simp add: variant_of_def)
  show ?thesis
  proof (cases "js_get js jmsg ''entities''")
    case None
    with Some assms v show ?thesis by (auto simp: tgj_arrange_message_variant_def)
  next
    case e: (Some ents)
    obtain r ep m1 where c: "tgj_get_entities_and_alloc js ents (msg_entities msg) m = (r, ep, m1)"
      by (metis prod_cases3)
    from assms Some e c v have
      "msg_type msg' = TG_MSG_TEXT" "m' = m1" "msg_entities msg' = ep" "ret = (if r < 0 then r else 0)"
      "message_id msg' = message_id msg" "msg_from msg' = msg_from msg"
      "msg_date msg' = msg_date msg" "msg_chat msg' = msg_chat msg"
      by (auto simp: tgj_arrange_message_variant_def Let_def split: if_splits)
    with tgj_get_entities_and_alloc_cases [OF c] v show ?thesis
      by (auto split: if_splits)
  qed
qed

section \<open>Ownership of a message\<close>

lemma new_block_same_mem: "new_block a p x b \<Longrightarrow> same_mem b c \<Longrightarrow> new_block a p x c"
  by (simp add: same_mem_def new_block_def)

lemma new_blocks_freed:
  assumes "new_block m p b m1" and "new_block m1 q c m2" and "same_mem m2 m3"
  shows "same_mem m (tg_free q (tg_free p m3))"
proof -
  have "new_block m1 q c m3" by (rule new_block_same_mem [OF assms(2,3)])
  from tg_free_swap [OF assms(1) this] have "new_block m q c (tg_free p m3)" .
  then show ?thesis by (rule tg_free_new_block)
qed

lemma tgj_get_message_ok:
  assumes call: "tgj_get_message js msg jmsg m = (0, msg', m')"
  obtains jfrom jchat m1 m2 where
    "js_get js jmsg ''from'' = Some jfrom" "js_get js jmsg ''chat'' = Some jchat"
    "new_block m (msg_from msg') (B_user (snd (tgj_get_user js jfrom))) m1"
    "new_block m1 (msg_chat msg') (B_chat (snd (tgj_get_chat js jchat))) m2"
    "msg_type msg' = variant_of js jmsg"
    "msg_type msg' = TG_MSG_TEXT \<and> (\<exists>n. new_block m2 (msg_entities msg') (B_entities n) m') \<or>
     msg_entities msg' = msg_entities msg \<and> same_mem m2 m'"
proof -
  have nz: "ENOENT \<noteq> 0" by (simp add: ENOENT_def)
  from call nz obtain jid jdate jfrom where
    j: "js_get js jmsg ''message_id'' = Some jid" "js_get js jmsg ''date'' = Some jdate"
      "js_get js jmsg ''from'' = Some jfrom"
    by (auto simp: tgj_get_message_def Let_def split: option.splits)
  obtain r1 frm m1 where u: "tgj_get_user_and_alloc js jfrom (msg_from msg) m = (r1, frm, m1)"
    by (metis prod_cases3)
  from call j u nz obtain jchat where r1: "r1 = 0" and jc: "js_get js jmsg ''chat'' = Some jchat"
    by (cases "js_get js jmsg ''chat''")
      (auto simp: tgj_get_message_def Let_def err_free_from_def split: if_splits)
  let ?msg3 = "msg\<lparr>message_id := js_uint64 js jid, msg_date := js_uint64 js jdate, msg_from := frm\<rparr>"
  obtain r2 chat m2 where c: "tgj_get_chat_and_alloc js jchat (msg_chat msg) m1 = (r2, chat, m2)"
    by (metis prod_cases3)
  from call j u r1 jc c have r2: "r2 = 0"
    by (auto simp: tgj_get_message_def Let_def err_free_from_def split: if_splits)
  let ?msg4 = "?msg3\<lparr>msg_chat := chat\<rparr>"
  obtain r3 msg5 m3 where a: "tgj_arrange_message_variant js ?msg4 jmsg m2 = (r3, msg5, m3)"
    by (metis prod_cases3)
  from call j u r1 jc c r2 a have "r3 = 0" "msg' = msg5" "m' = m3"
    by (auto simp: tgj_get_message_def Let_def err_free_chat_def err_free_from_def split: if_splits)
  with arrange_cases [OF a] tgj_get_user_and_alloc_cases [OF u] tgj_get_chat_and_alloc_cases [OF c] r1 r2
  show ?thesis by (intro that [OF j(3) jc, of m1 m2]) auto
qed

lemma tgj_get_message_error:
  assumes call: "tgj_get_message js msg jmsg m = (ret, msg', m')" and "ret \<noteq> 0"
  shows "same_mem m m'"
proof (cases "js_get js jmsg ''message_id'' = None \<or> js_get js jmsg ''date'' = None \<or>
    js_get js jmsg ''from'' = None")
  case True
  with call show ?thesis by (auto simp: tgj_get_message_def Let_def split: option.splits)
next
  case False
  then obtain jid jdate jfrom where
    j: "js_get js jmsg ''message_id'' = Some jid" "js_get js jmsg ''date'' = Some jdate"
      "js_get js jmsg ''from'' = Some jfrom" by auto
  obtain r1 frm m1 where u: "tgj_get_user_and_alloc js jfrom (msg_from msg) m = (r1, frm, m1)"
    by (metis prod_cases3)
  note uc = tgj_get_user_and_alloc_cases [OF u]
  show ?thesis
  proof (cases "r1 = 0 \<and> js_get js jmsg ''chat'' \<noteq> None")
    case False
    with call j u uc show ?thesis
      by (auto simp: tgj_get_message_def Let_def err_free_from_def dest: tg_free_new_block
          split: if_splits option.splits)
  next
    case True
    then obtain jchat where jc: "js_get js jmsg ''chat'' = Some jchat" by auto
    let ?msg3 = "msg\<lparr>message_id := js_uint64 js jid, msg_date := js_uint64 js jdate, msg_from := frm\<rparr>"
    obtain r2 chat m2 where c: "tgj_get_chat_and_alloc js jchat (msg_chat msg) m1 = (r2, chat, m2)"
      by (metis prod_cases3)
    note cc = tgj_get_chat_and_alloc_cases [OF c]
    from uc True have nu: "new_block m frm (B_user (snd (tgj_get_user js jfrom))) m1" by simp
    show ?thesis
    proof (cases "r2 = 0")
      case False
      with cc have "same_mem m1 m2" by simp
      from tg_free_new_block [OF new_block_same_mem [OF nu this]] have "same_mem m (tg_free frm m2)" .
      moreover from call j u True jc c False have "m' = tg_free frm m2"
        by (auto simp: tgj_get_message_def Let_def err_free_from_def)
      ultimately show ?thesis by simp
    next
      case r2: True
      let ?msg4 = "?msg3\<lparr>msg_chat := chat\<rparr>"
      obtain r3 msg5 m3 where a: "tgj_arrange_message_variant js ?msg4 jmsg m2 = (r3, msg5, m3)"
        by (metis prod_cases3)
      from call j u True jc c r2 a \<open>ret \<noteq> 0\<close> have r3: "r3 \<noteq> 0"
        and m': "m' = tg_free (msg_from msg5) (tg_free (msg_chat msg5) m3)"
        by (auto simp: tgj_get_message_def Let_def err_free_chat_def err_free_from_def split: if_splits)
      from arrange_cases [OF a] r3 have "same_mem m2 m3" "msg_from msg5 = frm" "msg_chat msg5 = chat"
        by auto
      moreover from cc r2 have nc: "new_block m1 chat (B_chat (snd (tgj_get_chat js jchat))) m2" by simp
      ultimately have "same_mem m1 (tg_free chat m3)"
        by (blast intro: tg_free_new_block new_block_same_mem)
      with nu have "same_mem m (tg_free frm (tg_free chat m3))"
        by (blast intro: tg_free_new_block new_block_same_mem)
      with m' \<open>msg_from msg5 = frm\<close> \<open>msg_chat msg5 = chat\<close> show ?thesis by simp
    qed
  qed
qed

lemma arrange_text:
  assumes "tgj_arrange_message_variant js msg j m = (ret, msg', m')"
  shows "msg_text msg' = (case js_get js j ''text'' of Some t \<Rightarrow> js_string js t | None \<Rightarrow> msg_text msg)"
proof (cases "js_get js j ''text''")
  case None
  with assms arrange_no_text [OF None, of msg m] show ?thesis by auto
next
  case (Some t)
  with assms show ?thesis
    by (auto simp: tgj_arrange_message_variant_def Let_def split: option.splits prod.splits if_splits)
qed

lemma message_fields:
  assumes "tgj_get_message js msg j m = (0, msg', m')"
  shows "message_id msg' = js_uint64 js (the (js_get js j ''message_id''))"
    and "msg_text msg' = (case js_get js j ''text'' of Some t \<Rightarrow> js_string js t | None \<Rightarrow> msg_text msg)"
    and "msg_date msg' = js_uint64 js (the (js_get js j ''date''))"
proof -
  have nz: "ENOENT \<noteq> 0" by (simp add: ENOENT_def)
  from assms nz obtain jid jdate jfrom where
    j: "js_get js j ''message_id'' = Some jid" "js_get js j ''date'' = Some jdate"
      "js_get js j ''from'' = Some jfrom"
    by (auto simp: tgj_get_message_def Let_def split: option.splits)
  obtain r1 frm m1 where u: "tgj_get_user_and_alloc js jfrom (msg_from msg) m = (r1, frm, m1)"
    by (metis prod_cases3)
  from assms j u nz obtain jchat where r1: "r1 = 0" and jc: "js_get js j ''chat'' = Some jchat"
    by (cases "js_get js j ''chat''")
      (auto simp: tgj_get_message_def Let_def err_free_from_def split: if_splits)
  obtain r2 chat m2 where c: "tgj_get_chat_and_alloc js jchat (msg_chat msg) m1 = (r2, chat, m2)"
    by (metis prod_cases3)
  let ?msg4 = "msg\<lparr>message_id := js_uint64 js jid, msg_date := js_uint64 js jdate, msg_from := frm,
      msg_chat := chat\<rparr>"
  obtain r3 msg5 m3 where a: "tgj_arrange_message_variant js ?msg4 j m2 = (r3, msg5, m3)"
    by (metis prod_cases3)
  from assms j u r1 jc c a have "msg' = msg5"
    by (auto simp: tgj_get_message_def Let_def err_free_chat_def err_free_from_def split: if_splits)
  with arrange_text [OF a] arrange_cases [OF a] j(1,2)
  show "message_id msg' = js_uint64 js (the (js_get js j ''message_id''))"
    "msg_text msg' = (case js_get js j ''text'' of Some t \<Rightarrow> js_string js t | None \<Rightarrow> msg_text msg)"
    "msg_date msg' = js_uint64 js (the (js_get js j ''date''))"
    by (simp_all split: option.splits)
qed

text \<open>
  C14: \<open>tgj_get_message\<close> owns what it allocates, whatever the JSON is and whichever allocations
  fail. An error leaves the heap exactly as it was. On success the sender and the chat are live blocks
  with what was parsed, and \<open>tgapi_free_message\<close> gives back everything, without a free of anything
  that is not live, provided \<open>entities\<close> was \<open>NULL\<close> before.
\<close>

theorem tgj_get_message_ownership:
  assumes "tgj_get_message js msg jmsg m = (ret, msg', m')" and "msg_entities msg = NULL"
  shows "if ret \<noteq> 0 then same_mem m m'
    else same_mem m (tgapi_free_message msg' m') \<and> msg_type msg' = variant_of js jmsg \<and>
      map_of (blocks m') (msg_from msg') =
        Some (B_user (snd (tgj_get_user js (the (js_get js jmsg ''from''))))) \<and>
      map_of (blocks m') (msg_chat msg') =
        Some (B_chat (snd (tgj_get_chat js (the (js_get js jmsg ''chat'')))))"
proof (cases "ret = 0")
  case False
  with tgj_get_message_error [OF assms(1)] show ?thesis by simp
next
  case True
  from assms(1) True have call: "tgj_get_message js msg jmsg m = (0, msg', m')" by simp
  obtain jfrom jchat m1 m2 where
    j: "js_get js jmsg ''from'' = Some jfrom" "js_get js jmsg ''chat'' = Some jchat"
    and nu: "new_block m (msg_from msg') (B_user (snd (tgj_get_user js jfrom))) m1"
    and nc: "new_block m1 (msg_chat msg') (B_chat (snd (tgj_get_chat js jchat))) m2"
    and ty: "msg_type msg' = variant_of js jmsg"
    and en: "msg_type msg' = TG_MSG_TEXT \<and> (\<exists>n. new_block m2 (msg_entities msg') (B_entities n) m') \<or>
      msg_entities msg' = msg_entities msg \<and> same_mem m2 m'"
    by (rule tgj_get_message_ok [OF call])
  let ?m3 = "if msg_type msg' = TG_MSG_TEXT then tg_free (msg_entities msg') m' else m'"
  from en have "same_mem m2 ?m3"
    by (auto intro: tg_free_new_block simp: assms(2) tg_free_def [of NULL])
  from new_blocks_freed [OF nu nc this] have "same_mem m (tgapi_free_message msg' m')"
    by (simp add: tgapi_free_message_def Let_def)
  moreover have "map_of (blocks m') (msg_from msg') = map_of (blocks m2) (msg_from msg')"
      "map_of (blocks m') (msg_chat msg') = map_of (blocks m2) (msg_chat msg')"
    using en nu nc by (auto simp: new_block_def same_mem_def)
  moreover have "map_of (blocks m2) (msg_from msg') = Some (B_user (snd (tgj_get_user js jfrom)))"
      "map_of (blocks m2) (msg_chat msg') = Some (B_chat (snd (tgj_get_chat js jchat)))"
    using nu nc by (auto simp: new_block_def)
  ultimately show ?thesis using True ty j by simp
qed

section \<open>A concrete json-c\<close>

text \<open>JSON values with one reference counter, on which the witnesses run.\<close>

datatype json =
    J_null
  | J_bool bool
  | J_int int
  | J_str string
  | J_arr "json list"
  | J_obj "(string \<times> json) list"

fun json_get :: "json \<Rightarrow> string \<Rightarrow> json option" where
  "json_get (J_obj kvs) k = map_of kvs k"
| "json_get j k = None"

fun json_len :: "json \<Rightarrow> nat" where
  "json_len (J_arr js) = length js"
| "json_len j = 0"

fun json_idx :: "json \<Rightarrow> nat \<Rightarrow> json" where
  "json_idx (J_arr js) i = (if i < length js then js ! i else J_null)"
| "json_idx j i = J_null"

fun json_str :: "json \<Rightarrow> string option" where
  "json_str (J_str s) = Some s"
| "json_str j = None"

fun json_int :: "json \<Rightarrow> int" where
  "json_int (J_int i) = i"
| "json_int j = 0"

definition sample_js :: "(json, nat) json_ops" where
  "sample_js = \<lparr>js_null = J_null, js_get = json_get, js_length = json_len, js_idx = json_idx,
     js_string = json_str, js_uint64 = (\<lambda>j. of_int (json_int j)),
     js_int64 = (\<lambda>j. of_int (json_int j)), js_bool = (\<lambda>j. j = J_bool True),
     js_ref = (\<lambda>j r. if j = J_null then r else r + 1),
     js_put = (\<lambda>j r. if j = J_null then (0, r) else (if r = 1 then 1 else 0, r - 1))\<rparr>"

definition sample_mem :: "('j, nat) tg_mem" where
  "sample_mem = \<lparr>blocks = [], arrays = [], tg_mallocs = [], bad_frees = [], jstate = 1\<rparr>"

definition sample_message :: "string \<Rightarrow> json" where
  "sample_message txt = J_obj [(''message_id'', J_int 5), (''date'', J_int 1),
     (''from'', J_obj [(''id'', J_int 2), (''first_name'', J_str ''A'')]),
     (''chat'', J_obj [(''id'', J_int (- 3)), (''type'', J_str ''supergroup'')]),
     (''text'', J_str txt), (''entities'', J_arr [J_obj []])]"

definition sample_update :: "int \<Rightarrow> string \<Rightarrow> json" where
  "sample_update i txt = J_obj [(''update_id'', J_int i), (''message'', sample_message txt)]"

definition tok_once :: "'j \<Rightarrow> 'j tokener" where
  "tok_once j = \<lparr>tok_new = True, tok_parse = (\<lambda>n. (j, Tok_success))\<rparr>"

lemma parse_json_once [simp]: "parse_json (tok_once j) = Some (0, Some j)"
  by (simp add: parse_json_def tok_once_def tok_loop.simps)

theorem tgj_get_message_ownership_witness:
  "\<exists>msg' m'. tgj_get_message sample_js zero_message (sample_message ''/ping'') sample_mem = (0, msg', m') \<and>
     same_mem sample_mem (tgapi_free_message msg' m') \<and> msg_type msg' = TG_MSG_TEXT"
proof -
  obtain ret msg' m' where c: "tgj_get_message sample_js zero_message (sample_message ''/ping'') sample_mem = (ret, msg', m')"
    by (metis prod_cases3)
  have "fst (tgj_get_message sample_js zero_message (sample_message ''/ping'') sample_mem) = 0"
    by code_simp
  with c have "ret = 0" by simp
  have "msg_entities zero_message = NULL" by (simp add: zero_message_def)
  from tgj_get_message_ownership [OF c this] \<open>ret = 0\<close> c show ?thesis
    by (auto simp: variant_of_def sample_message_def sample_js_def)
qed

section \<open>Parsing a list of updates\<close>

lemma tgj_get_message_arrays:
  "tgj_get_message js msg jmsg m = (ret, msg', m') \<Longrightarrow> arrays m' = arrays m"
proof (cases "ret = 0")
  case True
  assume "tgj_get_message js msg jmsg m = (ret, msg', m')"
  with True have "tgj_get_message js msg jmsg m = (0, msg', m')" by simp
  from tgj_get_message_ok [OF this] show ?thesis
    by (metis new_block_def same_mem_def)
next
  case False
  assume "tgj_get_message js msg jmsg m = (ret, msg', m')"
  from tgj_get_message_error [OF this False] show ?thesis by (simp add: same_mem_def)
qed

lemma tgj_get_update_frame:
  assumes "tgj_get_update js u j m = (ret, u', m')"
  shows "arrays m' = arrays m" and "update_json u' = update_json u"
    and "js_get js j ''update_id'' = Some k \<Longrightarrow> update_id u' = js_uint64 js k"
  using assms tgj_get_message_arrays
  by (auto simp: tgj_get_update_def Let_def split: option.splits prod.splits)

lemma json_ref_frame [simp]: "arrays (json_ref js j m) = arrays m" "blocks (json_ref js j m) = blocks m"
  "tg_mallocs (json_ref js j m) = tg_mallocs m"
  by (simp_all add: json_ref_def)

lemma json_put_frame [simp]: "arrays (snd (json_put js j m)) = arrays m"
  "blocks (snd (json_put js j m)) = blocks m"
  by (simp_all add: json_put_def split: prod.splits)

lemma tg_free_arrays [simp]: "arrays (tg_free p m) = arrays m"
  by (simp add: tg_free_def)

lemma free_update_arrays [simp]: "arrays (snd (tgapi_free_update js u m)) = arrays m"
proof -
  obtain r m1 where jp: "json_put js (update_json u) m = (r, m1)" by (cases "json_put js (update_json u) m")
  with json_put_frame(1) [of js "update_json u" m] have "arrays m1 = arrays m" by simp
  with jp show ?thesis by (simp add: tgapi_free_update_def tgapi_free_message_def Let_def)
qed

lemma free_update_list_arrays [simp]: "arrays (free_update_list js us m) = arrays m"
  by (induction us arbitrary: m) simp_all

lemma parse_updates_loop_frame:
  "parse_updates_loop js result i n j us m = (fin, j', us', m') \<Longrightarrow>
   arrays m' = arrays m \<and> length us' = length us \<and>
   ((\<forall>u \<in> set us. update_json u = js_null js) \<longrightarrow> j + n \<le> length us \<longrightarrow>
      (\<forall>u \<in> set us'. update_json u = js_null js)) \<and>
   fin = (\<forall>k < n. js_idx js result (i + k) \<noteq> js_null js)"
proof (induction n arbitrary: i j us m)
  case (Suc n)
  have split: "(\<forall>k < Suc n. js_idx js result (i + k) \<noteq> js_null js) \<longleftrightarrow>
      js_idx js result i \<noteq> js_null js \<and> (\<forall>k < n. js_idx js result (Suc i + k) \<noteq> js_null js)"
    by (auto simp: less_Suc_eq_0_disj)
  show ?case
  proof (cases "js_idx js result i = js_null js")
    case True
    with Suc.prems show ?thesis by (auto simp: Let_def)
  next
    case False
    obtain ret u m1 where g: "tgj_get_update js (us ! j) (js_idx js result i) m = (ret, u, m1)"
      by (metis prod_cases3)
    note fr = tgj_get_update_frame [OF g]
    have keep: "(\<forall>v \<in> set us. update_json v = js_null js) \<Longrightarrow> j < length us \<Longrightarrow>
        (\<forall>v \<in> set (us[j := u]). update_json v = js_null js)"
      using fr(2) by (auto dest!: set_update_subset_insert [THEN subsetD])
    have room: "Suc j + n \<le> length (us[j := u])" "j + n \<le> length (us[j := u])" "j < length us"
      if "j + Suc n \<le> length us" using that by simp_all
    show ?thesis
    proof (cases "ret = 0")
      case True
      with False g Suc.prems have
        "parse_updates_loop js result (Suc i) n (Suc j) (us[j := u])
           (json_ref js (js_idx js result i) m1) = (fin, j', us', m')" by simp
      note IH = Suc.IH [OF this]
      have "fin = (\<forall>k < Suc n. js_idx js result (i + k) \<noteq> js_null js)" unfolding split using IH False by blast
      moreover have "(\<forall>u \<in> set us. update_json u = js_null js) \<longrightarrow> j + Suc n \<le> length us \<longrightarrow>
          (\<forall>u \<in> set us'. update_json u = js_null js)" using IH keep room by blast
      moreover have "arrays m' = arrays m \<and> length us' = length us" using IH fr(1) by simp
      ultimately show ?thesis by blast
    next
      case False2: False
      with False g Suc.prems have
        "parse_updates_loop js result (Suc i) n j (us[j := u]) m1 = (fin, j', us', m')" by simp
      note IH = Suc.IH [OF this]
      have "fin = (\<forall>k < Suc n. js_idx js result (i + k) \<noteq> js_null js)" unfolding split using IH False by blast
      moreover have "(\<forall>u \<in> set us. update_json u = js_null js) \<longrightarrow> j + Suc n \<le> length us \<longrightarrow>
          (\<forall>u \<in> set us'. update_json u = js_null js)" using IH keep room by blast
      moreover have "arrays m' = arrays m \<and> length us' = length us" using IH fr(1) by simp
      ultimately show ?thesis by blast
    qed
  qed
qed simp

text \<open>
  A \<open>null\<close> among the updates is reported as success with a dangling pointer: the call returns 0
  and stores the address of an array that it has already freed.
\<close>

lemma parse_updates_null_element:
  assumes "parse_json tok = Some (0, Some jobj)" and "js_get js jobj ''result'' = Some result"
    and "fst (next_alloc (tg_mallocs m))" and "i < min (js_length js result) mx"
    and "js_idx js result i = js_null js"
  shows "\<exists>p m'. tgapi_parse_updates_len_max js tok mx up m = Some (0, p, m') \<and> p \<noteq> NULL \<and>
    map_of (arrays m') p = None"
proof -
  define n where "n = min (js_length js result) mx"
  obtain ms where a: "next_alloc (tg_mallocs m) = (True, ms)"
    using assms(3) by (cases "next_alloc (tg_mallocs m)") auto
  let ?m1 = "m\<lparr>tg_mallocs := ms\<rparr>"
  obtain fin j us m2 where l: "parse_updates_loop js result 0 n 0 (replicate n (zero_update js)) ?m1 =
      (fin, j, us, m2)"
    by (metis prod_cases4)
  note fr = parse_updates_loop_frame [OF l]
  from fr assms(4,5) have "\<not> fin" by (auto simp: n_def)
  with assms(1,2) a l have "tgapi_parse_updates_len_max js tok mx up m =
      Some (0, fresh_ptr (arrays m), snd (json_put js jobj (free_update_list js us m2)))"
    by (simp add: tgapi_parse_updates_len_max_def Let_def n_def)
  moreover have "map_of (arrays (snd (json_put js jobj (free_update_list js us m2)))) (fresh_ptr (arrays m)) = None"
    using fr by simp
  ultimately show ?thesis by auto
qed

text \<open>
  C33: nothing the list parser allocates for the updates is ever released. It never sets \<open>json\<close> in them, so
  \<open>tgapi_free_updates\<close> on its result frees the array, and no sender, chat or entity block.
\<close>

theorem parsed_updates_leak:
  assumes "tgapi_parse_updates_len_max js tok mx up m = Some (0, p, m')"
    and "map_of (arrays m') p = Some ups" and "map_of (arrays m) p = None"
  shows "(\<forall>u \<in> set (updates_arr ups). update_json u = js_null js) \<and>
    (\<exists>m''. tgapi_free_updates js p m' = Some m'' \<and> blocks m'' = blocks m' \<and>
       map_of (arrays m'') = (map_of (arrays m'))(p := None))"
proof -
  have nz: "- EINVAL \<noteq> 0" "- ENOMEM \<noteq> 0" "- ENOENT \<noteq> 0" by (simp_all add: errno_defs)
  from assms(1) nz obtain jobj where pj: "parse_json tok = Some (0, Some jobj)"
    by (auto simp: tgapi_parse_updates_len_max_def parse_json_def split: option.splits if_splits prod.splits)
  with assms(1) nz obtain result where r: "js_get js jobj ''result'' = Some result"
    by (auto simp: tgapi_parse_updates_len_max_def split: option.splits)
  define n where "n = min (js_length js result) mx"
  obtain ok ms where a: "next_alloc (tg_mallocs m) = (ok, ms)" by (cases "next_alloc (tg_mallocs m)")
  with assms(1) pj r nz have ok by (auto simp: tgapi_parse_updates_len_max_def Let_def split: if_splits)
  let ?m1 = "m\<lparr>tg_mallocs := ms\<rparr>"
  obtain fin j us m2 where l: "parse_updates_loop js result 0 n 0 (replicate n (zero_update js)) ?m1 =
      (fin, j, us, m2)"
    by (metis prod_cases4)
  note fr = parse_updates_loop_frame [OF l]
  let ?ups = "\<lparr>updates_len = n, updates_arr = us\<rparr>"
  from assms(1) pj r a \<open>ok\<close> l have p: "p = fresh_ptr (arrays m)"
    and m': "m' = snd (json_put js jobj (if fin then m2\<lparr>arrays := (p, ?ups) # arrays m2\<rparr>
      else free_update_list js us m2))"
    by (auto simp: tgapi_parse_updates_len_max_def Let_def n_def)
  have fin: fin
  proof (rule ccontr)
    assume "\<not> fin"
    then have "arrays m' = arrays m" using fr by (simp add: m')
    with assms(2,3) show False by simp
  qed
  with assms(2) have ups: "ups = ?ups" by (simp add: m')
  have null: "\<forall>u \<in> set us. update_json u = js_null js"
    using fr by (auto simp: zero_update_def n_def)
  have none: "free_update_list js vs x = x" if "\<forall>u \<in> set vs. update_json u = js_null js" for vs x
    using that by (induction vs arbitrary: x) (simp_all add: tgapi_free_update_def)
  have "map_of (heap_free p h) = (map_of h)(p := None)" for h :: "'a tg_updates heap" by (rule ext) simp
  with null none [OF null] assms(2) show ?thesis
    by (simp add: tgapi_free_updates_def ups Let_def)
qed

theorem parsed_updates_leak_witness:
  "\<exists>p m' m''. tgapi_parse_updates_len_max sample_js
       (tok_once (J_obj [(''result'', J_arr [sample_update 1 ''hi''])])) 100 0 sample_mem = Some (0, p, m') \<and>
     tgapi_free_updates sample_js p m' = Some m'' \<and> length (blocks m'') = 3 \<and> map_of (arrays m'') p = None"
proof -
  let ?call = "tgapi_parse_updates_len_max sample_js
       (tok_once (J_obj [(''result'', J_arr [sample_update 1 ''hi''])])) 100 0 sample_mem"
  have "case ?call of None \<Rightarrow> False
      | Some (ret, p, m') \<Rightarrow> ret = 0 \<and> map_of (arrays m') p \<noteq> None \<and> length (blocks m') = 3"
    unfolding tgapi_parse_updates_len_max_def parse_json_once by code_simp
  then obtain p m' ups where c: "?call = Some (0, p, m')" "map_of (arrays m') p = Some ups"
      "length (blocks m') = 3"
    by (auto split: option.splits)
  have "map_of (arrays (sample_mem :: (json, nat) tg_mem)) p = None" by (simp add: sample_mem_def)
  from parsed_updates_leak [OF c(1,2) this] c(1,3) show ?thesis by auto
qed

text \<open>What makes an update parse when memory does not run out.\<close>

definition message_parses :: "('j, 'r) json_ops \<Rightarrow> 'j \<Rightarrow> bool" where
  "message_parses js j =
     (js_get js j ''message_id'' \<noteq> None \<and> js_get js j ''date'' \<noteq> None \<and>
      (case js_get js j ''from'' of None \<Rightarrow> False | Some f \<Rightarrow> fst (tgj_get_user js f) = 0) \<and>
      (case js_get js j ''chat'' of None \<Rightarrow> False | Some c \<Rightarrow> fst (tgj_get_chat js c) = 0) \<and>
      (case (js_get js j ''text'', js_get js j ''entities'') of
         (Some t, Some e) \<Rightarrow> 0 \<le> int_of_size (js_length js e) | _ \<Rightarrow> True))"

definition update_parses :: "('j, 'r) json_ops \<Rightarrow> 'j \<Rightarrow> bool" where
  "update_parses js j =
     (js_get js j ''update_id'' \<noteq> None \<and>
      (case js_get js j ''message'' of None \<Rightarrow> True | Some msg \<Rightarrow> message_parses js msg))"

lemma tg_malloc_plenty:
  "tg_mallocs m = [] \<Longrightarrow> tg_malloc b m = (fresh_ptr (blocks m), m\<lparr>blocks := (fresh_ptr (blocks m), b) # blocks m\<rparr>)"
  by (simp add: tg_malloc_def Let_def)

lemma tg_free_mallocs [simp]: "tg_mallocs (tg_free p m) = tg_mallocs m"
  by (simp add: tg_free_def)

lemma user_and_alloc_plenty:
  assumes "tg_mallocs m = []"
  shows "fst (tgj_get_user_and_alloc js j up m) = fst (tgj_get_user js j)"
    and "tg_mallocs (snd (snd (tgj_get_user_and_alloc js j up m))) = []"
  using assms by (auto simp: tgj_get_user_and_alloc_def tg_malloc_plenty Let_def split: prod.splits)

lemma chat_and_alloc_plenty:
  assumes "tg_mallocs m = []"
  shows "fst (tgj_get_chat_and_alloc js j up m) = fst (tgj_get_chat js j)"
    and "tg_mallocs (snd (snd (tgj_get_chat_and_alloc js j up m))) = []"
  using assms by (auto simp: tgj_get_chat_and_alloc_def tg_malloc_plenty Let_def split: prod.splits)

lemma arrange_plenty:
  assumes "tg_mallocs m = []" and "tgj_arrange_message_variant js msg j m = (ret, msg', m')"
  shows "tg_mallocs m' = [] \<and> (ret = 0 \<longleftrightarrow>
    (case (js_get js j ''text'', js_get js j ''entities'') of
         (Some t, Some e) \<Rightarrow> 0 \<le> int_of_size (js_length js e) | _ \<Rightarrow> True))"
proof (cases "js_get js j ''text''")
  case None
  with assms arrange_no_text [OF None, of msg m] show ?thesis by simp
next
  case (Some t)
  with assms show ?thesis
    by (cases "js_get js j ''entities''")
      (auto simp: tgj_arrange_message_variant_def tgj_get_entities_and_alloc_def tg_malloc_plenty
        tgj_get_message_entities_def Let_def split: if_splits)
qed

lemma tgj_get_message_plenty:
  assumes pl: "tg_mallocs m = []" and call: "tgj_get_message js msg j m = (ret, msg', m')"
  shows "tg_mallocs m' = [] \<and> (ret = 0 \<longleftrightarrow> message_parses js j)"
proof (cases "js_get js j ''message_id'' = None \<or> js_get js j ''date'' = None \<or> js_get js j ''from'' = None")
  case True
  with assms show ?thesis
    by (auto simp: tgj_get_message_def message_parses_def ENOENT_def Let_def split: option.splits)
next
  case False
  then obtain jid jdate jfrom where
    j: "js_get js j ''message_id'' = Some jid" "js_get js j ''date'' = Some jdate"
      "js_get js j ''from'' = Some jfrom" by auto
  obtain r1 frm m1 where u: "tgj_get_user_and_alloc js jfrom (msg_from msg) m = (r1, frm, m1)"
    by (metis prod_cases3)
  from user_and_alloc_plenty [OF pl, of js jfrom "msg_from msg"] u
  have u': "r1 = fst (tgj_get_user js jfrom)" "tg_mallocs m1 = []" by simp_all
  show ?thesis
  proof (cases "r1 = 0 \<and> js_get js j ''chat'' \<noteq> None")
    case False
    with call j u u' show ?thesis
      by (auto simp: tgj_get_message_def message_parses_def Let_def err_free_from_def ENOENT_def
          split: if_splits option.splits)
  next
    case True
    then obtain jchat where jc: "js_get js j ''chat'' = Some jchat" by auto
    obtain r2 chat m2 where c: "tgj_get_chat_and_alloc js jchat (msg_chat msg) m1 = (r2, chat, m2)"
      by (metis prod_cases3)
    from chat_and_alloc_plenty [OF u'(2), of js jchat "msg_chat msg"] c
    have c': "r2 = fst (tgj_get_chat js jchat)" "tg_mallocs m2 = []" by simp_all
    show ?thesis
    proof (cases "r2 = 0")
      case False
      with call j u u' True jc c c' show ?thesis
        by (auto simp: tgj_get_message_def message_parses_def Let_def err_free_from_def)
    next
      case r2: True
      let ?msg4 = "msg\<lparr>message_id := js_uint64 js jid, msg_date := js_uint64 js jdate,
          msg_from := frm, msg_chat := chat\<rparr>"
      obtain r3 msg5 m3 where a: "tgj_arrange_message_variant js ?msg4 j m2 = (r3, msg5, m3)"
        by (metis prod_cases3)
      note ap = arrange_plenty [OF c'(2) a]
      from call j u True jc c r2 a have "(r3 = 0) = (ret = 0)"
        and "m' = m3 \<or> (\<exists>p q. m' = tg_free p (tg_free q m3))"
        by (auto simp: tgj_get_message_def Let_def err_free_chat_def err_free_from_def split: if_splits)
      with ap j jc True r2 u'(1) c'(1) show ?thesis by (auto simp: message_parses_def)
    qed
  qed
qed

lemma tgj_get_update_plenty:
  assumes "tg_mallocs m = []" and "tgj_get_update js u j m = (ret, u', m')"
  shows "tg_mallocs m' = [] \<and> (ret = 0 \<longleftrightarrow> update_parses js j)"
proof (cases "js_get js j ''update_id'' = None \<or> js_get js j ''message'' = None")
  case True
  with assms show ?thesis
    by (auto simp: tgj_get_update_def update_parses_def ENOENT_def Let_def split: option.splits)
next
  case False
  then obtain k jm where j: "js_get js j ''update_id'' = Some k" "js_get js j ''message'' = Some jm" by auto
  obtain r msg m1 where g: "tgj_get_message js (update_message u) jm m = (r, msg, m1)"
    by (metis prod_cases3)
  from tgj_get_message_plenty [OF assms(1) g] assms(2) j g show ?thesis
    by (simp add: tgj_get_update_def update_parses_def Let_def)
qed

text \<open>The blocks that are live stay live.\<close>

definition keeps :: "('j, 'r) tg_mem \<Rightarrow> ('j, 'r) tg_mem \<Rightarrow> bool" where
  "keeps m m' = (\<forall>q b. map_of (blocks m) q = Some b \<longrightarrow> map_of (blocks m') q = Some b)"

lemma keeps_trans: "keeps a b \<Longrightarrow> keeps b c \<Longrightarrow> keeps a c"
  and keeps_same: "blocks b = blocks a \<Longrightarrow> keeps a b"
  by (simp_all add: keeps_def)

lemma keeps_new_block: "new_block m p b m' \<Longrightarrow> keeps m m'"
  and keeps_same_mem: "same_mem m m' \<Longrightarrow> keeps m m'"
  by (auto simp: keeps_def new_block_def same_mem_def)

lemma tgj_get_message_keeps:
  assumes "tgj_get_message js msg jm m = (ret, msg', m')"
  shows "keeps m m'"
proof (cases "ret = 0")
  case False
  from keeps_same_mem [OF tgj_get_message_error [OF assms this]] show ?thesis .
next
  case True
  then have g: "tgj_get_message js msg jm m = (0, msg', m')" using assms by simp
  obtain jfrom jchat m1 m2 where
    "new_block m (msg_from msg') (B_user (snd (tgj_get_user js jfrom))) m1"
    "new_block m1 (msg_chat msg') (B_chat (snd (tgj_get_chat js jchat))) m2"
    "msg_type msg' = TG_MSG_TEXT \<and> (\<exists>n. new_block m2 (msg_entities msg') (B_entities n) m') \<or>
     msg_entities msg' = msg_entities msg \<and> same_mem m2 m'"
    by (rule tgj_get_message_ok [OF g])
  then show ?thesis by (blast intro: keeps_trans keeps_new_block keeps_same_mem)
qed

lemma tgj_get_update_keeps: "tgj_get_update js u j m = (ret, u', m') \<Longrightarrow> keeps m m'"
  by (auto simp: tgj_get_update_def Let_def intro: keeps_same tgj_get_message_keeps split: option.splits prod.splits)

text \<open>What the element \<open>j\<close> of the list says is in the update \<open>u\<close> and the blocks it points to.\<close>

definition message_matches ::
    "('j, 'r) json_ops \<Rightarrow> 'j \<Rightarrow> tg_message \<Rightarrow> ('j, 'r) tg_mem \<Rightarrow> bool" where
  "message_matches js jm msg m =
     (message_id msg = js_uint64 js (the (js_get js jm ''message_id'')) \<and>
      msg_date msg = js_uint64 js (the (js_get js jm ''date'')) \<and> msg_type msg = variant_of js jm \<and>
      (case js_get js jm ''text'' of None \<Rightarrow> True | Some t \<Rightarrow> msg_text msg = js_string js t) \<and>
      map_of (blocks m) (msg_from msg) = Some (B_user (snd (tgj_get_user js (the (js_get js jm ''from''))))) \<and>
      map_of (blocks m) (msg_chat msg) = Some (B_chat (snd (tgj_get_chat js (the (js_get js jm ''chat''))))))"

definition update_matches ::
    "('j, 'r) json_ops \<Rightarrow> 'j \<Rightarrow> 'j tg_update \<Rightarrow> ('j, 'r) tg_mem \<Rightarrow> bool" where
  "update_matches js j u m =
     (update_id u = js_uint64 js (the (js_get js j ''update_id'')) \<and>
      (case js_get js j ''message'' of
         None \<Rightarrow> update_type u = TG_UPDATE_UNKNOWN
       | Some jm \<Rightarrow> update_type u = TG_UPDATE_MESSAGE \<and> message_matches js jm (update_message u) m))"

lemma parsed_message_matches:
  assumes "tgj_get_message js msg jm m = (0, msg', m')"
  shows "message_matches js jm msg' m'"
proof -
  obtain jfrom jchat m1 m2 where
    j: "js_get js jm ''from'' = Some jfrom" "js_get js jm ''chat'' = Some jchat"
    and nu: "new_block m (msg_from msg') (B_user (snd (tgj_get_user js jfrom))) m1"
    and nc: "new_block m1 (msg_chat msg') (B_chat (snd (tgj_get_chat js jchat))) m2"
    and ty: "msg_type msg' = variant_of js jm"
    and en: "msg_type msg' = TG_MSG_TEXT \<and> (\<exists>n. new_block m2 (msg_entities msg') (B_entities n) m') \<or>
      msg_entities msg' = msg_entities msg \<and> same_mem m2 m'"
    by (rule tgj_get_message_ok [OF assms])
  have k: "keeps m1 m2" "keeps m2 m'" using nc en by (auto intro: keeps_new_block keeps_same_mem)
  have "map_of (blocks m1) (msg_from msg') = Some (B_user (snd (tgj_get_user js jfrom)))"
    "map_of (blocks m2) (msg_chat msg') = Some (B_chat (snd (tgj_get_chat js jchat)))"
    using nu nc by (simp_all add: new_block_def)
  with k keeps_trans [OF k] have
    "map_of (blocks m') (msg_from msg') = Some (B_user (snd (tgj_get_user js jfrom)))"
    "map_of (blocks m') (msg_chat msg') = Some (B_chat (snd (tgj_get_chat js jchat)))"
    by (simp_all add: keeps_def)
  with message_fields [OF assms] j ty show ?thesis by (simp add: message_matches_def split: option.splits)
qed

lemma parsed_update_matches:
  assumes "tgj_get_update js u j m = (0, u', m')"
  shows "update_matches js j u' m'"
proof (cases "js_get js j ''message''")
  case None
  with assms show ?thesis
    by (auto simp: tgj_get_update_def update_matches_def ENOENT_def Let_def split: option.splits)
next
  case (Some jm)
  obtain r msg m1 where g: "tgj_get_message js (update_message u) jm m = (r, msg, m1)"
    by (metis prod_cases3)
  with Some assms have "r = 0" "m1 = m'" "update_message u' = msg" "update_type u' = TG_UPDATE_MESSAGE"
    "update_id u' = js_uint64 js (the (js_get js j ''update_id''))"
    by (auto simp: tgj_get_update_def ENOENT_def Let_def split: option.splits)
  with parsed_message_matches [of js "update_message u" jm m msg m1] g Some show ?thesis
    by (simp add: update_matches_def)
qed

lemma update_matches_keeps: "update_matches js j u m \<Longrightarrow> keeps m m' \<Longrightarrow> update_matches js j u m'"
  by (auto simp: update_matches_def message_matches_def keeps_def split: option.splits)

lemma parse_updates_loop_plenty:
  assumes "tg_mallocs m = []" and "parse_updates_loop js result i n j us m = (fin, j', us', m')"
    and "j + n \<le> length us" and "\<forall>k < n. js_idx js result (i + k) \<noteq> js_null js"
    and "ok = filter (update_parses js) (map (js_idx js result) [i..<i + n])"
  shows "j' = j + length ok \<and> length us' = length us \<and> (\<forall>k < j. us' ! k = us ! k) \<and>
    (\<forall>k < length ok. update_matches js (ok ! k) (us' ! (j + k)) m') \<and> keeps m m'"
  using assms
proof (induction n arbitrary: i j us m ok)
  case (Suc n)
  let ?x = "js_idx js result i"
  from Suc.prems(4) have nn: "?x \<noteq> js_null js" "\<forall>k < n. js_idx js result (Suc i + k) \<noteq> js_null js"
    by (auto dest: spec [of _ 0] spec [of _ "Suc k" for k])
  obtain ret u m1 where g: "tgj_get_update js (us ! j) ?x m = (ret, u, m1)" by (metis prod_cases3)
  from tgj_get_update_plenty [OF Suc.prems(1) g] have pl: "tg_mallocs m1 = []"
    and ret: "ret = 0 \<longleftrightarrow> update_parses js ?x" by simp_all
  note k1 = tgj_get_update_keeps [OF g]
  define ok1 where "ok1 = filter (update_parses js) (map (js_idx js result) [Suc i..<Suc i + n])"
  have up: "[i..<i + Suc n] = i # [Suc i..<Suc i + n]" by (simp add: upt_conv_Cons)
  have ok: "ok = (if update_parses js ?x then ?x # ok1 else ok1)"
    unfolding Suc.prems(5) ok1_def up by (simp del: upt_Suc)
  have j: "j < length us" using Suc.prems(3) by simp
  show ?case
  proof (cases "ret = 0")
    case True
    let ?m2 = "json_ref js ?x m1"
    have rec: "parse_updates_loop js result (Suc i) n (Suc j) (us[j := u]) ?m2 = (fin, j', us', m')"
      using Suc.prems(2) nn(1) g True by simp
    have "tg_mallocs ?m2 = []" "Suc j + n \<le> length (us[j := u])" using pl Suc.prems(3) by simp_all
    from Suc.IH [OF this(1) rec this(2) nn(2) ok1_def] have
      IH: "j' = Suc j + length ok1" "length us' = length us" "\<forall>k < Suc j. us' ! k = us[j := u] ! k"
        "\<forall>k < length ok1. update_matches js (ok1 ! k) (us' ! (Suc j + k)) m'" "keeps ?m2 m'" by simp_all
    from ret True have x: "update_parses js ?x" by simp
    have k2: "keeps m1 m'" using keeps_trans [OF keeps_same IH(5)] by simp
    have "update_matches js ?x u m1" using parsed_update_matches g True by simp
    from update_matches_keeps [OF this k2] have "update_matches js ?x (us' ! j) m'" using IH(3) j by simp
    with IH(4) x ok have "\<forall>k < length ok. update_matches js (ok ! k) (us' ! (j + k)) m'"
      by (auto simp: less_Suc_eq_0_disj)
    with IH x ok keeps_trans [OF k1 k2] show ?thesis by auto
  next
    case False
    have rec: "parse_updates_loop js result (Suc i) n j (us[j := u]) m1 = (fin, j', us', m')"
      using Suc.prems(2) nn(1) g False by simp
    have "j + n \<le> length (us[j := u])" using Suc.prems(3) by simp
    from Suc.IH [OF pl rec this nn(2) ok1_def] ret False ok show ?thesis
      by (auto intro: keeps_trans [OF k1])
  qed
qed (simp add: keeps_def)

text \<open>
  C13: parsing a list of updates without a \<open>null\<close> among the elements looked at, when no allocation fails: the call
  returns 0 and an array whose first slots hold the elements that parse, all of them and in order, up to the
  maximum asked for: each has the id and the type of its element, and of its message the id, the date, the kind,
  the text, and live blocks with its sender and its chat. The length field still counts the elements that were skipped.
\<close>

theorem parse_updates_spec:
  assumes "parse_json tok = Some (0, Some jobj)" and "js_get js jobj ''result'' = Some result"
    and "tg_mallocs m = []" and "n = min (js_length js result) mx"
    and "\<forall>i < n. js_idx js result i \<noteq> js_null js"
    and "ok = filter (update_parses js) (map (js_idx js result) [0..<n])"
  shows "\<exists>p m' us. tgapi_parse_updates_len_max js tok mx up m = Some (0, p, m') \<and>
    map_of (arrays m') p = Some \<lparr>updates_len = n, updates_arr = us\<rparr> \<and> length us = n \<and>
    length ok \<le> n \<and> (\<forall>k < length ok. update_matches js (ok ! k) (us ! k) m')"
proof -
  obtain fin j us m2 where l: "parse_updates_loop js result 0 n 0 (replicate n (zero_update js)) m =
      (fin, j, us, m2)"
    by (metis prod_cases4)
  note fr = parse_updates_loop_frame [OF l]
  from fr assms(5) have fin by simp
  have ok': "ok = filter (update_parses js) (map (js_idx js result) [0..<0 + n])" using assms(6) by simp
  from parse_updates_loop_plenty [OF assms(3) l _ _ ok'] assms(5) have
    us: "length us = n" "\<forall>k < length ok. update_matches js (ok ! k) (us ! k) m2" by simp_all
  let ?p = "fresh_ptr (arrays m)"
  let ?m3 = "m2\<lparr>arrays := (?p, \<lparr>updates_len = n, updates_arr = us\<rparr>) # arrays m2\<rparr>"
  have noop: "m\<lparr>tg_mallocs := []\<rparr> = m" using assms(3) by simp
  have "tgapi_parse_updates_len_max js tok mx up m = Some (0, ?p, snd (json_put js jobj ?m3))"
    using l \<open>fin\<close>
    by (simp add: tgapi_parse_updates_len_max_def Let_def assms(1-3) assms(4) [symmetric] noop)
  moreover have "map_of (arrays (snd (json_put js jobj ?m3))) ?p = Some \<lparr>updates_len = n, updates_arr = us\<rparr>"
    by simp
  moreover have "length ok \<le> n" using assms(6) length_filter_le [of "update_parses js"]
    by (metis diff_zero length_map length_upt)
  moreover have k: "keeps m2 (snd (json_put js jobj ?m3))" by (rule keeps_same) simp
  have "\<forall>k < length ok. update_matches js (ok ! k) (us ! k) (snd (json_put js jobj ?m3))"
    using us(2) by (simp add: update_matches_keeps [OF _ k])
  ultimately show ?thesis using us(1) by metis
qed

theorem parse_updates_spec_witness:
  "\<exists>p m' us. tgapi_parse_updates_len_max sample_js
       (tok_once (J_obj [(''result'', J_arr [sample_update 4 ''a'', J_obj [], sample_update 6 ''b''])]))
       100 0 sample_mem = Some (0, p, m') \<and>
     map_of (arrays m') p = Some \<lparr>updates_len = 3, updates_arr = us\<rparr> \<and>
     update_id (us ! 0) = 4 \<and> update_id (us ! 1) = 6 \<and> msg_text (update_message (us ! 1)) = Some ''b''"
proof -
  let ?r = "J_arr [sample_update 4 ''a'', J_obj [], sample_update 6 ''b'']"
  have ok: "[sample_update 4 ''a'', sample_update 6 ''b''] =
      filter (update_parses sample_js) (map (js_idx sample_js ?r) [0..<3])"
    by code_simp
  have get: "js_get sample_js (J_obj [(''result'', ?r)]) ''result'' = Some ?r"
    and len: "3 = min (js_length sample_js ?r) 100" and mem: "tg_mallocs (sample_mem :: (json, nat) tg_mem) = []"
    by (simp_all add: sample_js_def sample_mem_def)
  have nn: "\<forall>i < 3. js_idx sample_js ?r i \<noteq> js_null sample_js"
    by (simp add: sample_js_def sample_update_def less_Suc_eq numeral_3_eq_3)
  let ?ok = "[sample_update 4 ''a'', sample_update 6 ''b'']"
  have get2: "js_get sample_js (sample_update i t) ''message'' = Some (sample_message t)"
    "js_uint64 sample_js (the (js_get sample_js (sample_update i t) ''update_id'')) = of_int i"
    "js_get sample_js (sample_message t) ''text'' = Some (J_str t)" "js_string sample_js (J_str t) = Some t" for i t
    by (simp_all add: sample_js_def sample_update_def sample_message_def)
  obtain p m' us where call: "tgapi_parse_updates_len_max sample_js (tok_once (J_obj [(''result'', ?r)]))
        100 0 sample_mem = Some (0, p, m')"
      "map_of (arrays m') p = Some \<lparr>updates_len = 3, updates_arr = us\<rparr>"
    and "\<forall>k < length ?ok. update_matches sample_js (?ok ! k) (us ! k) m'"
    using parse_updates_spec [OF parse_json_once get mem len nn ok, where up = 0] by metis
  then have "update_matches sample_js (?ok ! k) (us ! k) m'" if "k < 2" for k using that by simp
  from this [of 0] this [of 1] have "update_id (us ! 0) = 4" "update_id (us ! 1) = 6"
    "msg_text (update_message (us ! 1)) = Some ''b''"
    by (simp_all add: update_matches_def message_matches_def get2)
  with call show ?thesis by blast
qed

text \<open>When every element parses, each place of the array holds the result of parsing its element.\<close>

definition parsed_at :: "('j, 'r) json_ops \<Rightarrow> 'j \<Rightarrow> 'j tg_update \<Rightarrow> ('j, 'r) tg_mem \<Rightarrow> bool" where
  "parsed_at js j u m = (\<exists>u0 m0 m1. tgj_get_update js u0 j m0 = (0, u, m1) \<and> keeps m1 m)"

lemma parsed_at_keeps: "parsed_at js j u m \<Longrightarrow> keeps m m' \<Longrightarrow> parsed_at js j u m'"
  by (auto simp: parsed_at_def intro: keeps_trans)

lemma parse_updates_loop_all:
  assumes "tg_mallocs m = []" and "parse_updates_loop js result i n j us m = (fin, j', us', m')"
    and "j + n \<le> length us"
    and "\<forall>k < n. js_idx js result (i + k) \<noteq> js_null js \<and> update_parses js (js_idx js result (i + k))"
  shows "keeps m m' \<and> (\<forall>k < j. us' ! k = us ! k) \<and>
    (\<forall>k < n. parsed_at js (js_idx js result (i + k)) (us' ! (j + k)) m')"
  using assms
proof (induction n arbitrary: i j us m)
  case 0
  then show ?case by (simp add: keeps_def)
next
  case (Suc n)
  let ?x = "js_idx js result i"
  have x: "?x \<noteq> js_null js" "update_parses js ?x"
    and xs: "\<forall>k < n. js_idx js result (Suc i + k) \<noteq> js_null js \<and> update_parses js (js_idx js result (Suc i + k))"
    using Suc.prems(4) by (auto dest: spec [of _ 0] spec [of _ "Suc k" for k])
  obtain ret u m1 where g: "tgj_get_update js (us ! j) ?x m = (ret, u, m1)" by (metis prod_cases3)
  from tgj_get_update_plenty [OF Suc.prems(1) g] x have pl: "tg_mallocs m1 = []" and ret: "ret = 0" by simp_all
  note k1 = tgj_get_update_keeps [OF g [unfolded ret]]
  let ?m2 = "json_ref js ?x m1"
  have k2: "keeps m1 ?m2" by (rule keeps_same) simp
  have rec: "parse_updates_loop js result (Suc i) n (Suc j) (us[j := u]) ?m2 = (fin, j', us', m')"
    using Suc.prems(2) x g ret by simp
  have "tg_mallocs ?m2 = []" "Suc j + n \<le> length (us[j := u])" using pl Suc.prems(3) by simp_all
  from Suc.IH [OF this(1) rec this(2) xs] have
    IH: "keeps ?m2 m'" "\<forall>k < Suc j. us' ! k = us[j := u] ! k"
      "\<forall>k < n. parsed_at js (js_idx js result (Suc i + k)) (us' ! (Suc j + k)) m'" by blast+
  have "us' ! j = u" using IH(2) Suc.prems(3) by simp
  moreover have "parsed_at js ?x u m'"
    unfolding parsed_at_def using g ret keeps_trans [OF k2 IH(1)] by blast
  ultimately have "\<forall>k < Suc n. parsed_at js (js_idx js result (i + k)) (us' ! (j + k)) m'"
    using IH(3) by (simp add: All_less_Suc2)
  moreover have "keeps m m'" using k1 k2 IH(1) by (blast intro: keeps_trans)
  moreover have "\<forall>k < j. us' ! k = us ! k" using IH(2) by simp
  ultimately show ?case by blast
qed

text \<open>A call whose answer parses completely, when memory does not run out.\<close>

lemma parse_updates_all:
  assumes "parse_json tok = Some (0, Some jobj)" and "js_get js jobj ''result'' = Some result"
    and "tg_mallocs m = []" and "n = min (js_length js result) mx"
    and "\<forall>i < n. js_idx js result i \<noteq> js_null js \<and> update_parses js (js_idx js result i)"
  obtains p m' us where "tgapi_parse_updates_len_max js tok mx up m = Some (0, p, m')" and "p \<noteq> NULL"
    and "map_of (arrays m') p = Some \<lparr>updates_len = n, updates_arr = us\<rparr>" and "length us = n"
    and "\<forall>i < n. parsed_at js (js_idx js result i) (us ! i) m'"
    and "\<forall>u \<in> set us. update_json u = js_null js"
proof -
  obtain fin j us m2 where l: "parse_updates_loop js result 0 n 0 (replicate n (zero_update js)) m =
      (fin, j, us, m2)"
    by (metis prod_cases4)
  note fr = parse_updates_loop_frame [OF l]
  from fr assms(5) have fin: fin and len: "length us = n" by simp_all
  from fr have null: "\<forall>u \<in> set us. update_json u = js_null js" by (auto simp: zero_update_def)
  from parse_updates_loop_all [OF assms(3) l] assms(5)
  have at: "\<forall>i < n. parsed_at js (js_idx js result i) (us ! i) m2" by simp
  let ?p = "fresh_ptr (arrays m)"
  let ?m3 = "m2\<lparr>arrays := (?p, \<lparr>updates_len = n, updates_arr = us\<rparr>) # arrays m2\<rparr>"
  let ?m' = "snd (json_put js jobj ?m3)"
  have noop: "m\<lparr>tg_mallocs := []\<rparr> = m" using assms(3) by simp
  have "tgapi_parse_updates_len_max js tok mx up m = Some (0, ?p, ?m')"
    using l fin
    by (simp add: tgapi_parse_updates_len_max_def Let_def assms(1-3) assms(4) [symmetric] noop)
  moreover have "map_of (arrays ?m') ?p = Some \<lparr>updates_len = n, updates_arr = us\<rparr>" by simp
  moreover have "keeps m2 ?m'" by (rule keeps_same) simp
  ultimately show ?thesis using that len null at parsed_at_keeps by fastforce
qed

section \<open>Reference counts\<close>

text \<open>
  What json-c documents of \<open>json_object_put\<close>: it drops one reference and returns 1 if that freed the
  object, and 0 if others still hold it.
\<close>

definition put_documented :: "('j, 'r) json_ops \<Rightarrow> ('r \<Rightarrow> 'j \<Rightarrow> nat) \<Rightarrow> bool" where
  "put_documented js refs =
     (\<forall>j r. j \<noteq> js_null js \<and> 0 < refs r j \<longrightarrow> fst (js_put js j r) = (if refs r j = 1 then 1 else 0))"

text \<open>
  C24: \<open>tgapi_free_update\<close> does the opposite of what its callers need. Called by the last holder of an
  update it releases no block (and leaves the pointer to the freed JSON in place); called while
  somebody else still holds the update, it frees the message under them.
\<close>

theorem free_update_inverted:
  assumes "put_documented js refs" and "update_json u \<noteq> js_null js"
    and "0 < refs (jstate m) (update_json u)" and "tgapi_free_update js u m = (u', m')"
  shows "if refs (jstate m) (update_json u) = 1 then u' = u \<and> blocks m' = blocks m
    else update_json u' = js_null js \<and>
      (update_type u = TG_UPDATE_MESSAGE \<longrightarrow>
         blocks m' = blocks (tgapi_free_message (update_message u) m))"
proof -
  obtain ret m1 where p: "json_put js (update_json u) m = (ret, m1)" by (cases "json_put js (update_json u) m")
  have "fst (js_put js (update_json u) (jstate m)) = (if refs (jstate m) (update_json u) = 1 then 1 else 0)"
    using assms(1-3) by (simp add: put_documented_def)
  with p have ret: "ret = (if refs (jstate m) (update_json u) = 1 then 1 else 0)"
    and m1: "m1 = m\<lparr>jstate := jstate m1\<rparr>"
    by (auto simp: json_put_def split: prod.splits)
  have free: "blocks (tg_free q (x\<lparr>jstate := r\<rparr>)) = blocks (tg_free q x)"
    "tg_free q (x\<lparr>jstate := r\<rparr>) = (tg_free q x)\<lparr>jstate := r\<rparr>" for q r and x :: "('a, 'b) tg_mem"
    by (simp_all add: tg_free_def)
  have "blocks (tgapi_free_message msg (m\<lparr>jstate := r\<rparr>)) = blocks (tgapi_free_message msg m)" for msg r
    by (simp add: tgapi_free_message_def Let_def free)
  then have "blocks (tgapi_free_message msg m1) = blocks (tgapi_free_message msg m)" for msg
    by (metis m1)
  moreover have "blocks m1 = blocks m" using json_put_frame(2) [of js "update_json u" m] p by simp
  ultimately show ?thesis using assms(2,4) p ret
    by (auto simp: tgapi_free_update_def Let_def split: if_splits)
qed

theorem free_update_inverted_witness:
  "\<exists>u m m'. tgapi_parse_update_len sample_js (tok_once (sample_update 1 ''hi''))
       (zero_update sample_js) sample_mem = Some (0, u, m) \<and>
     tgapi_free_update sample_js u m = (u, m') \<and> length (blocks m') = 3"
proof -
  let ?call = "tgapi_parse_update_len sample_js (tok_once (sample_update 1 ''hi'')) (zero_update sample_js) sample_mem"
  have "case ?call of None \<Rightarrow> False
      | Some (ret, u, m) \<Rightarrow> ret = 0 \<and> update_json u \<noteq> J_null \<and> length (blocks m) = 3 \<and> jstate m = 1"
    unfolding tgapi_parse_update_len_def parse_json_once by code_simp
  then obtain u m where c: "?call = Some (0, u, m)" "update_json u \<noteq> J_null" "length (blocks m) = 3"
      "jstate m = 1"
    by (auto split: option.splits)
  obtain u' m' where f: "tgapi_free_update sample_js u m = (u', m')" by (cases "tgapi_free_update sample_js u m")
  have "put_documented sample_js (\<lambda>r j. r)" by (simp add: put_documented_def sample_js_def)
  from free_update_inverted [OF this _ _ f] c f show ?thesis
    by (auto simp: sample_js_def)
qed

end
