(* ===== verification/TgHttp.thy ===== *)
theory TgHttp
  imports Tgapi
begin

text \<open>
  The HTTP side of the program: the pool of curl handles (lib/curl.c), the growing buffer a response is
  written to, and the two calls of the Telegram API (lib/tgapi.c). libcurl itself is not part of the
  program: \<open>curl_easy_init\<close>, \<open>curl_easy_perform\<close> and \<open>curl_easy_escape\<close> are arguments.
\<close>

section \<open>The pool of handles\<close>

text \<open>
  \<open>handles\<close> is the array as far as its block reaches, \<open>handle_bytes\<close> the size of the block as the
  allocator knows it. \<open>wild_store\<close> records a store outside the block.
\<close>

record curl_handle_list =
  handles :: "ptr list"
  handle_bytes :: nat
  allocated :: nat
  nr_handles :: nat
  cleaned :: "ptr list"
  wild_store :: bool

definition sizeof_ptr :: nat where "sizeof_ptr = 8"

datatype curl_resource = R_curl | R_cd | R_cd_mutex | R_handles

record curl_env =
  env_curl_global_init :: bool
  env_malloc_cd :: bool
  env_init_mutex :: int
  env_calloc_handles :: bool

definition fresh_pool :: curl_handle_list where
  "fresh_pool = \<lparr>handles = replicate 1024 NULL, handle_bytes = 1024 * sizeof_ptr,
     allocated = 1024, nr_handles = 0, cleaned = [], wild_store = False\<rparr>"

definition gw_curl_global_init ::
    "curl_env \<Rightarrow> int \<times> curl_handle_list option \<times> curl_resource trace_ev list" where
  "gw_curl_global_init env =
     (if \<not> env_curl_global_init env then (- ENOMEM, None, [])
      else
        let t1 = [Acquire R_curl];
            out_free_curl = [Release R_curl];
            t2 = t1 @ [Acquire R_cd];
            out_free_cd = Release R_cd # out_free_curl;
            ret = env_init_mutex env;
            t3 = t2 @ [Acquire R_cd_mutex];
            out_free_mutex = Release R_cd_mutex # out_free_cd
        in if \<not> env_malloc_cd env then (- ENOMEM, None, t1 @ out_free_curl)
           else if ret \<noteq> 0 then (ret, None, t2 @ out_free_cd)
           else if \<not> env_calloc_handles env then (- ENOMEM, None, t3 @ out_free_mutex)
           else (0, Some fresh_pool, t3 @ [Acquire R_handles]))"

text \<open>The second argument of \<open>realloc\<close> is the number of handles, taken as a number of bytes.\<close>

definition gw_curl_realloc_handles :: "bool \<Rightarrow> curl_handle_list \<Rightarrow> int \<times> curl_handle_list" where
  "gw_curl_realloc_handles realloc_ok cd =
     (let new_allocated = allocated cd * 2
      in if \<not> realloc_ok then (- ENOMEM, cd)
         else (0, cd\<lparr>handle_bytes := new_allocated,
                     handles := take (new_allocated div sizeof_ptr)
                       (handles cd @ replicate (new_allocated div sizeof_ptr) NULL),
                     allocated := new_allocated\<rparr>))"

definition store_handle :: "ptr \<Rightarrow> curl_handle_list \<Rightarrow> curl_handle_list" where
  "store_handle h cd =
     cd\<lparr>handles := (handles cd)[nr_handles cd := h], nr_handles := nr_handles cd + 1,
        wild_store := (wild_store cd \<or> handle_bytes cd < (nr_handles cd + 1) * sizeof_ptr)\<rparr>"

text \<open>
  \<open>tls\<close> is \<open>current_thread_curl_handle\<close>, which no function of the program ever assigns; \<open>h\<close> is
  what \<open>curl_easy_init\<close> returns.
\<close>

definition gw_curl_thread_init ::
    "ptr \<Rightarrow> ptr \<Rightarrow> bool \<Rightarrow> curl_handle_list \<Rightarrow> ptr \<times> curl_handle_list" where
  "gw_curl_thread_init tls h realloc_ok cd =
     (if tls \<noteq> NULL then (tls, cd)
      else if h = NULL then (NULL, cd)
      else if allocated cd \<le> nr_handles cd
      then let (ret, cd1) = gw_curl_realloc_handles realloc_ok cd
           in if ret \<noteq> 0 then (NULL, cd1\<lparr>cleaned := cleaned cd1 @ [h]\<rparr>)
              else (h, store_handle h cd1)
      else (h, store_handle h cd))"

text \<open>The handles \<open>gw_curl_global_cleanup\<close> cleans up.\<close>

definition gw_curl_global_cleanup :: "curl_handle_list \<Rightarrow> ptr list" where
  "gw_curl_global_cleanup cd = map (\<lambda>i. handles cd ! i) [0..<nr_handles cd]"

text \<open>And what it releases; the mutex of the pool is not destroyed.\<close>

definition curl_cleanup_release :: "curl_resource trace_ev list" where
  "curl_cleanup_release = [Release R_handles, Release R_curl, Release R_cd]"

text \<open>Calls of \<open>gw_curl_thread_init\<close> with the handles curl gives out, \<open>realloc\<close> succeeding.\<close>

definition curl_calls :: "ptr list \<Rightarrow> curl_handle_list \<Rightarrow> curl_handle_list" where
  "curl_calls hs cd = fold (\<lambda>h cd. snd (gw_curl_thread_init NULL h True cd)) hs cd"

lemma curl_calls_few:
  assumes "length hs \<le> 1024" and "\<forall>h \<in> set hs. h \<noteq> NULL"
  shows "curl_calls hs fresh_pool =
    fresh_pool\<lparr>handles := hs @ replicate (1024 - length hs) NULL, nr_handles := length hs\<rparr>"
  using assms
proof (induction hs rule: rev_induct)
  case (snoc h hs)
  let ?cd = "fresh_pool\<lparr>handles := hs @ replicate (1024 - length hs) NULL, nr_handles := length hs\<rparr>"
  have len: "length hs < 1024" using snoc.prems by simp
  then have "replicate (1024 - length hs) (NULL :: ptr) = NULL # replicate (1024 - Suc (length hs)) NULL"
    by (metis Suc_diff_Suc replicate_Suc)
  then have "(hs @ replicate (1024 - length hs) NULL)[length hs := h] =
      (hs @ [h]) @ replicate (1024 - Suc (length hs)) NULL"
    by (simp add: list_update_append)
  moreover have "curl_calls hs fresh_pool = ?cd" using snoc by simp
  ultimately show ?case
    using len snoc.prems(2)
    by (simp add: curl_calls_def gw_curl_thread_init_def store_handle_def fresh_pool_def sizeof_ptr_def)
qed (simp add: curl_calls_def fresh_pool_def)

lemma wild_stays: "wild_store cd \<Longrightarrow> wild_store (curl_calls hs cd)"
proof (induction hs arbitrary: cd)
  case (Cons h hs)
  have "wild_store (snd (gw_curl_thread_init NULL h True cd))"
    using Cons.prems
    by (simp add: gw_curl_thread_init_def gw_curl_realloc_handles_def store_handle_def Let_def)
  with Cons.IH show ?case by (simp add: curl_calls_def)
qed (simp add: curl_calls_def)

text \<open>
  C32: the pool is safe for 1024 calls and no more. Every call adds a handle (the thread's own handle is
  never remembered); up to 1024 of them all handles are recorded, in order and inside the block, and
  cleaning up cleans exactly them; the next call asks \<open>realloc\<close> for 2048 bytes instead of 2048
  handles and stores outside the block.
\<close>

theorem curl_pool_bound:
  assumes "\<forall>h \<in> set hs. h \<noteq> NULL"
  shows "wild_store (curl_calls hs fresh_pool) = (1024 < length hs) \<and>
    (length hs \<le> 1024 \<longrightarrow> gw_curl_global_cleanup (curl_calls hs fresh_pool) = hs)"
proof (cases "length hs \<le> 1024")
  case True
  have "map (\<lambda>i. (hs @ replicate (1024 - length hs) NULL) ! i) [0..<length hs] = hs"
    by (intro nth_equalityI) (simp_all add: nth_append)
  with curl_calls_few [OF True assms] True show ?thesis
    by (simp add: gw_curl_global_cleanup_def fresh_pool_def)
next
  case False
  define xs where "xs = take 1024 hs"
  have len: "length xs = 1024" and nn: "\<forall>h \<in> set xs. h \<noteq> NULL"
    using False assms set_take_subset [of 1024 hs] by (auto simp: xs_def)
  obtain h ys where ys: "drop 1024 hs = h # ys" using False by (cases "drop 1024 hs") auto
  then have h: "h \<noteq> NULL" using assms set_drop_subset [of 1024 hs] by auto
  have hs: "hs = xs @ h # ys" using append_take_drop_id [of 1024 hs] by (simp add: xs_def ys)
  have split: "curl_calls hs fresh_pool =
      curl_calls ys (snd (gw_curl_thread_init NULL h True (curl_calls xs fresh_pool)))"
    by (simp add: curl_calls_def hs)
  have "wild_store (snd (gw_curl_thread_init NULL h True (curl_calls xs fresh_pool)))"
    using curl_calls_few [OF _ nn] len h
    by (simp add: gw_curl_thread_init_def gw_curl_realloc_handles_def store_handle_def fresh_pool_def
        sizeof_ptr_def Let_def)
  with split wild_stays False show ?thesis by simp
qed

theorem curl_pool_bound_witness:
  "wild_store (curl_calls (replicate 1025 1) fresh_pool) \<and>
   gw_curl_global_cleanup (curl_calls [3, 4] fresh_pool) = [3, 4]"
  using curl_pool_bound [of "replicate 1025 1"] curl_pool_bound [of "[3, 4]"] by simp

section \<open>The response buffer\<close>

text \<open>
  \<open>cd_data\<close> is the block \<open>data\<close> points to, as long as the allocator made it (\<open>None\<close>:
  \<open>NULL\<close>). The bytes of a block that were never written are zero here; none is read. The sizes are
  \<open>size_t\<close>, and their arithmetic wraps at \<open>2 ^ 64\<close>.
\<close>

record curl_data =
  cd_data :: "char list option"
  cd_len :: u64
  cd_allocated :: u64
  cd_err :: int

definition zero_curl_data :: curl_data where
  "zero_curl_data = \<lparr>cd_data = None, cd_len = 0, cd_allocated = 0, cd_err = 0\<rparr>"

definition NUL :: char where "NUL = CHR 0x00"

text \<open>\<open>memcpy(&data[len], ptr, real_size)\<close>; \<open>None\<close> is a read outside \<open>ptr\<close> or a store outside the block.\<close>

definition buf_copy :: "char list \<Rightarrow> u64 \<Rightarrow> char list \<Rightarrow> u64 \<Rightarrow> char list option" where
  "buf_copy buf len ptr n =
     (if unat n \<le> length ptr \<and> unat len + unat n \<le> length buf
      then Some (take (unat len) buf @ take (unat n) ptr @ drop (unat len + unat n) buf) else None)"

text \<open>The last four lines: the copy, the new length and the terminator at it.\<close>

definition curl_write_copy :: "char list \<Rightarrow> u64 \<Rightarrow> curl_data \<Rightarrow> (u64 \<times> curl_data) option" where
  "curl_write_copy ptr real_size d =
     (case buf_copy (the (cd_data d)) (cd_len d) ptr real_size of
        None \<Rightarrow> None
      | Some b \<Rightarrow>
          let len = cd_len d + real_size
          in if unat len < length b
             then Some (real_size, d\<lparr>cd_data := Some (b[unat len := NUL]), cd_len := len\<rparr>) else None)"

text \<open>\<open>realloc\<close> keeps the bytes that fit. A block of no bytes, which a size that wrapped can ask for, has no
  room for the terminator.\<close>

definition curl_write_room ::
    "char list \<Rightarrow> u64 \<Rightarrow> allocs \<Rightarrow> curl_data \<Rightarrow> (u64 \<times> allocs \<times> curl_data) option" where
  "curl_write_room ptr real_size ms d =
     (let new_len = cd_len d + real_size + 1
      in if cd_allocated d < new_len
         then
           let new_allocated = cd_allocated d * 2 + new_len;
               (ok, ms1) = next_alloc ms;
               buf = take (unat new_allocated) (the (cd_data d) @ replicate (unat new_allocated) NUL)
           in if \<not> ok then Some (0, ms1, d\<lparr>cd_data := None, cd_err := - ENOMEM\<rparr>)
              else map_option (\<lambda>(ret, d1). (ret, ms1, d1))
                (curl_write_copy ptr real_size (d\<lparr>cd_data := Some buf, cd_allocated := new_allocated\<rparr>))
         else map_option (\<lambda>(ret, d1). (ret, ms, d1)) (curl_write_copy ptr real_size d))"

text \<open>
  \<open>ptr\<close> are the bytes libcurl has. The first answer of \<open>mallocs\<close> is for \<open>malloc\<close>, the next one for
  \<open>realloc\<close>. The callers always pass a buffer, so the test of \<open>dd\<close> is left out.
\<close>

definition tgapi_curl_write ::
    "char list \<Rightarrow> u64 \<Rightarrow> u64 \<Rightarrow> allocs \<Rightarrow> curl_data \<Rightarrow> (u64 \<times> allocs \<times> curl_data) option" where
  "tgapi_curl_write ptr sz nmemb ms d =
     (let real_size = sz * nmemb
      in case cd_data d of
           Some b \<Rightarrow> curl_write_room ptr real_size ms d
         | None \<Rightarrow>
             let d1 = d\<lparr>cd_allocated := 4096\<rparr>;
                 (ok, ms1) = next_alloc ms
             in if \<not> ok then Some (0, ms1, d1\<lparr>cd_err := - ENOMEM\<rparr>)
                else curl_write_room ptr real_size ms1 (d1\<lparr>cd_data := Some (replicate 4096 NUL)\<rparr>))"

definition response :: "curl_data \<Rightarrow> char list" where
  "response d = (case cd_data d of None \<Rightarrow> [] | Some b \<Rightarrow> take (unat (cd_len d)) b)"

definition buf_ok :: "curl_data \<Rightarrow> bool" where
  "buf_ok d = (case cd_data d of None \<Rightarrow> cd_len d = 0
     | Some b \<Rightarrow> length b = unat (cd_allocated d) \<and> cd_len d < cd_allocated d \<and> b ! unat (cd_len d) = NUL)"

text \<open>A sum that fits.\<close>

lemma unat_add_fits: "unat a + unat b < 2 ^ 64 \<Longrightarrow> unat (a + b :: u64) = unat a + unat b"
  by (simp add: unat_word_ariths)

lemma unat_mult_fits: "unat a * unat b < 2 ^ 64 \<Longrightarrow> unat (a * b :: u64) = unat a * unat b"
  by (simp add: unat_word_ariths)

lemma curl_write_copy_ok:
  assumes "cd_data d = Some b" and "length b = unat (cd_allocated d)" and "unat n = length ptr"
    and fits: "unat (cd_len d) + length ptr < unat (cd_allocated d)"
  obtains b' where "curl_write_copy ptr n d = Some (n, d\<lparr>cd_data := Some b', cd_len := cd_len d + n\<rparr>)"
    and "buf_ok (d\<lparr>cd_data := Some b', cd_len := cd_len d + n\<rparr>)"
    and "response (d\<lparr>cd_data := Some b', cd_len := cd_len d + n\<rparr>) = take (unat (cd_len d)) b @ ptr"
proof -
  let ?k = "unat (cd_len d)"
  let ?b = "take ?k b @ ptr @ drop (?k + length ptr) b"
  let ?b' = "?b[?k + length ptr := NUL]"
  have lt: "unat (cd_allocated d) < 2 ^ 64" using unsigned_less [of "cd_allocated d"] by simp
  have len: "unat (cd_len d + n) = ?k + length ptr"
    using assms(3) fits lt by (subst unat_add_fits) simp_all
  have lb: "length ?b = unat (cd_allocated d)" using assms(2) fits by simp
  have "buf_copy b (cd_len d) ptr n = Some ?b" using assms(2,3) fits by (simp add: buf_copy_def)
  then have "curl_write_copy ptr n d = Some (n, d\<lparr>cd_data := Some ?b', cd_len := cd_len d + n\<rparr>)"
    unfolding curl_write_copy_def assms(1) option.sel using lb fits by (simp add: Let_def len)
  moreover have "buf_ok (d\<lparr>cd_data := Some ?b', cd_len := cd_len d + n\<rparr>)"
    using lb fits len by (simp add: buf_ok_def word_less_nat_alt)
  moreover have "take (?k + length ptr) ?b' = take ?k b @ ptr" using assms(2) fits by simp
  then have "response (d\<lparr>cd_data := Some ?b', cd_len := cd_len d + n\<rparr>) = take ?k b @ ptr"
    by (simp add: response_def len)
  ultimately show ?thesis by (rule that)
qed

text \<open>The outcome of a write that the buffer has room for, or gets room for, or fails to.\<close>

definition written :: "char list \<Rightarrow> char list \<Rightarrow> (u64 \<times> allocs \<times> curl_data) option \<Rightarrow> bool" where
  "written old ptr oc =
     (case oc of None \<Rightarrow> False
      | Some (ret, ms, d) \<Rightarrow>
          if cd_data d = None then ret = 0 \<and> cd_err d = - ENOMEM
          else unat ret = length ptr \<and> buf_ok d \<and> response d = old @ ptr)"

lemma written_copy:
  assumes "cd_data d = Some b" and "length b = unat (cd_allocated d)" and "unat n = length ptr"
    and "unat (cd_len d) + length ptr < unat (cd_allocated d)"
  shows "written (take (unat (cd_len d)) b) ptr (map_option (\<lambda>(ret, d1). (ret, ms, d1)) (curl_write_copy ptr n d))"
  by (rule curl_write_copy_ok [OF assms]) (simp add: written_def assms(3))

lemma curl_write_room_spec:
  assumes d: "cd_data d = Some b" "length b = unat (cd_allocated d)" "cd_len d < cd_allocated d"
    and n: "unat n = length ptr" and small: "unat (cd_allocated d) < 2 ^ 61" "length ptr < 2 ^ 61"
  shows "written (take (unat (cd_len d)) b) ptr (curl_write_room ptr n ms d)"
proof -
  let ?new = "cd_len d + n + 1"
  have len: "unat (cd_len d) < unat (cd_allocated d)" using d(3) by (simp add: word_less_nat_alt)
  have sum: "unat (cd_len d + n) = unat (cd_len d) + length ptr"
    using len n small by (subst unat_add_fits) simp_all
  then have new: "unat ?new = unat (cd_len d) + length ptr + 1"
    using len small by (subst unat_add_fits) simp_all
  show ?thesis
  proof (cases "cd_allocated d < ?new")
    case True
    let ?alloc = "cd_allocated d * 2 + ?new"
    have twice: "unat (cd_allocated d * 2) = unat (cd_allocated d) * 2"
      using small by (subst unat_mult_fits) simp_all
    then have alloc: "unat ?alloc = unat (cd_allocated d) * 2 + (unat (cd_len d) + length ptr + 1)"
      using new len small by (subst unat_add_fits) simp_all
    obtain ok ms1 where a: "next_alloc ms = (ok, ms1)" by (cases "next_alloc ms")
    let ?buf = "take (unat ?alloc) (b @ replicate (unat ?alloc) NUL)"
    let ?d = "d\<lparr>cd_data := Some ?buf, cd_allocated := ?alloc\<rparr>"
    have old: "take (unat (cd_len ?d)) ?buf = take (unat (cd_len d)) b" using d(2) len alloc by simp
    have "written (take (unat (cd_len ?d)) ?buf) ptr
        (map_option (\<lambda>(ret, d1). (ret, ms1, d1)) (curl_write_copy ptr n ?d))"
      by (rule written_copy) (use n alloc in simp_all)
    with True a d(1) show ?thesis
      unfolding old by (simp add: curl_write_room_def Let_def) (simp add: written_def)
  next
    case False
    then have "unat (cd_len d) + length ptr < unat (cd_allocated d)" using new by (simp add: word_less_nat_alt)
    from written_copy [OF d(1,2) n this, of ms] False show ?thesis by (simp add: curl_write_room_def Let_def)
  qed
qed

text \<open>
  C31: a call of the write callback with the \<open>size * nmemb\<close> bytes at \<open>ptr\<close>, when the buffer and the chunk are
  smaller than \<open>2 ^ 61\<close> bytes, so that none of the 64-bit sums of the code wraps (libcurl calls it with \<open>size\<close> 1 and
  a bounded \<open>nmemb\<close>). It never stores outside the buffer, whatever the allocator answers: either the chunk is appended,
  the buffer stays terminated and the size of the chunk is returned, or an allocation failed, 0 is returned,
  \<open>-ENOMEM\<close> is recorded and nothing stays allocated.
\<close>

theorem tgapi_curl_write_spec:
  assumes "buf_ok d" and "unat sz * unat nmemb = length ptr"
    and "length ptr < 2 ^ 61" and "unat (cd_allocated d) < 2 ^ 61"
  shows "\<exists>ret ms' d'. tgapi_curl_write ptr sz nmemb ms d = Some (ret, ms', d') \<and>
    (if cd_data d' = None then ret = 0 \<and> cd_err d' = - ENOMEM
     else unat ret = length ptr \<and> buf_ok d' \<and> response d' = response d @ ptr)"
proof -
  have n: "unat (sz * nmemb) = length ptr" using assms(2,3) by (subst unat_mult_fits) simp_all
  have "written (response d) ptr (tgapi_curl_write ptr sz nmemb ms d)"
  proof (cases "cd_data d")
    case (Some b)
    with assms(1) have "length b = unat (cd_allocated d)" "cd_len d < cd_allocated d" by (simp_all add: buf_ok_def)
    from curl_write_room_spec [OF Some this n assms(4,3), of ms] show ?thesis
      by (simp add: tgapi_curl_write_def Some response_def Let_def)
  next
    case None
    obtain ok ms1 where a: "next_alloc ms = (ok, ms1)" by (cases "next_alloc ms")
    let ?d = "d\<lparr>cd_allocated := 4096, cd_data := Some (replicate 4096 NUL)\<rparr>"
    from None assms(1) have z: "cd_len d = 0" by (simp add: buf_ok_def)
    have "written (take (unat (cd_len ?d)) (replicate 4096 NUL)) ptr (curl_write_room ptr (sz * nmemb) ms1 ?d)"
      by (rule curl_write_room_spec) (use z n assms(3) in simp_all)
    with a z show ?thesis
      by (simp add: tgapi_curl_write_def None response_def Let_def) (simp add: written_def None)
  qed
  then obtain ret ms' d' where "tgapi_curl_write ptr sz nmemb ms d = Some (ret, ms', d')"
    and "written (response d) ptr (Some (ret, ms', d'))"
    by (cases "tgapi_curl_write ptr sz nmemb ms d") (auto simp: written_def)
  then show ?thesis unfolding written_def option.case prod.case by blast
qed

text \<open>Beyond that the guard fails: if \<open>len + size * nmemb + 1\<close> wraps, no write that keeps the buffer stays inside it.\<close>

lemma curl_write_wraps:
  assumes "buf_ok d" and "cd_data d \<noteq> None" and "2 ^ 64 \<le> unat (cd_len d) + unat (sz * nmemb) + 1"
    and "tgapi_curl_write ptr sz nmemb ms d = Some (ret, ms', d')"
  shows "cd_data d' = None"
proof (rule ccontr)
  assume live: "cd_data d' \<noteq> None"
  let ?n = "sz * nmemb"
  have copy: False if c: "curl_write_copy ptr ?n e = Some (r, e')" and e: "cd_len e = cd_len d"
      "cd_data e = Some buf" "length buf \<le> 2 ^ 64 - 1" for e r e' buf
  proof -
    have in_b: "unat (cd_len d) + unat ?n \<le> length buf"
      using c e by (auto simp: curl_write_copy_def buf_copy_def split: option.splits if_splits)
    then have max: "unat (cd_len d) + unat ?n = 2 ^ 64 - 1" using assms(3) e(3) by linarith
    then have "unat (cd_len d + ?n) = 2 ^ 64 - 1" by (subst unat_add_fits) simp_all
    then show False using c e in_b max
      by (auto simp: curl_write_copy_def buf_copy_def Let_def split: option.splits if_splits)
  qed
  have word: "unat x \<le> 2 ^ 64 - 1" for x :: u64
  proof -
    have "unat x < 2 ^ 64" using unsigned_less [of x] by simp
    then show ?thesis by simp
  qed
  obtain b where b: "cd_data d = Some b" "length b = unat (cd_allocated d)"
    using assms(1,2) by (auto simp: buf_ok_def split: option.splits)
  show False
  proof (cases "cd_allocated d < cd_len d + ?n + 1")
    case False
    with assms(4) b obtain r e' where "curl_write_copy ptr ?n d = Some (r, e')"
      by (auto simp: tgapi_curl_write_def curl_write_room_def Let_def split: if_splits)
    from copy [OF this refl b(1)] b(2) word show False by simp
  next
    case True
    let ?alloc = "cd_allocated d * 2 + (cd_len d + ?n + 1)"
    let ?buf = "take (unat ?alloc) (b @ replicate (unat ?alloc) NUL)"
    let ?d = "d\<lparr>cd_data := Some ?buf, cd_allocated := ?alloc\<rparr>"
    obtain ok ms1 where a: "next_alloc ms = (ok, ms1)" by (cases "next_alloc ms")
    with True assms(4) b live obtain r e' where "curl_write_copy ptr ?n ?d = Some (r, e')"
      by (auto simp: tgapi_curl_write_def curl_write_room_def Let_def split: if_splits)
    moreover have "length ?buf \<le> 2 ^ 64 - 1" using word [of ?alloc] by simp
    ultimately show False using copy [of ?d r e' ?buf] by simp
  qed
qed

theorem tgapi_curl_write_spec_witness:
  "\<exists>ret ms' d'. tgapi_curl_write ''ab'' 1 2 [] zero_curl_data = Some (ret, ms', d') \<and> unat ret = 2 \<and>
     response d' = ''ab''"
proof -
  have "buf_ok zero_curl_data" "unat (1 :: u64) * unat (2 :: u64) = length ''ab''" "length ''ab'' < 2 ^ 61"
      "unat (cd_allocated zero_curl_data) < 2 ^ 61"
    by (simp_all add: buf_ok_def zero_curl_data_def)
  from tgapi_curl_write_spec [OF this, of "[]"] obtain ret ms' d' where
    w: "tgapi_curl_write ''ab'' 1 2 [] zero_curl_data = Some (ret, ms', d')"
    and r: "if cd_data d' = None then ret = 0 \<and> cd_err d' = - ENOMEM
      else unat ret = length ''ab'' \<and> buf_ok d' \<and> response d' = response zero_curl_data @ ''ab''"
    by blast
  have "cd_data d' \<noteq> None"
    using w by (auto simp: tgapi_curl_write_def curl_write_room_def curl_write_copy_def zero_curl_data_def Let_def
        split: if_splits option.splits)
  with w r show ?thesis by (simp add: response_def zero_curl_data_def)
qed

section \<open>The request URLs\<close>

fun dec_of_nat :: "nat \<Rightarrow> string" where
  "dec_of_nat n = (if n < 10 then [char_of (48 + n)] else dec_of_nat (n div 10) @ [char_of (48 + n mod 10)])"

declare dec_of_nat.simps [simp del]

text \<open>\<open>PRId64\<close>, and \<open>snprintf\<close> into \<open>sz\<close> bytes: it keeps \<open>sz - 1\<close> characters.\<close>

definition dec_of_i64 :: "i64 \<Rightarrow> string" where
  "dec_of_i64 x = (if sint x < 0 then CHR ''-'' # dec_of_nat (nat (- sint x)) else dec_of_nat (nat (sint x)))"

definition snprintf :: "nat \<Rightarrow> string \<Rightarrow> string" where
  "snprintf sz txt = take (sz - 1) txt"

definition full_get_updates_url :: "string \<Rightarrow> i64 \<Rightarrow> string" where
  "full_get_updates_url token offset =
     ''https://api.telegram.org/bot'' @ token @ ''/getUpdates?offset='' @ dec_of_i64 offset"

definition get_updates_url :: "string \<Rightarrow> i64 \<Rightarrow> string" where
  "get_updates_url token offset = snprintf 256 (full_get_updates_url token offset)"

record tga_call_send_message =
  call_chat_id :: i64
  call_text :: string
  call_reply_to :: i64

definition full_send_message_url :: "string \<Rightarrow> string \<Rightarrow> tga_call_send_message \<Rightarrow> string" where
  "full_send_message_url token escaped call =
     ''https://api.telegram.org/bot'' @ token @ ''/sendMessage?chat_id='' @
     dec_of_i64 (call_chat_id call) @ ''&text='' @ escaped @ ''&reply_to_message_id='' @
     dec_of_i64 (call_reply_to call)"

definition send_message_url :: "string \<Rightarrow> string \<Rightarrow> tga_call_send_message \<Rightarrow> string" where
  "send_message_url token escaped call =
     snprintf (4096 * 3 + 128) (full_send_message_url token escaped call)"

lemma length_dec_of_nat: "n < 10 ^ Suc k \<Longrightarrow> length (dec_of_nat n) \<le> Suc k"
proof (induction k arbitrary: n)
  case 0
  then show ?case by (simp add: dec_of_nat.simps [of n])
next
  case (Suc k)
  show ?case
  proof (cases "n < 10")
    case False
    from Suc.prems have "n div 10 < 10 ^ Suc k" by (simp add: less_mult_imp_div_less mult.commute)
    from Suc.IH [OF this] False show ?thesis by (simp add: dec_of_nat.simps [of n])
  qed (simp add: dec_of_nat.simps [of n])
qed

lemma length_dec_of_i64: "length (dec_of_i64 x) \<le> 20"
proof -
  have b: "- (2 ^ 63) \<le> sint x" "sint x < 2 ^ 63"
    using sint_greater_eq [of x] sint_less [of x] by simp_all
  then have "nat (- sint x) < 10 ^ Suc 18" "nat (sint x) < 10 ^ Suc 18" by simp_all
  then have "length (dec_of_nat (nat (- sint x))) \<le> Suc 18" "length (dec_of_nat (nat (sint x))) \<le> Suc 18"
    by (blast intro: length_dec_of_nat)+
  then show ?thesis by (simp add: dec_of_i64_def)
qed

text \<open>
  No request URL is cut off by its buffer: \<open>getUpdates\<close> fits its 256 bytes for every offset as
  long as the token has at most 188 characters, and \<open>sendMessage\<close> fits as long as the token and three
  times the text (what escaping can make of it) have together at most 12299.
\<close>

lemma request_urls_complete:
  assumes "length escaped \<le> 3 * length (call_text call)"
  shows "(length token \<le> 188 \<longrightarrow>
      get_updates_url token offset = full_get_updates_url token offset) \<and>
    (length token + 3 * length (call_text call) \<le> 12299 \<longrightarrow>
      send_message_url token escaped call = full_send_message_url token escaped call)"
proof -
  have "length (full_get_updates_url token offset) \<le> 47 + length token + 20"
    using length_dec_of_i64 [of offset] by (simp add: full_get_updates_url_def)
  moreover have "length (full_send_message_url token escaped call) \<le>
      76 + length token + 40 + 3 * length (call_text call)"
    using length_dec_of_i64 [of "call_chat_id call"] length_dec_of_i64 [of "call_reply_to call"] assms
    by (simp add: full_send_message_url_def)
  ultimately show ?thesis by (simp add: get_updates_url_def send_message_url_def snprintf_def)
qed

lemma request_urls_complete_example:
  "get_updates_url ''T'' (- 5) = ''https://api.telegram.org/botT/getUpdates?offset=-5''"
proof -
  have "full_get_updates_url ''T'' (- 5) = ''https://api.telegram.org/botT/getUpdates?offset=-5''"
    by code_simp
  with request_urls_complete [of "[]" "\<lparr>call_chat_id = 0, call_text = [], call_reply_to = 0\<rparr>" "''T''" "- 5"]
  show ?thesis by simp
qed

section \<open>The API calls\<close>

text \<open>
  \<open>ch\<close> is what \<open>gw_curl_thread_init\<close> returned, \<open>perform\<close> is \<open>curl_easy_perform\<close> with the
  URL, the buffer and \<open>tgapi_curl_write\<close> set: whether it returned \<open>CURLE_OK\<close>, and the buffer after it.
\<close>

definition curl_http_get ::
    "ptr \<Rightarrow> (string \<Rightarrow> curl_data \<Rightarrow> bool \<times> curl_data) \<Rightarrow> string \<Rightarrow> curl_data \<Rightarrow> int \<times> curl_data" where
  "curl_http_get ch perform url d =
     (if ch = NULL then (- ENOMEM, d)
      else let (ok, d1) = perform url d in (if ok then 0 else - 1, d1))"

text \<open>The buffer comes back as \<open>None\<close> when it was freed. \<open>tok_of\<close> is the tokener on a text.\<close>

definition tgapi_call_get_updates ::
    "('j, 'r) json_ops \<Rightarrow> ptr \<Rightarrow> (string \<Rightarrow> curl_data \<Rightarrow> bool \<times> curl_data) \<Rightarrow>
     (char list option \<Rightarrow> nat \<Rightarrow> 'j tokener) \<Rightarrow> string \<Rightarrow> ptr \<Rightarrow> i64 \<Rightarrow> ('j, 'r) tg_mem \<Rightarrow>
     (int \<times> ptr \<times> ('j, 'r) tg_mem \<times> curl_data option) option" where
  "tgapi_call_get_updates js ch perform tok_of token updates_p offset m =
     (let (ret, data) = curl_http_get ch perform (get_updates_url token offset) zero_curl_data
      in if ret \<noteq> 0 then Some (ret, updates_p, m, Some data)
         else
           map_option (\<lambda>(ret, up, m1). (ret, up, m1, None))
             (tgapi_parse_updates_len js (tok_of (cd_data data) (unat (cd_len data + 1))) updates_p m))"

definition tgapi_call_send_message ::
    "ptr \<Rightarrow> ptr \<Rightarrow> (string \<Rightarrow> string option) \<Rightarrow> (string \<Rightarrow> curl_data \<Rightarrow> bool \<times> curl_data) \<Rightarrow>
     string \<Rightarrow> tga_call_send_message \<Rightarrow> int \<times> curl_data option" where
  "tgapi_call_send_message ch ch2 escape perform token call =
     (if ch = NULL then (- ENOMEM, None)
      else
        case escape (call_text call) of
          None \<Rightarrow> (- ENOMEM, None)
        | Some escaped \<Rightarrow>
            let (ret, data) = curl_http_get ch2 perform (send_message_url token escaped call) zero_curl_data
            in if ret \<noteq> 0 then (ret, Some data) else (0, None))"

end
