(* ===== verification/Modules.thy ===== *)
theory Modules
  imports TgHttp
begin

text \<open>
  modules/module.c, include/gw/module.h and modules/ping/ping.c: the table of modules, the dispatch of
  an update to them, and the ping module. The table itself is generated by the build, so it is an argument;
  the functions of a module act on a state of any type (the bot and the world outside).
\<close>

section \<open>The module table\<close>

text \<open>A function pointer that is \<open>NULL\<close> is \<open>None\<close>.\<close>

record ('u, 's) gw_bot_module =
  mod_name :: string
  listen_update_types :: u64
  mod_init :: "('s \<Rightarrow> int \<times> 's) option"
  mod_handle :: "('u \<Rightarrow> 's \<Rightarrow> int \<times> 's) option"
  mod_shutdown :: "('s \<Rightarrow> 's) option"

fun gw_init_modules :: "('u, 's) gw_bot_module list \<Rightarrow> bool \<Rightarrow> 's \<Rightarrow> int \<times> 's" where
  "gw_init_modules [] allow_fail s = (0, s)"
| "gw_init_modules (m # ms) allow_fail s =
     (case mod_init m of
        None \<Rightarrow> gw_init_modules ms allow_fail s
      | Some f \<Rightarrow>
          let (ret, s1) = f s
          in if ret \<noteq> 0 \<and> \<not> allow_fail then (ret, s1) else gw_init_modules ms allow_fail s1)"

text \<open>The test of \<open>gw_shutdown_modules\<close> is the wrong way round: it calls through the pointer when
  the pointer is \<open>NULL\<close>. That call is the result \<open>None\<close>.\<close>

fun gw_shutdown_modules :: "('u, 's) gw_bot_module list \<Rightarrow> 's \<Rightarrow> 's option" where
  "gw_shutdown_modules [] s = Some s"
| "gw_shutdown_modules (m # ms) s =
     (if mod_shutdown m = None then None else gw_shutdown_modules ms s)"

text \<open>\<open>ty\<close> is the type of the update \<open>up\<close>.\<close>

fun gw_module_handle :: "('u, 's) gw_bot_module list \<Rightarrow> u64 \<Rightarrow> 'u \<Rightarrow> 's \<Rightarrow> int \<times> 's" where
  "gw_module_handle [] ty up s = (0, s)"
| "gw_module_handle (m # ms) ty up s =
     (case mod_handle m of
        None \<Rightarrow> gw_module_handle ms ty up s
      | Some f \<Rightarrow>
          if listen_update_types m AND ty = 0 then gw_module_handle ms ty up s
          else
            let (ret, s1) = f up s
            in if ret \<noteq> 0 then (ret, s1) else gw_module_handle ms ty up s1)"

section \<open>Dispatch\<close>

text \<open>The handlers an update of type \<open>ty\<close> is meant for, and running handlers while they succeed.\<close>

definition listeners :: "('u, 's) gw_bot_module list \<Rightarrow> u64 \<Rightarrow> ('u \<Rightarrow> 's \<Rightarrow> int \<times> 's) list" where
  "listeners ms ty = List.map_filter (\<lambda>m. if listen_update_types m AND ty = 0 then None else mod_handle m) ms"

inductive ran :: "('u \<Rightarrow> 's \<Rightarrow> int \<times> 's) list \<Rightarrow> 'u \<Rightarrow> 's \<Rightarrow> 's \<Rightarrow> bool" where
  ran_none: "ran [] up s s"
| ran_one: "f up s = (0, s1) \<Longrightarrow> ran fs up s1 s2 \<Longrightarrow> ran (f # fs) up s s2"

text \<open>
  C34: an update reaches exactly the handlers of the modules that listen to its type, in the order of the
  table. With result 0 all of them ran and returned 0; with another result they ran up to the one that
  returned it, and none after it.
\<close>

theorem module_handle_spec:
  assumes "gw_module_handle ms ty up s = (ret, s')"
  shows "if ret = 0 then ran (listeners ms ty) up s s'
    else \<exists>before f after s1. listeners ms ty = before @ f # after \<and> ran before up s s1 \<and>
      f up s1 = (ret, s')"
  using assms
proof (induction ms arbitrary: s)
  case Nil
  then show ?case by (auto simp: listeners_def List.map_filter_def intro: ran_none)
next
  case (Cons m ms)
  show ?case
  proof (cases "mod_handle m = None \<or> listen_update_types m AND ty = 0")
    case True
    then have "gw_module_handle ms ty up s = (ret, s')" "listeners (m # ms) ty = listeners ms ty"
      using Cons.prems by (auto simp: listeners_def List.map_filter_def split: option.splits)
    with Cons.IH [of s] show ?thesis by metis
  next
    case False
    then obtain f where f: "mod_handle m = Some f" by auto
    with False have l: "listeners (m # ms) ty = f # listeners ms ty"
      by (simp add: listeners_def List.map_filter_def)
    obtain r s1 where r: "f up s = (r, s1)" by (cases "f up s")
    show ?thesis
    proof (cases "r = 0")
      case True
      with Cons.prems False f r have rec: "gw_module_handle ms ty up s1 = (ret, s')" by simp
      note IH = Cons.IH [OF rec]
      show ?thesis
      proof (cases "ret = 0")
        case ret: True
        with IH r True l show ?thesis by (auto intro: ran_one)
      next
        case ret: False
        with IH obtain before g after s2 where
          "listeners ms ty = before @ g # after" "ran before up s1 s2" "g up s2 = (ret, s')" by auto
        moreover from r True this(2) have "ran (f # before) up s s2" by (auto intro: ran_one)
        ultimately show ?thesis using ret l by (metis append_Cons)
      qed
    next
      case r0: False
      with Cons.prems False f r have "ret = r" "s' = s1" by auto
      moreover have "ran [] up s s" by (rule ran_none)
      ultimately show ?thesis using r0 l r by (metis append_Nil)
    qed
  qed
qed

definition logging_module :: "nat \<Rightarrow> u64 \<Rightarrow> int \<Rightarrow> (unit, nat list) gw_bot_module" where
  "logging_module i ty ret = \<lparr>mod_name = [], listen_update_types = ty, mod_init = None,
     mod_handle = Some (\<lambda>up s. (ret, s @ [i])), mod_shutdown = None\<rparr>"

theorem module_handle_spec_witness:
  "\<exists>before f after s1. listeners [logging_module 1 1 0, logging_module 2 2 0, logging_module 3 3 (- 5),
       logging_module 4 1 0] 1 = before @ f # after \<and> ran before () [] s1 \<and> f () s1 = (- 5, [1, 3])"
proof -
  have "gw_module_handle [logging_module 1 1 0, logging_module 2 2 0, logging_module 3 3 (- 5),
      logging_module 4 1 0] 1 () [] = (- 5, [1, 3])"
    by (simp add: logging_module_def)
  from module_handle_spec [OF this] show ?thesis by simp
qed

text \<open>
  Shutting the modules down shuts no module down. If every module has a shutdown function none of
  them is called, and if some module has none the program calls through \<open>NULL\<close>.
\<close>

lemma shutdown_modules_inverted:
  "gw_shutdown_modules ms s = (if \<forall>m \<in> set ms. mod_shutdown m \<noteq> None then Some s else None)"
  by (induction ms) auto

section \<open>The ping module\<close>

definition update_type_bits :: "tg_update_type \<Rightarrow> u64" where
  "update_type_bits ty = (case ty of TG_UPDATE_UNKNOWN \<Rightarrow> 0 | TG_UPDATE_MESSAGE \<Rightarrow> 1)"

definition send_pong :: "tg_chat \<Rightarrow> tg_message \<Rightarrow> tga_call_send_message" where
  "send_pong chat msg =
     \<lparr>call_chat_id = chat_id chat, call_text = ''Pong!'', call_reply_to = message_id msg\<rparr>"

text \<open>\<open>hp\<close> holds the blocks of the update; \<open>send\<close> gives the results of \<open>tgapi_call_send_message\<close>, and
  the calls are returned with the result. \<open>None\<close> is the failing assertion or a pointer to no live chat.\<close>

definition ping_reply ::
    "tg_block heap \<Rightarrow> (tga_call_send_message \<Rightarrow> int) \<Rightarrow> tg_message \<Rightarrow> (int \<times> tga_call_send_message list) option" where
  "ping_reply hp send msg =
     (case map_of hp (msg_chat msg) of
        Some (B_chat chat) \<Rightarrow> let call = send_pong chat msg in Some (send call, [call])
      | _ \<Rightarrow> None)"

definition ping_handle ::
    "tg_block heap \<Rightarrow> (tga_call_send_message \<Rightarrow> int) \<Rightarrow> 'j tg_update \<Rightarrow> (int \<times> tga_call_send_message list) option" where
  "ping_handle hp send up =
     (if update_type_bits (update_type up) AND 1 = 0 then None
      else if update_type up \<noteq> TG_UPDATE_MESSAGE then Some (0, [])
      else if msg_type (update_message up) \<noteq> TG_MSG_TEXT then Some (0, [])
      else
        case msg_text (update_message up) of
          None \<Rightarrow> Some (0, [])
        | Some [] \<Rightarrow> Some (0, [])
        | Some (c # rest) \<Rightarrow>
            if \<not> (c = CHR ''/'' \<or> c = CHR ''!'' \<or> c = CHR ''.'') then Some (0, [])
            else if rest = ''ping'' then ping_reply hp send (update_message up)
            else Some (0, []))"

text \<open>The entry of the module in the table, on the blocks, the calls so far, and whether one crashed.\<close>

record ping_world =
  pw_blocks :: "tg_block heap"
  pw_sent :: "tga_call_send_message list"
  pw_crashed :: bool

definition gw_mod_info_ping ::
    "(tga_call_send_message \<Rightarrow> int) \<Rightarrow> ('j tg_update, ping_world) gw_bot_module" where
  "gw_mod_info_ping send =
     \<lparr>mod_name = ''ping'', listen_update_types = update_type_bits TG_UPDATE_MESSAGE,
      mod_init = Some (\<lambda>w. (0, w)),
      mod_handle = Some (\<lambda>up w. case ping_handle (pw_blocks w) send up of
          None \<Rightarrow> (0, w\<lparr>pw_crashed := True\<rparr>)
        | Some (ret, calls) \<Rightarrow> (ret, w\<lparr>pw_sent := pw_sent w @ calls\<rparr>)),
      mod_shutdown = Some (\<lambda>w. w)\<rparr>"

lemma variant_of_text: "variant_of js j = TG_MSG_TEXT \<longleftrightarrow> js_get js j ''text'' \<noteq> None"
proof (cases "js_get js j ''text''")
  case None
  have "t \<noteq> TG_MSG_TEXT" if "(k, t) \<in> set variant_table" for k t
    using that by (auto simp: variant_table_def tg_msg_defs)
  then have "t \<noteq> TG_MSG_TEXT"
    if "List.find (\<lambda>(k, t). js_get js j k \<noteq> None) variant_table = Some (k, t)" for k t
    using that by (auto simp: find_Some_iff in_set_conv_nth) (metis nth_mem)
  moreover have "TG_MSG_UNKNOWN \<noteq> TG_MSG_TEXT" by (simp add: tg_msg_defs)
  ultimately show ?thesis
    using None by (auto simp: variant_of_def split: option.splits prod.splits)
qed (simp add: variant_of_def)

text \<open>What the message \<open>jm\<close> calls for.\<close>

definition pings :: "('j, 'r) json_ops \<Rightarrow> 'j \<Rightarrow> tga_call_send_message list" where
  "pings js jm =
     (if case js_get js jm ''text'' of
           Some t \<Rightarrow> js_string js t \<in> {Some ''/ping'', Some ''!ping'', Some ''.ping''} | None \<Rightarrow> False
      then [\<lparr>call_chat_id = chat_id (snd (tgj_get_chat js (the (js_get js jm ''chat'')))),
             call_text = ''Pong!'', call_reply_to = js_uint64 js (the (js_get js jm ''message_id''))\<rparr>]
      else [])"

text \<open>
  From JSON to reply. A parsed update with a message makes the ping module send exactly one message,
  \<open>Pong!\<close> to the message's chat as a reply to it, if the text is \<open>/ping\<close>, \<open>!ping\<close> or \<open>.ping\<close>, and
  nothing otherwise; its assertion holds and the chat it reads is live.
\<close>

lemma ping_handle_parsed:
  assumes "tgj_get_update js u j m = (0, up, m')" and "js_get js j ''message'' = Some jm"
  shows "ping_handle (blocks m') send up = Some
    (case pings js jm of [] \<Rightarrow> (0, []) | call # _ \<Rightarrow> (send call, pings js jm))"
proof -
  have nz: "ENOENT \<noteq> 0" by (simp add: ENOENT_def)
  obtain r msg m1 where g: "tgj_get_message js (update_message u) jm m = (r, msg, m1)"
    by (metis prod_cases3)
  from assms g nz have "r = 0" and up: "update_type up = TG_UPDATE_MESSAGE" "update_message up = msg"
    and m1: "m1 = m'"
    by (auto simp: tgj_get_update_def Let_def split: option.splits)
  with g have g0: "tgj_get_message js (update_message u) jm m = (0, msg, m')" by simp
  obtain jfrom jchat ma mb where jc: "js_get js jm ''chat'' = Some jchat"
    and nc: "new_block ma (msg_chat msg) (B_chat (snd (tgj_get_chat js jchat))) mb"
    and ty: "msg_type msg = variant_of js jm"
    and en: "msg_type msg = TG_MSG_TEXT \<and> (\<exists>n. new_block mb (msg_entities msg) (B_entities n) m') \<or>
      msg_entities msg = msg_entities (update_message u) \<and> same_mem mb m'"
    by (rule tgj_get_message_ok [OF g0])
  have chat: "map_of (blocks m') (msg_chat msg) = Some (B_chat (snd (tgj_get_chat js jchat)))"
    using nc en by (auto simp: new_block_def same_mem_def)
  note f = message_fields [OF g0]
  show ?thesis
  proof (cases "js_get js jm ''text''")
    case None
    then have "msg_type msg \<noteq> TG_MSG_TEXT" using ty by (simp add: variant_of_text)
    with None up show ?thesis by (simp add: ping_handle_def update_type_bits_def pings_def)
  next
    case (Some t)
    then have "msg_type msg = TG_MSG_TEXT" using ty by (simp add: variant_of_text)
    with Some up f chat jc show ?thesis
      by (cases "js_string js t")
        (auto simp: ping_handle_def update_type_bits_def ping_reply_def send_pong_def pings_def Let_def split: list.splits)
  qed
qed

end
