(* ===== verification/BotMain.thy ===== *)
theory BotMain
  imports Ring Modules "HOL-Library.AList"
begin

text \<open>
  core/main.c: the bot. It asks Telegram for updates through the ring, hands every update to a worker as a
  module-handle request, asks again from the highest update seen plus one, and sleeps on the completion
  queue in between. The worker threads, and what they do to the bot's memory while it sleeps, are
  arguments.
\<close>

section \<open>State\<close>

text \<open>\<open>struct tg_bot_ctx\<close> with the memory behind its pointers. The token never changes.\<close>

record ('j, 'r) tg_bot_ctx =
  ctx_io :: io_state
  ctx_mem :: "('j, 'r) tg_mem"
  ctx_updates :: ptr
  ctx_max_update_id :: i64

text \<open>The addresses of the context and of two of its fields, and of the updates of the array at \<open>p\<close>.\<close>

definition CTX :: ptr where "CTX = 1"
definition CTX_TCTX :: ptr where "CTX_TCTX = 2"
definition CTX_UPDATES :: ptr where "CTX_UPDATES = 3"

definition update_addr :: "ptr \<Rightarrow> u32 \<Rightarrow> ptr" where
  "update_addr p i = p * 2 ^ 32 + unat i"

lemma update_addr_inj: "update_addr p i = update_addr q j \<longleftrightarrow> p = q \<and> i = j"
proof -
  have "unat i < 2 ^ 32" "unat j < 2 ^ 32" using unsigned_less [of i] unsigned_less [of j] by simp_all
  then have "p = (p * 2 ^ 32 + unat i) div 2 ^ 32 \<and> unat i = (p * 2 ^ 32 + unat i) mod 2 ^ 32"
    "q = (q * 2 ^ 32 + unat j) div 2 ^ 32 \<and> unat j = (q * 2 ^ 32 + unat j) mod 2 ^ 32"
    by simp_all
  then show ?thesis unfolding update_addr_def by (metis unsigned_word_eqI)
qed

text \<open>
  A step of the main thread gives \<open>Done\<close> or \<open>Crash\<close> (a store through \<open>NULL\<close> or a read of a freed
  array); that it never returns is \<open>None\<close> around it.
\<close>

datatype 'a outcome = Crash | Done 'a

definition ctx_ring :: "('j, 'r) tg_bot_ctx \<Rightarrow> gw_ring" where
  "ctx_ring ctx = ring (snd (ctx_io ctx))"

definition on_ring :: "(gw_ring \<Rightarrow> gw_ring) \<Rightarrow> ('j, 'r) tg_bot_ctx \<Rightarrow> ('j, 'r) tg_bot_ctx" where
  "on_ring f ctx =
     ctx\<lparr>ctx_io := (fst (ctx_io ctx), (snd (ctx_io ctx))\<lparr>ring := f (ctx_ring ctx)\<rparr>)\<rparr>"

section \<open>Updates and their release\<close>

text \<open>The update at an address of the form \<open>update_addr p i\<close>; \<open>None\<close>: there is no live array.\<close>

definition update_at :: "('j, 'r) tg_mem \<Rightarrow> ptr \<Rightarrow> 'j tg_update option" where
  "update_at m a =
     (case map_of (arrays m) (a div 2 ^ 32) of
        None \<Rightarrow> None
      | Some ups \<Rightarrow> if a mod 2 ^ 32 < length (updates_arr ups) then Some (updates_arr ups ! (a mod 2 ^ 32)) else None)"

definition store_update :: "ptr \<Rightarrow> 'j tg_update \<Rightarrow> ('j, 'r) tg_mem \<Rightarrow> ('j, 'r) tg_mem" where
  "store_update a u m =
     (case map_of (arrays m) (a div 2 ^ 32) of
        None \<Rightarrow> m
      | Some ups \<Rightarrow>
          m\<lparr>arrays := AList.update (a div 2 ^ 32)
               (ups\<lparr>updates_arr := (updates_arr ups)[a mod 2 ^ 32 := u]\<rparr>) (arrays m)\<rparr>)"

definition free_update_at ::
    "('j, 'r) json_ops \<Rightarrow> ptr \<Rightarrow> ('j, 'r) tg_mem \<Rightarrow> ('j, 'r) tg_mem option" where
  "free_update_at js a m =
     map_option (\<lambda>u. let (u1, m1) = tgapi_free_update js u m in store_update a u1 m1) (update_at m a)"

section \<open>Submission\<close>

text \<open>
  \<open>gw_ring_submit\<close> of theory Ring on the bot's context, where the release of the update of a dropped request, which Ring only
  records, changes the memory. A release that reads memory that is gone is a crash, and the submission ends there.
\<close>

text \<open>The update of a module request that could not be punted is freed by the submission.\<close>

definition free_dropped ::
    "('j, 'r) json_ops \<Rightarrow> gw_ring_sqe \<Rightarrow> bool \<Rightarrow> ('j, 'r) tg_mem \<Rightarrow> ('j, 'r) tg_mem option" where
  "free_dropped js sqe ok m =
     (if ok \<or> sqe_op sqe \<noteq> GW_RING_OP_MODULE_HANDLE then Some m
      else case sqe_module_handle sqe of None \<Rightarrow> None | Some h \<Rightarrow> free_update_at js (handle_update h) m)"

definition ctx_submit_sqe ::
    "('j, 'r) json_ops \<Rightarrow> gw_ring_sqe \<Rightarrow> ('j, 'r) tg_bot_ctx \<Rightarrow> (bool \<times> ('j, 'r) tg_bot_ctx) outcome option" where
  "ctx_submit_sqe js sqe ctx =
     (case submit_sqe sqe (ctx_io ctx) of
        None \<Rightarrow> None
      | Some (ok, io) \<Rightarrow>
          Some (case free_dropped js sqe ok (ctx_mem ctx) of
                  None \<Rightarrow> Crash
                | Some m \<Rightarrow> Done (ok, ctx\<lparr>ctx_io := io, ctx_mem := m\<rparr>)))"

function ctx_submit_loop ::
    "('j, 'r) json_ops \<Rightarrow> u32 \<Rightarrow> u32 \<Rightarrow> u32 \<Rightarrow> int \<Rightarrow> ('j, 'r) tg_bot_ctx \<Rightarrow>
     (int \<times> u32 \<times> ('j, 'r) tg_bot_ctx) outcome option" where
  "ctx_submit_loop js msk head tail ret ctx =
     (if head \<noteq> tail
      then case ctx_submit_sqe js (sqes (ctx_ring ctx) ! slot head msk) ctx of
             None \<Rightarrow> None
           | Some Crash \<Rightarrow> Some Crash
           | Some (Done (ok, ctx1)) \<Rightarrow>
               ctx_submit_loop js msk (head + 1) tail (if ok then ret + 1 else ret) ctx1
      else Some (Done (ret, head, ctx)))"
  by pat_completeness auto
termination
proof (relation "measure (\<lambda>(js, msk, head, tail, ret, ctx). unat (tail - head))")
  fix js :: "('j, 'r) json_ops" and msk head tail :: u32
  assume "head \<noteq> tail"
  from unat_diff_pop [OF this]
  show "((js, msk, head + 1, tail, ret', ctx'), (js, msk, head, tail, ret, ctx)) \<in>
      measure (\<lambda>(js, msk, head, tail, ret, ctx). unat (tail - head))"
    for ret ret' :: int and ctx ctx' :: "('j, 'r) tg_bot_ctx" by simp
qed simp

declare ctx_submit_loop.simps [simp del]

definition ctx_submit ::
    "('j, 'r) json_ops \<Rightarrow> ('j, 'r) tg_bot_ctx \<Rightarrow> (int \<times> ('j, 'r) tg_bot_ctx) outcome option" where
  "ctx_submit js ctx =
     (let r = ctx_ring ctx
      in if ring_should_stop r then Some (Done (- EOWNERDEAD, ctx))
         else case ctx_submit_loop js (sq_mask r) (sq_head r) (sq_tail r) 0 ctx of
                None \<Rightarrow> None
              | Some Crash \<Rightarrow> Some Crash
              | Some (Done (ret, head, ctx1)) \<Rightarrow> Some (Done (ret, on_ring (\<lambda>r. r\<lparr>sq_head := head\<rparr>) ctx1)))"

section \<open>Requests\<close>

definition ctx_get_sqe :: "('j, 'r) tg_bot_ctx \<Rightarrow> nat option \<times> ('j, 'r) tg_bot_ctx" where
  "ctx_get_sqe ctx =
     (let (sqe, r) = gw_ring_get_sqe (ctx_ring ctx) in (sqe, on_ring (\<lambda>_. r) ctx))"

text \<open>
  The first lines of \<open>arm_update_sqe\<close> and \<open>prep_update_handle\<close>. The second answer of
  \<open>gw_ring_get_sqe\<close> is not tested, so what follows crashes if it is \<open>NULL\<close>.
\<close>

definition get_sqe_or_submit ::
    "('j, 'r) json_ops \<Rightarrow> ('j, 'r) tg_bot_ctx \<Rightarrow> (nat \<times> ('j, 'r) tg_bot_ctx) outcome option" where
  "get_sqe_or_submit js ctx =
     (case ctx_get_sqe ctx of
        (Some sqe, ctx1) \<Rightarrow> Some (Done (sqe, ctx1))
      | (None, ctx1) \<Rightarrow>
          (case ctx_submit js ctx1 of
             None \<Rightarrow> None
           | Some Crash \<Rightarrow> Some Crash
           | Some (Done (ret, ctx2)) \<Rightarrow>
               (case ctx_get_sqe ctx2 of
                  (Some sqe, ctx3) \<Rightarrow> Some (Done (sqe, ctx3))
                | (None, ctx3) \<Rightarrow> Some Crash)))"

definition arm_update_sqe ::
    "('j, 'r) json_ops \<Rightarrow> ('j, 'r) tg_bot_ctx \<Rightarrow> ('j, 'r) tg_bot_ctx outcome option" where
  "arm_update_sqe js ctx =
     (case get_sqe_or_submit js ctx of
        None \<Rightarrow> None
      | Some Crash \<Rightarrow> Some Crash
      | Some (Done (sqe, ctx1)) \<Rightarrow>
          let ctx2 = ctx1\<lparr>ctx_updates := NULL\<rparr>
          in Some (Done (on_ring (write_sqe sqe (\<lambda>s.
               (gw_ring_prep_tg_get_updates CTX_TCTX CTX_UPDATES (ctx_max_update_id ctx2 + 1) s)
               \<lparr>sqe_user_data := ucast TG_API_GET_UPDATES\<rparr>)) ctx2)))"

definition prep_update_handle ::
    "('j, 'r) json_ops \<Rightarrow> ptr \<Rightarrow> ('j, 'r) tg_bot_ctx \<Rightarrow> (int \<times> ('j, 'r) tg_bot_ctx) outcome option" where
  "prep_update_handle js up ctx =
     (case get_sqe_or_submit js ctx of
        None \<Rightarrow> None
      | Some Crash \<Rightarrow> Some Crash
      | Some (Done (sqe, ctx1)) \<Rightarrow>
          Some (Done (0, on_ring (write_sqe sqe (\<lambda>s.
            (gw_ring_prep_tg_module_handle CTX up s)\<lparr>sqe_user_data := 0\<rparr>)) ctx1)))"

section \<open>Completions\<close>

definition process_tg_api_update ::
    "('j, 'r) json_ops \<Rightarrow> 'j tg_update \<Rightarrow> ptr \<Rightarrow> ('j, 'r) tg_bot_ctx \<Rightarrow>
     (int \<times> ('j, 'r) tg_bot_ctx) outcome option" where
  "process_tg_api_update js u up ctx =
     prep_update_handle js up (ctx\<lparr>ctx_mem := tgapi_inc_ref_update js u (ctx_mem ctx)\<rparr>)"

text \<open>The body of the loop over the updates: the update id is compared as a signed number.\<close>

definition note_update_id :: "u64 \<Rightarrow> i64 \<Rightarrow> i64" where
  "note_update_id uid mx = (if sint mx < sint uid then uid else mx)"

definition process_update_at ::
    "('j, 'r) json_ops \<Rightarrow> u32 \<Rightarrow> 'j tg_update \<Rightarrow> ('j, 'r) tg_bot_ctx \<Rightarrow>
     (int \<times> ('j, 'r) tg_bot_ctx) outcome option" where
  "process_update_at js i u ctx =
     process_tg_api_update js u (update_addr (ctx_updates ctx) i)
       (ctx\<lparr>ctx_max_update_id := note_update_id (update_id u) (ctx_max_update_id ctx)\<rparr>)"

text \<open>The loop, from index \<open>i\<close>. The array is read again in every round.\<close>

partial_function (option) updates_loop ::
    "('j, 'r) json_ops \<Rightarrow> u32 \<Rightarrow> ('j, 'r) tg_bot_ctx \<Rightarrow> ('j, 'r) tg_bot_ctx outcome option" where
  "updates_loop js i ctx =
     (case map_of (arrays (ctx_mem ctx)) (ctx_updates ctx) of
        None \<Rightarrow> Some Crash
      | Some ups \<Rightarrow>
          if unat i < updates_len ups
          then case process_update_at js i (updates_arr ups ! unat i) ctx of
                 None \<Rightarrow> None
               | Some Crash \<Rightarrow> Some Crash
               | Some (Done (ret, ctx1)) \<Rightarrow> updates_loop js (i + 1) ctx1
          else Some (Done ctx))"

text \<open>The result \<open>ret\<close>, if the steps before it came to an end.\<close>

definition returning ::
    "int \<Rightarrow> ('j, 'r) tg_bot_ctx outcome option \<Rightarrow> (int \<times> ('j, 'r) tg_bot_ctx) outcome option" where
  "returning ret oc = map_option (\<lambda>oc. case oc of Crash \<Rightarrow> Crash | Done ctx \<Rightarrow> Done (ret, ctx)) oc"

definition process_tg_api_updates ::
    "('j, 'r) json_ops \<Rightarrow> int \<Rightarrow> ('j, 'r) tg_bot_ctx \<Rightarrow>
     (int \<times> ('j, 'r) tg_bot_ctx) outcome option" where
  "process_tg_api_updates js res ctx =
     (case (if res < 0 then Some (Done (0, ctx))
            else if ctx_updates ctx = NULL then Some (Done (res, ctx))
            else returning res (updates_loop js 0 ctx)) of
        None \<Rightarrow> None
      | Some Crash \<Rightarrow> Some Crash
      | Some (Done (ret, ctx1)) \<Rightarrow> returning ret (arm_update_sqe js ctx1))"

text \<open>\<open>(int)cqe->res\<close> keeps the low half.\<close>

definition process_tg_api_cqe ::
    "('j, 'r) json_ops \<Rightarrow> gw_ring_cqe \<Rightarrow> ('j, 'r) tg_bot_ctx \<Rightarrow>
     (int \<times> ('j, 'r) tg_bot_ctx) outcome option" where
  "process_tg_api_cqe js cqe ctx =
     (let res = sint (ucast (cqe_res cqe) :: u32)
      in if cqe_user_data cqe = ucast TG_API_GET_UPDATES then process_tg_api_updates js res ctx
         else Some (Done (0, ctx)))"

definition process_cqe ::
    "('j, 'r) json_ops \<Rightarrow> gw_ring_cqe \<Rightarrow> ('j, 'r) tg_bot_ctx \<Rightarrow>
     (int \<times> ('j, 'r) tg_bot_ctx) outcome option" where
  "process_cqe js cqe ctx =
     (if cqe_op cqe = GW_RING_OP_NOP then Some (Done (0, ctx))
      else if cqe_op cqe = GW_RING_OP_TG_API_CALL then process_tg_api_cqe js cqe ctx
      else Some (Done (0, ctx)))"

text \<open>The loop over the completions, from \<open>head\<close>, with the counter \<open>i\<close> and the last result.
  The tail is loaded again in every round.\<close>

partial_function (option) cqe_loop ::
    "('j, 'r) json_ops \<Rightarrow> u32 \<Rightarrow> u32 \<Rightarrow> int \<Rightarrow> ('j, 'r) tg_bot_ctx \<Rightarrow>
     (int \<times> u32 \<times> ('j, 'r) tg_bot_ctx) outcome option" where
  "cqe_loop js head i ret ctx =
     (case gw_ring_load_head_cqe head (ctx_ring ctx) of
        None \<Rightarrow> Some (Done (ret, i, ctx))
      | Some cqe \<Rightarrow>
          (case process_cqe js cqe ctx of
             None \<Rightarrow> None
           | Some Crash \<Rightarrow> Some Crash
           | Some (Done (ret1, ctx1)) \<Rightarrow>
               if ret1 \<noteq> 0 then Some (Done (ret1, i + 1, ctx1))
               else cqe_loop js (head + 1) (i + 1) ret1 ctx1))"

section \<open>The bot\<close>

text \<open>
  \<open>gw_ring_wait_cqe\<close> of the main thread: each function of \<open>others\<close> is what the workers do to the
  context and its memory during one sleep.
\<close>

fun ctx_wait_cqe ::
    "(('j, 'r) tg_bot_ctx \<Rightarrow> ('j, 'r) tg_bot_ctx) list \<Rightarrow> ('j, 'r) tg_bot_ctx \<Rightarrow>
     (int \<times> (('j, 'r) tg_bot_ctx \<Rightarrow> ('j, 'r) tg_bot_ctx) list \<times> ('j, 'r) tg_bot_ctx) option" where
  "ctx_wait_cqe others ctx =
     (case wait_cqe_pass (ctx_ring ctx) of
        (Some (ret, sl), r) \<Rightarrow> Some (ret, others, on_ring (\<lambda>_. r) ctx)
      | (None, r) \<Rightarrow>
          (case others of
             [] \<Rightarrow> None
           | other # rest \<Rightarrow>
               ctx_wait_cqe rest (on_ring wait_cqe_woken (other (on_ring (\<lambda>_. r) ctx)))))"

declare ctx_wait_cqe.simps [simp del]

definition run_tg_bot_loop ::
    "('j, 'r) json_ops \<Rightarrow> (('j, 'r) tg_bot_ctx \<Rightarrow> ('j, 'r) tg_bot_ctx) list \<Rightarrow> ('j, 'r) tg_bot_ctx \<Rightarrow>
     (int \<times> (('j, 'r) tg_bot_ctx \<Rightarrow> ('j, 'r) tg_bot_ctx) list \<times> ('j, 'r) tg_bot_ctx) outcome option" where
  "run_tg_bot_loop js others ctx =
     (case ctx_submit js ctx of
        None \<Rightarrow> None
      | Some Crash \<Rightarrow> Some Crash
      | Some (Done (ret, ctx0)) \<Rightarrow>
          if ret < 0 then Some (Done (ret, others, ctx0))
          else
            (case ctx_wait_cqe others ctx0 of
               None \<Rightarrow> None
             | Some (ret, others1, ctx1) \<Rightarrow>
                 if ret < 0 then Some (Done (ret, others1, ctx1))
                 else
                   map_option (\<lambda>oc. case oc of Crash \<Rightarrow> Crash
                       | Done (ret, i, ctx2) \<Rightarrow>
                           Done (ret, others1, on_ring (gw_ring_cq_advance i) ctx2))
                     (cqe_loop js (cq_head (ctx_ring ctx1)) 0 ret ctx1)))"

text \<open>The loop of \<open>run_tg_bot\<close>; \<open>None\<close>: the bot runs on, or waits for completions that \<open>others\<close>
  does not bring.\<close>

partial_function (option) bot_loop ::
    "('j, 'r) json_ops \<Rightarrow> (('j, 'r) tg_bot_ctx \<Rightarrow> ('j, 'r) tg_bot_ctx) list \<Rightarrow> ('j, 'r) tg_bot_ctx \<Rightarrow>
     (int \<times> ('j, 'r) tg_bot_ctx) outcome option" where
  "bot_loop js others ctx =
     (case run_tg_bot_loop js others ctx of
        None \<Rightarrow> None
      | Some Crash \<Rightarrow> Some Crash
      | Some (Done (ret, others1, ctx1)) \<Rightarrow>
          if ret \<noteq> 0 then Some (Done (ret, ctx1)) else bot_loop js others1 ctx1)"

definition run_tg_bot ::
    "('j, 'r) json_ops \<Rightarrow> ('j tg_update, ('j, 'r) tg_bot_ctx) gw_bot_module list \<Rightarrow>
     (('j, 'r) tg_bot_ctx \<Rightarrow> ('j, 'r) tg_bot_ctx) list \<Rightarrow> ('j, 'r) tg_bot_ctx \<Rightarrow>
     (int \<times> ('j, 'r) tg_bot_ctx) outcome option" where
  "run_tg_bot js mods others ctx =
     (let (ret, ctx1) = gw_init_modules mods True ctx
      in if ret \<noteq> 0 then Some (Done (ret, ctx1))
         else
           case arm_update_sqe js ctx1 of
             None \<Rightarrow> None
           | Some Crash \<Rightarrow> Some Crash
           | Some (Done ctx2) \<Rightarrow>
               (case bot_loop js others ctx2 of
                  None \<Rightarrow> None
                | Some Crash \<Rightarrow> Some Crash
                | Some (Done (ret, ctx3)) \<Rightarrow>
                    Some (case gw_shutdown_modules mods ctx3 of
                            None \<Rightarrow> Crash | Some ctx4 \<Rightarrow> Done (ret, ctx4))))"

section \<open>Slots\<close>

lemma ctx_ring_simps [simp]:
  "ctx_ring (on_ring f ctx) = f (ctx_ring ctx)"
  "ctx_ring (ctx\<lparr>ctx_io := io\<rparr>) = ring (snd io)"
  "ctx_ring (ctx\<lparr>ctx_updates := p\<rparr>) = ctx_ring ctx"
  "ctx_ring (ctx\<lparr>ctx_mem := m\<rparr>) = ctx_ring ctx"
  "ctx_ring (ctx\<lparr>ctx_max_update_id := k\<rparr>) = ctx_ring ctx"
  "fst (ctx_io (on_ring f ctx)) = fst (ctx_io ctx)"
  "ctx_mem (on_ring f ctx) = ctx_mem ctx"
  "ctx_updates (on_ring f ctx) = ctx_updates ctx"
  "ctx_max_update_id (on_ring f ctx) = ctx_max_update_id ctx"
  "on_ring g (on_ring f ctx) = on_ring (\<lambda>r. g (f r)) ctx"
  by (simp_all add: ctx_ring_def on_ring_def)

definition sq_blocked :: "gw_ring \<Rightarrow> bool" where
  "sq_blocked r = (length (sq_contents r) = length (sqes r) \<or> sq_tail r < sq_head r)"

lemma get_sqe_eq:
  assumes "sq_ok r"
  shows "gw_ring_get_sqe r =
    (if sq_blocked r then (None, r)
     else (Some (slot (sq_tail r) (sq_mask r)), r\<lparr>sq_tail := sq_tail r + 1\<rparr>))"
  using sq_full_iff [OF assms] by (simp add: gw_ring_get_sqe_def sq_blocked_def)

lemma write_got_sqe:
  "write_sqe (slot (sq_tail r) (sq_mask r)) f (r\<lparr>sq_tail := sq_tail r + 1\<rparr>) =
     sq_push (f (sqes r ! slot (sq_tail r) (sq_mask r))) r"
  by (simp add: write_sqe_def sq_push_def)

text \<open>A submission on the context is the one of the ring, and leaves the rest of the context but the memory alone.\<close>

lemma ctx_submit_sqe_io:
  "ctx_submit_sqe js sqe ctx = Some (Done (ok, ctx')) \<Longrightarrow>
   submit_sqe sqe (ctx_io ctx) = Some (ok, ctx_io ctx') \<and> ctx_updates ctx' = ctx_updates ctx \<and>
   ctx_max_update_id ctx' = ctx_max_update_id ctx"
  by (auto simp: ctx_submit_sqe_def split: option.splits)

lemma ctx_submit_loop_io:
  assumes "ctx_submit_loop js msk h t ret ctx = Some (Done (ret', h', ctx'))"
  shows "submit_loop msk h t ret (ctx_io ctx) = Some (ret', h', ctx_io ctx') \<and> ctx_updates ctx' = ctx_updates ctx \<and>
    ctx_max_update_id ctx' = ctx_max_update_id ctx"
  using assms
proof (induction js msk h t ret ctx rule: ctx_submit_loop.induct)
  case (1 js msk h t ret ctx)
  show ?case
  proof (cases "h = t")
    case True
    with "1.prems" have "ret' = ret" "h' = t" "ctx' = ctx" by (simp_all add: ctx_submit_loop.simps [of js msk t t])
    with True show ?thesis by (simp add: submit_loop.simps [of msk t t])
  next
    case False
    let ?sqe = "sqes (ctx_ring ctx) ! slot h msk"
    obtain ok ctx1 where sub: "ctx_submit_sqe js ?sqe ctx = Some (Done (ok, ctx1))"
      and rec: "ctx_submit_loop js msk (h + 1) t (if ok then ret + 1 else ret) ctx1 = Some (Done (ret', h', ctx'))"
      using "1.prems" False by (auto simp: ctx_submit_loop.simps [of js msk h] split: option.splits outcome.splits)
    from "1.IH" [OF False sub refl refl rec] ctx_submit_sqe_io [OF sub] False show ?thesis
      by (simp add: submit_loop.simps [of msk h] ctx_ring_def)
  qed
qed

lemma ctx_submit_io:
  assumes "ctx_submit js ctx = Some (Done (ret, ctx'))"
  shows "gw_ring_submit (ctx_io ctx) = Some (ret, ctx_io ctx')" and "ctx_updates ctx' = ctx_updates ctx"
    and "ctx_max_update_id ctx' = ctx_max_update_id ctx"
  using assms ctx_submit_loop_io [of js _ _ _ 0 ctx]
  by (auto simp: ctx_submit_def gw_ring_submit_def on_ring_def ctx_ring_def Let_def
      split: if_splits option.splits outcome.splits)

text \<open>A submission that drops nothing leaves the memory alone too.\<close>

lemma submit_loop_count:
  "submit_loop msk h t ret st = Some (ret', h', st') \<Longrightarrow> ret \<le> ret' \<and> ret' \<le> ret + int (unat (t - h))"
proof (induction msk h t ret st rule: submit_loop.induct)
  case (1 msk h t ret st)
  show ?case
  proof (cases "h = t")
    case True
    with "1.prems" show ?thesis by (simp add: submit_loop.simps)
  next
    case False
    then obtain ok st1 where sub: "submit_sqe (sqes (ring (snd st)) ! slot h msk) st = Some (ok, st1)"
      and rec: "submit_loop msk (h + 1) t (if ok then ret + 1 else ret) st1 = Some (ret', h', st')"
      using "1.prems" by (auto simp: submit_loop.simps [of msk h] split: option.splits)
    from "1.IH" [OF False sub refl rec] unat_diff_pop [OF False] show ?thesis by (simp split: if_splits)
  qed
qed

lemma ctx_submit_loop_full:
  assumes "submit_loop msk h t ret (ctx_io ctx) = Some (ret + int (unat (t - h)), h', st')"
  shows "ctx_submit_loop js msk h t ret ctx = Some (Done (ret + int (unat (t - h)), h', ctx\<lparr>ctx_io := st'\<rparr>))"
  using assms
proof (induction js msk h t ret ctx rule: ctx_submit_loop.induct)
  case (1 js msk h t ret ctx)
  show ?case
  proof (cases "h = t")
    case True
    with "1.prems" show ?thesis by (auto simp: submit_loop.simps [of msk t t] ctx_submit_loop.simps)
  next
    case False
    let ?sqe = "sqes (ctx_ring ctx) ! slot h msk"
    have pop: "unat (t - h) = Suc (unat (t - (h + 1)))" using unat_diff_pop [OF False] by simp
    obtain ok st1 where sub: "submit_sqe ?sqe (ctx_io ctx) = Some (ok, st1)"
      and rec: "submit_loop msk (h + 1) t (if ok then ret + 1 else ret) st1 = Some (ret + int (unat (t - h)), h', st')"
      using "1.prems" False by (auto simp: submit_loop.simps [of msk h] ctx_ring_def split: option.splits)
    have ok using submit_loop_count [OF rec] pop by (auto split: if_splits)
    let ?c = "ctx\<lparr>ctx_io := st1\<rparr>"
    have step: "ctx_submit_sqe js ?sqe ctx = Some (Done (True, ?c))"
      using sub \<open>ok\<close> by (simp add: ctx_submit_sqe_def free_dropped_def)
    have sum: "ret + int (unat (t - h)) = (ret + 1) + int (unat (t - (h + 1)))" by (simp add: pop)
    have "submit_loop msk (h + 1) t (if True then ret + 1 else ret) (ctx_io ?c) =
        Some ((if True then ret + 1 else ret) + int (unat (t - (h + 1))), h', st')"
      using rec \<open>ok\<close> unfolding sum by simp
    from "1.IH" [OF False step refl refl this] step False show ?thesis
      by (simp add: ctx_submit_loop.simps [of js msk h] sum del: of_nat_unat)
  qed
qed

lemma ctx_submit_full:
  assumes "gw_ring_submit (ctx_io ctx) = Some (int (length (sq_contents (ctx_ring ctx))), io)"
    and "\<not> ring_should_stop (ctx_ring ctx)"
  shows "ctx_submit js ctx = Some (Done (int (length (sq_contents (ctx_ring ctx))), ctx\<lparr>ctx_io := io\<rparr>))"
proof -
  let ?r = "ctx_ring ctx"
  obtain h e s where loop: "submit_loop (sq_mask ?r) (sq_head ?r) (sq_tail ?r) 0 (ctx_io ctx) =
      Some (int (unat (sq_tail ?r - sq_head ?r)), h, (e, s))"
    and io: "io = (e, s\<lparr>ring := (ring s)\<lparr>sq_head := h\<rparr>\<rparr>)"
    using assms by (auto simp: gw_ring_submit_def ctx_ring_def [symmetric] Let_def split: option.splits)
  then have "submit_loop (sq_mask ?r) (sq_head ?r) (sq_tail ?r) 0 (ctx_io ctx) =
      Some (0 + int (unat (sq_tail ?r - sq_head ?r)), h, (e, s))" by simp
  from ctx_submit_loop_full [OF this, of js] show ?thesis
    using assms(2) by (simp add: ctx_submit_def Let_def on_ring_def io ctx_ring_def)
qed

definition sample_ctx :: "gw_ring \<Rightarrow> ('j, nat) tg_mem \<Rightarrow> ('j, nat) tg_bot_ctx" where
  "sample_ctx r m = \<lparr>ctx_io = (quiet_env, fresh_sys r), ctx_mem = m, ctx_updates = NULL, ctx_max_update_id = 0\<rparr>"

lemma sample_ctx_fields [simp]:
  "ctx_ring (sample_ctx r m) = r" "ctx_io (sample_ctx r m) = (quiet_env, fresh_sys r)"
  "ctx_mem (sample_ctx r m) = m" "ctx_max_update_id (sample_ctx r m) = 0" "ctx_updates (sample_ctx r m) = NULL"
  by (simp_all add: sample_ctx_def ctx_ring_def fresh_sys_def)

section \<open>Requests with room to spare\<close>

definition handle_request :: "ptr \<Rightarrow> gw_ring_sqe" where
  "handle_request up = \<lparr>sqe_op = GW_RING_OP_MODULE_HANDLE, sqe_user_data = 0,
     sqe_union = U_tg_module_handle \<lparr>handle_ctx = CTX, handle_update = up\<rparr>\<rparr>"

definition poll_request :: "i64 \<Rightarrow> gw_ring_sqe" where
  "poll_request offset = \<lparr>sqe_op = GW_RING_OP_TG_API_CALL, sqe_user_data = ucast TG_API_GET_UPDATES,
     sqe_union = U_tg_api_call \<lparr>call_op = TG_API_GET_UPDATES, call_ctx = CTX_TCTX,
       updates_p = CTX_UPDATES, call_offset = offset\<rparr>\<rparr>"

text \<open>Room for \<open>n\<close> more requests before the queue is full or its indices wrap.\<close>

definition sq_room :: "nat \<Rightarrow> gw_ring \<Rightarrow> bool" where
  "sq_room n r = (sq_ok r \<and> sq_head r \<le> sq_tail r \<and> unat (sq_tail r) + n < 2 ^ 32 \<and>
     length (sq_contents r) + n \<le> length (sqes r))"

lemma sq_room_free: "sq_room (Suc n) r \<Longrightarrow> sq_ok r \<and> \<not> sq_blocked r"
  by (auto simp: sq_room_def sq_blocked_def)

lemma sq_room_push:
  assumes "sq_room (Suc n) r"
  shows "sq_room n (sq_push x r)" and "sq_contents (sq_push x r) = sq_contents r @ [x]"
proof -
  have len: "unat (sq_tail r - sq_head r) < length (sqes r)" and ok: "sq_ok r"
    and t: "unat (sq_tail r) + Suc n < 2 ^ 32" and le: "sq_head r \<le> sq_tail r"
    using assms by (simp_all add: sq_room_def)
  note p = sq_push_ok [OF ok len, of x]
  then show "sq_contents (sq_push x r) = sq_contents r @ [x]" by simp
  have u: "unat (sq_tail r + 1) = Suc (unat (sq_tail r))" by (rule unat_plus_one) (use t in simp)
  have "sq_tail (sq_push x r) = sq_tail r + 1" "sq_head (sq_push x r) = sq_head r"
      "length (sqes (sq_push x r)) = length (sqes r)"
    by (simp_all add: sq_push_def)
  moreover have "sq_head r \<le> sq_tail r + 1" using le u by (simp add: word_le_nat_alt)
  moreover have "length (sq_contents (sq_push x r)) + n \<le> length (sqes r)"
    using p assms by (simp add: sq_room_def del: length_sq_contents)
  ultimately show "sq_room n (sq_push x r)" using p t u by (simp add: sq_room_def del: length_sq_contents)
qed

lemma get_sqe_or_submit_room:
  assumes "sq_room (Suc n) (ctx_ring ctx)"
  shows "get_sqe_or_submit js ctx =
    Some (Done (slot (sq_tail (ctx_ring ctx)) (sq_mask (ctx_ring ctx)),
      on_ring (\<lambda>r. r\<lparr>sq_tail := sq_tail r + 1\<rparr>) ctx))"
  using get_sqe_eq [of "ctx_ring ctx"] sq_room_free [OF assms]
  by (simp add: get_sqe_or_submit_def ctx_get_sqe_def on_ring_def)

lemma prep_room:
  assumes "sq_room (Suc n) (ctx_ring ctx)"
  shows "prep_update_handle js up ctx = Some (Done (0, on_ring (sq_push (handle_request up)) ctx))"
proof -
  have "(gw_ring_prep_tg_module_handle CTX up s)\<lparr>sqe_user_data := 0\<rparr> = handle_request up" for s
    by (simp add: gw_ring_prep_tg_module_handle_def handle_request_def)
  then show ?thesis
    using get_sqe_or_submit_room [OF assms] write_got_sqe [of "ctx_ring ctx"]
    by (simp add: prep_update_handle_def on_ring_def ctx_ring_def)
qed

lemma arm_room:
  assumes "sq_room (Suc n) (ctx_ring ctx)"
  shows "arm_update_sqe js ctx = Some (Done (on_ring (sq_push (poll_request (ctx_max_update_id ctx + 1)))
    (ctx\<lparr>ctx_updates := NULL\<rparr>)))"
proof -
  have "(gw_ring_prep_tg_get_updates CTX_TCTX CTX_UPDATES k s)\<lparr>sqe_user_data := ucast TG_API_GET_UPDATES\<rparr> =
      poll_request k" for k s
    by (simp add: gw_ring_prep_tg_get_updates_def poll_request_def)
  then show ?thesis
    using get_sqe_or_submit_room [OF assms] write_got_sqe [of "ctx_ring ctx"]
    by (simp add: arm_update_sqe_def on_ring_def ctx_ring_def Let_def)
qed

section \<open>A batch of updates\<close>

lemma on_ring_commute:
  "on_ring f (ctx\<lparr>ctx_mem := m\<rparr>) = (on_ring f ctx)\<lparr>ctx_mem := m\<rparr>"
  "on_ring f (ctx\<lparr>ctx_max_update_id := k\<rparr>) = (on_ring f ctx)\<lparr>ctx_max_update_id := k\<rparr>"
  "on_ring f (ctx\<lparr>ctx_updates := p\<rparr>) = (on_ring f ctx)\<lparr>ctx_updates := p\<rparr>"
  by (simp_all add: on_ring_def ctx_ring_def)

lemma inc_ref_frame [simp]: "arrays (tgapi_inc_ref_update js u m) = arrays m"
  "blocks (tgapi_inc_ref_update js u m) = blocks m"
  by (simp_all add: tgapi_inc_ref_update_def)

text \<open>The requests for the updates from index \<open>k\<close> up to \<open>n\<close> of the array at \<open>p\<close>, and what the loop
  does to the rest of the context.\<close>

definition handle_requests :: "ptr \<Rightarrow> nat \<Rightarrow> nat \<Rightarrow> gw_ring_sqe list" where
  "handle_requests p k n = map (\<lambda>i. handle_request (update_addr p (of_nat i))) [k..<n]"

definition noted :: "('j, 'r) json_ops \<Rightarrow> 'j tg_update list \<Rightarrow> ('j, 'r) tg_bot_ctx \<Rightarrow> ('j, 'r) tg_bot_ctx" where
  "noted js us ctx = ctx\<lparr>ctx_max_update_id := fold note_update_id (map update_id us) (ctx_max_update_id ctx),
     ctx_mem := fold (tgapi_inc_ref_update js) us (ctx_mem ctx)\<rparr>"

lemma noted_simps [simp]:
  "noted js [] ctx = ctx" "ctx_ring (noted js us ctx) = ctx_ring ctx"
  "ctx_updates (noted js us ctx) = ctx_updates ctx"
  "ctx_max_update_id (noted js us ctx) = fold note_update_id (map update_id us) (ctx_max_update_id ctx)"
  "ctx_mem (noted js us ctx) = fold (tgapi_inc_ref_update js) us (ctx_mem ctx)"
  "on_ring f (noted js us ctx) = noted js us (on_ring f ctx)"
  by (simp_all add: noted_def ctx_ring_def on_ring_def)

lemma noted_Cons: "noted js (u # us) ctx = noted js us (noted js [u] ctx)"
  by (simp add: noted_def)

lemma process_update_at_room:
  assumes "sq_room (Suc n) (ctx_ring ctx)"
  shows "process_update_at js i u ctx = Some (Done (0,
    on_ring (sq_push (handle_request (update_addr (ctx_updates ctx) i))) (noted js [u] ctx)))"
  using prep_room [of n "noted js [u] ctx"] assms
  by (simp add: process_update_at_def process_tg_api_update_def noted_def)

lemma updates_loop_room:
  assumes "map_of (arrays (ctx_mem ctx)) (ctx_updates ctx) = Some \<lparr>updates_len = length us, updates_arr = us\<rparr>"
    and "k \<le> length us" and "length us < 2 ^ 32" and "sq_room (Suc (length us - k)) (ctx_ring ctx)"
  shows "updates_loop js (of_nat k) ctx = Some (Done
    (on_ring (pushes sq_push (handle_requests (ctx_updates ctx) k (length us))) (noted js (drop k us) ctx)))"
  using assms
proof (induction "length us - k" arbitrary: k ctx)
  case 0
  then have "k = length us" "unat (of_nat k :: u32) = k" by (simp_all add: unat_of_nat)
  with 0 show ?case
    by (subst updates_loop.simps) (simp add: handle_requests_def on_ring_def ctx_ring_def)
next
  case (Suc n)
  then have k: "k < length us" and u: "unat (of_nat k :: u32) = k" by (simp_all add: unat_of_nat)
  let ?c = "on_ring (sq_push (handle_request (update_addr (ctx_updates ctx) (of_nat k)))) (noted js [us ! k] ctx)"
  from process_update_at_room [of "length us - k"] Suc.prems(4)
  have step: "process_update_at js (of_nat k) (us ! k) ctx = Some (Done (0, ?c))" by blast
  have unfold: "updates_loop js (of_nat k) ctx = updates_loop js (of_nat (Suc k)) ?c"
    using Suc.prems(1) k u step by (subst updates_loop.simps) (simp add: add.commute)
  have "length us - k = Suc (length us - Suc k)" using k by simp
  with Suc.prems(4) have "sq_room (Suc (Suc (length us - Suc k))) (ctx_ring ctx)" by simp
  from sq_room_push(1) [OF this] have room: "sq_room (Suc (length us - Suc k)) (ctx_ring ?c)" by simp
  have n: "n = length us - Suc k" using Suc.hyps(2) by simp
  have arr: "map_of (arrays (ctx_mem ?c)) (ctx_updates ?c) = Some \<lparr>updates_len = length us, updates_arr = us\<rparr>"
    using Suc.prems(1) by simp
  from Suc.hyps(1) [OF n arr _ Suc.prems(3) room] k
  have "updates_loop js (of_nat (Suc k)) ?c = Some (Done
      (on_ring (pushes sq_push (handle_requests (ctx_updates ctx) (Suc k) (length us)))
        (noted js (drop (Suc k) us) ?c)))"
    by (simp only: Suc_le_eq ctx_ring_simps noted_simps)
  moreover have "handle_requests (ctx_updates ctx) k (length us) =
      handle_request (update_addr (ctx_updates ctx) (of_nat k)) # handle_requests (ctx_updates ctx) (Suc k) (length us)"
    unfolding handle_requests_def upt_conv_Cons [OF k] by simp
  moreover have "drop k us = us ! k # drop (Suc k) us" using k by (rule Cons_nth_drop_Suc [symmetric])
  moreover have "pushes sq_push (x # xs) = (\<lambda>r. pushes sq_push xs (sq_push x r))" for x xs by (rule ext) simp
  ultimately show ?case using unfold by (simp add: noted_Cons [of js "us ! k" "drop (Suc k) us"])
qed

lemma sint_note: "sint (fold note_update_id ids mx) = Max (sint ` set (mx # ids))"
proof -
  have "sint (fold note_update_id ids mx) = fold max (map sint ids) (sint mx)"
  proof (induction ids arbitrary: mx)
    case (Cons a ids)
    have "sint (note_update_id a mx) = max (sint a) (sint mx)" by (simp add: note_update_id_def)
    with Cons show ?case by simp
  qed simp
  then show ?thesis using Max.set_eq_fold [of "sint mx" "map sint ids"] by simp
qed

text \<open>The updates a completion with result \<open>res\<close> brings.\<close>

definition batch :: "int \<Rightarrow> ('j, 'r) tg_bot_ctx \<Rightarrow> 'j tg_update list \<Rightarrow> bool" where
  "batch res ctx us =
     (if res < 0 \<or> ctx_updates ctx = NULL then us = []
      else map_of (arrays (ctx_mem ctx)) (ctx_updates ctx) =
        Some \<lparr>updates_len = length us, updates_arr = us\<rparr>)"

definition batch_requests :: "'j tg_update list \<Rightarrow> ('j, 'r) tg_bot_ctx \<Rightarrow> gw_ring_sqe list" where
  "batch_requests us ctx = handle_requests (ctx_updates ctx) 0 (length us) @
     [poll_request (fold note_update_id (map update_id us) (ctx_max_update_id ctx) + 1)]"

lemma length_batch_requests [simp]: "length (batch_requests us ctx) = Suc (length us)"
  by (simp add: batch_requests_def handle_requests_def)

lemma pushes_append: "pushes push (xs @ ys) s = pushes push ys (pushes push xs s)"
  by (induction xs arbitrary: s) simp_all

lemma pushes_append_fun: "pushes push (xs @ ys) = (\<lambda>s. pushes push ys (pushes push xs s))"
  by (rule ext) (rule pushes_append)

lemma sq_room_pushes: "sq_room (n + length xs) r \<Longrightarrow> sq_room n (pushes sq_push xs r)"
  by (induction xs arbitrary: r) (simp_all add: sq_room_push(1))

lemma sq_contents_pushes:
  "sq_room (length xs) r \<Longrightarrow> sq_contents (pushes sq_push xs r) = sq_contents r @ xs"
  using sq_fifo.pushes_contents [of r xs] by (simp add: sq_room_def)

lemma sq_room_length: "sq_room (Suc n) r \<Longrightarrow> n < 2 ^ 32"
  by (simp add: sq_room_def)

lemma process_updates_eq:
  assumes b: "batch res ctx us" and room: "sq_room (Suc (length us)) (ctx_ring ctx)"
  shows "process_tg_api_updates js res ctx = Some (Done (if res < 0 then 0 else res,
    on_ring (pushes sq_push (batch_requests us ctx)) ((noted js us ctx)\<lparr>ctx_updates := NULL\<rparr>)))"
proof -
  let ?hs = "handle_requests (ctx_updates ctx) 0 (length us)"
  let ?c = "on_ring (pushes sq_push ?hs) (noted js us ctx)"
  have "length ?hs = length us" by (simp add: handle_requests_def)
  then have "sq_room (Suc 0) (ctx_ring ?c)" using sq_room_pushes [of 1 ?hs "ctx_ring ctx"] room by simp
  note arm = arm_room [OF this]
  have arm_c: "arm_update_sqe js ?c = Some (Done
      (on_ring (pushes sq_push (batch_requests us ctx)) ((noted js us ctx)\<lparr>ctx_updates := NULL\<rparr>)))"
    unfolding arm by (simp add: batch_requests_def pushes_append_fun on_ring_commute(3) [symmetric] del: noted_simps(6))
  show ?thesis
  proof (cases "res < 0 \<or> ctx_updates ctx = NULL")
    case True
    with b have us: "us = []" by (simp add: batch_def)
    then have "?c = ctx" by (simp add: handle_requests_def on_ring_def ctx_ring_def)
    with arm_c True show ?thesis by (auto simp: process_tg_api_updates_def returning_def)
  next
    case False
    with b have "map_of (arrays (ctx_mem ctx)) (ctx_updates ctx) = Some \<lparr>updates_len = length us, updates_arr = us\<rparr>"
      by (simp add: batch_def)
    from updates_loop_room [OF this, of 0 js] room sq_room_length [OF room]
    have "updates_loop js 0 ctx = Some (Done ?c)" by simp
    with arm_c False show ?thesis by (simp add: process_tg_api_updates_def returning_def)
  qed
qed

text \<open>
  C10: what a completed \<open>getUpdates\<close> leads to, while the submission queue has room for one request more than there are
  updates. Every slot of the array (the ones the parser skipped included) is handed over, in the order of the array, after one call of
  \<open>tgapi_inc_ref_update\<close> on it, which is \<open>json_object_get\<close> on its \<open>json\<close> field: it takes a reference only
  where that is not \<open>NULL\<close>, and the list parser leaves it \<open>NULL\<close>. Then the bot asks again, with the offset one
  above the highest update id it has seen, as a signed number; a failed call is answered by asking again with the same offset.
\<close>

theorem process_updates_spec:
  assumes "batch res ctx us" and "sq_room (Suc (length us)) (ctx_ring ctx)"
  shows "\<exists>ctx'. process_tg_api_updates js res ctx = Some (Done (if res < 0 then 0 else res, ctx')) \<and>
    sq_contents (ctx_ring ctx') = sq_contents (ctx_ring ctx) @
      map (\<lambda>i. handle_request (update_addr (ctx_updates ctx) (of_nat i))) [0..<length us] @
      [poll_request (ctx_max_update_id ctx' + 1)] \<and>
    sint (ctx_max_update_id ctx') = Max (sint ` set (ctx_max_update_id ctx # map update_id us)) \<and>
    ctx_mem ctx' = fold (tgapi_inc_ref_update js) us (ctx_mem ctx) \<and> ctx_updates ctx' = NULL"
  using process_updates_eq [OF assms, of js] assms(2) sint_note [of "map update_id us" "ctx_max_update_id ctx"]
    sq_contents_pushes [of "batch_requests us ctx" "ctx_ring ctx"]
  by (auto simp: batch_requests_def handle_requests_def simp del: list.set set_map)

section \<open>One pass of the main loop\<close>

definition is_poll :: "gw_ring_cqe \<Rightarrow> bool" where
  "is_poll cqe = (cqe_op cqe = GW_RING_OP_TG_API_CALL \<and> cqe_user_data cqe = ucast TG_API_GET_UPDATES)"

definition poll_res :: "gw_ring_cqe \<Rightarrow> int" where
  "poll_res cqe = sint (ucast (cqe_res cqe) :: u32)"

lemma process_cqe_cases:
  "process_cqe js cqe ctx =
     (if is_poll cqe then process_tg_api_updates js (poll_res cqe) ctx else Some (Done (0, ctx)))"
  by (simp add: process_cqe_def process_tg_api_cqe_def is_poll_def poll_res_def Let_def ring_op_defs)

lemma load_head_cqe:
  assumes "for_each_cqe_from head r = c # cs"
  shows "gw_ring_load_head_cqe head r = Some c" and "for_each_cqe_from (head + 1) r = cs"
  using assms by (subst (asm) for_each_cqe_from.simps, simp split: option.splits)+

lemma cqe_loop_skip:
  assumes "for_each_cqe_from head (ctx_ring ctx) = cs @ rest" and "\<forall>c \<in> set cs. \<not> is_poll c"
  shows "cqe_loop js head i ret ctx =
      cqe_loop js (head + of_nat (length cs)) (i + of_nat (length cs)) (if cs = [] then ret else 0) ctx \<and>
    for_each_cqe_from (head + of_nat (length cs)) (ctx_ring ctx) = rest"
  using assms
proof (induction cs arbitrary: head i ret)
  case (Cons c cs)
  note l = load_head_cqe [OF Cons.prems(1) [unfolded append_Cons]]
  have "cqe_loop js head i ret ctx = cqe_loop js (head + 1) (i + 1) 0 ctx"
    using l(1) Cons.prems(2) by (subst cqe_loop.simps) (simp add: process_cqe_cases)
  with Cons.IH [OF l(2)] Cons.prems(2) show ?case by (simp add: add.assoc)
qed simp

definition same_cq :: "gw_ring \<Rightarrow> gw_ring \<Rightarrow> bool" where
  "same_cq r r' = (cqes r' = cqes r \<and> cq_head r' = cq_head r \<and> cq_tail r' = cq_tail r \<and> cq_mask r' = cq_mask r)"

lemma same_cq_pushes: "same_cq r (pushes sq_push xs r)"
proof (induction xs arbitrary: r)
  case (Cons x xs)
  have "same_cq r (sq_push x r)" by (simp add: same_cq_def sq_push_def)
  with Cons [of "sq_push x r"] show ?case by (simp add: same_cq_def)
qed (simp add: same_cq_def)

lemma for_each_same_cq: "same_cq r r' \<Longrightarrow> for_each_cqe_from head r' = for_each_cqe_from head r"
  by (simp add: for_each_cqe_from_eq same_cq_def)

text \<open>What one poll completion with the updates \<open>us\<close> makes of the context.\<close>

definition polled :: "('j, 'r) json_ops \<Rightarrow> 'j tg_update list \<Rightarrow> ('j, 'r) tg_bot_ctx \<Rightarrow> ('j, 'r) tg_bot_ctx" where
  "polled js us ctx =
     on_ring (pushes sq_push (batch_requests us ctx)) ((noted js us ctx)\<lparr>ctx_updates := NULL\<rparr>)"

lemma cqe_loop_one_poll:
  assumes c: "for_each_cqe_from head (ctx_ring ctx) = cs @ c # ds"
    and polls: "is_poll c" "\<forall>x \<in> set cs \<union> set ds. \<not> is_poll x" and res: "poll_res c \<le> 0"
    and b: "batch (poll_res c) ctx us" and room: "sq_room (Suc (length us)) (ctx_ring ctx)"
  shows "cqe_loop js head 0 ret ctx = Some (Done (0, of_nat (length (cs @ c # ds)), polled js us ctx))"
proof -
  let ?h = "head + of_nat (length cs)"
  let ?c = "polled js us ctx"
  from cqe_loop_skip [OF c] polls have
    skip: "cqe_loop js head 0 ret ctx = cqe_loop js ?h (of_nat (length cs)) (if cs = [] then ret else 0) ctx"
    and v: "for_each_cqe_from ?h (ctx_ring ctx) = c # ds" by simp_all
  note l = load_head_cqe [OF v]
  have "process_cqe js c ctx = Some (Done (0, ?c))"
    using polls(1) res process_updates_eq [OF b room, of js] by (simp add: process_cqe_cases polled_def)
  with l(1) have step: "cqe_loop js ?h (of_nat (length cs)) r0 ctx = cqe_loop js (?h + 1) (of_nat (length cs) + 1) 0 ?c" for r0
    by (subst cqe_loop.simps) simp
  have "same_cq (ctx_ring ctx) (ctx_ring ?c)" by (simp add: polled_def same_cq_pushes)
  from for_each_same_cq [OF this] l(2) have v2: "for_each_cqe_from (?h + 1) (ctx_ring ?c) = ds @ []" by simp
  let ?h2 = "?h + 1 + of_nat (length ds)"
  from cqe_loop_skip [OF v2] polls(2) have
    rest: "cqe_loop js (?h + 1) (of_nat (length cs) + 1) 0 ?c =
      cqe_loop js ?h2 (of_nat (length cs) + 1 + of_nat (length ds)) 0 ?c"
    and e: "for_each_cqe_from ?h2 (ctx_ring ?c) = []" by simp_all
  from e have "gw_ring_load_head_cqe ?h2 (ctx_ring ?c) = None"
    by (subst (asm) for_each_cqe_from.simps) (simp split: option.splits)
  then have "cqe_loop js ?h2 k 0 ?c = Some (Done (0, k, ?c))" for k by (subst cqe_loop.simps) simp
  with skip step rest show ?thesis by (simp add: algebra_simps)
qed

lemma submit_nothing:
  assumes "sq_head (ring s) = sq_tail (ring s)" and "\<not> ring_should_stop (ring s)"
  shows "gw_ring_submit (e, s) = Some (0, (e, s))"
  using assms by (simp add: gw_ring_submit_def Let_def submit_loop.simps)

lemma wait_with_completions:
  assumes "cq_contents r \<noteq> []" and "cq_unwrapped r" and "length (cq_contents r) < 2 ^ 31"
    and "\<not> ring_should_stop r"
  shows "\<exists>sl. wait_cqe_pass r = (Some (int (length (cq_contents r)), sl), r)"
proof -
  have "sint (u32_diff (cq_tail r) (cq_head r)) = int (unat (cq_tail r - cq_head r))"
    using assms(2,3) by (intro sint_u32_diff) (simp_all add: cq_unwrapped_def)
  moreover have "cq_tail r \<noteq> cq_head r" using assms(1) cq_contents_Nil_iff by metis
  moreover have "0 < uint (cq_tail r - cq_head r)"
    using \<open>cq_tail r \<noteq> cq_head r\<close> uint_0_iff [of "cq_tail r - cq_head r"] uint_ge_0 [of "cq_tail r - cq_head r"]
    by (metis eq_iff_diff_eq_0 less_le)
  ultimately show ?thesis
    using assms(4) by (auto simp: wait_cqe_pass_def gw_ring_wait_cqe_once_def Let_def)
qed

lemma bot_pass_run:
  assumes "sq_contents (ctx_ring ctx) = []" and "\<not> ring_should_stop (ctx_ring ctx)"
    and "cq_unwrapped (ctx_ring ctx)" and "length (cq_contents (ctx_ring ctx)) < 2 ^ 31"
    and "cq_contents (ctx_ring ctx) = cs @ c # ds" and "is_poll c" and "\<forall>x \<in> set cs \<union> set ds. \<not> is_poll x"
    and "poll_res c \<le> 0" and "batch (poll_res c) ctx us" and "sq_room (Suc (length us)) (ctx_ring ctx)"
  shows "\<exists>ctx'. run_tg_bot_loop js others ctx = Some (Done (0, others, ctx')) \<and>
    cq_contents (ctx_ring ctx') = [] \<and> sq_contents (ctx_ring ctx') = batch_requests us ctx \<and>
    ctx_max_update_id ctx' = fold note_update_id (map update_id us) (ctx_max_update_id ctx) \<and>
    ctx' = on_ring (gw_ring_cq_advance (of_nat (length (cs @ c # ds)))) (polled js us ctx)"
proof -
  obtain e s where io: "ctx_io ctx = (e, s)" by (cases "ctx_io ctx")
  have r: "ctx_ring ctx = ring s" by (simp add: ctx_ring_def io)
  have "gw_ring_submit (ctx_io ctx) = Some (0, ctx_io ctx)"
    using submit_nothing [of s e] assms(1,2) sq_contents_Nil_iff [of "ring s"] by (simp add: io r)
  then have "ctx_submit js ctx = Some (Done (0, ctx))"
    using ctx_submit_full [of ctx "ctx_io ctx" js] assms(1,2) by simp
  moreover obtain sl where "wait_cqe_pass (ctx_ring ctx) = (Some (int (length (cq_contents (ctx_ring ctx))), sl), ctx_ring ctx)"
    using wait_with_completions assms(2-5) by (metis append_is_Nil_conv list.distinct(1))
  then have "ctx_wait_cqe others ctx = Some (int (length (cq_contents (ctx_ring ctx))), others, ctx)"
    by (subst ctx_wait_cqe.simps) (simp add: on_ring_def ctx_ring_def)
  moreover have "for_each_cqe_from (cq_head (ctx_ring ctx)) (ctx_ring ctx) = cs @ c # ds"
    using assms(5) by (simp add: for_each_cqe_from_eq cq_contents_def)
  note loop = cqe_loop_one_poll [OF this assms(6-10), of js "int (length (cq_contents (ctx_ring ctx)))"]
  ultimately have run: "run_tg_bot_loop js others ctx = Some (Done (0, others,
      on_ring (gw_ring_cq_advance (of_nat (length (cs @ c # ds)))) (polled js us ctx)))"
    by (simp add: run_tg_bot_loop_def)
  have "cq_head (ctx_ring ctx) + of_nat (length (cs @ c # ds)) = cq_tail (ctx_ring ctx)"
    using length_cq_contents [of "ctx_ring ctx"] unfolding assms(5) by simp
  then have "cq_contents (gw_ring_cq_advance (of_nat (length (cs @ c # ds))) (ctx_ring (polled js us ctx))) = []"
    using same_cq_pushes [of "ctx_ring ctx" "batch_requests us ctx"]
    unfolding cq_contents_Nil_iff by (simp add: gw_ring_cq_advance_def polled_def same_cq_def)
  moreover have "sq_contents (gw_ring_cq_advance k x) = sq_contents x" for k x
    by (simp add: gw_ring_cq_advance_def sq_contents_def)
  ultimately show ?thesis
    using run sq_contents_pushes [of "batch_requests us ctx" "ctx_ring ctx"] assms(1,10)
    by (auto simp: polled_def)
qed

text \<open>What the completions of a pass bring: none of them is a poll (\<open>None\<close>), or one is, with the updates \<open>us\<close>
  (none if the call failed), and the submission queue has room for their requests and the next poll.\<close>

definition brings :: "'j tg_update list option \<Rightarrow> ('j, 'r) tg_bot_ctx \<Rightarrow> bool" where
  "brings b ctx =
     (case b of
        None \<Rightarrow> cq_contents (ctx_ring ctx) \<noteq> [] \<and> (\<forall>c \<in> set (cq_contents (ctx_ring ctx)). \<not> is_poll c)
      | Some us \<Rightarrow>
          sq_room (Suc (length us)) (ctx_ring ctx) \<and>
          (\<exists>cs c ds. cq_contents (ctx_ring ctx) = cs @ c # ds \<and> is_poll c \<and> (\<forall>x \<in> set cs \<union> set ds. \<not> is_poll x) \<and>
             poll_res c \<le> 0 \<and> batch (poll_res c) ctx us))"

text \<open>The requests such a pass makes, and the highest update id after it.\<close>

definition pass_made :: "'j tg_update list option \<Rightarrow> ('j, 'r) tg_bot_ctx \<Rightarrow> gw_ring_sqe list" where
  "pass_made b ctx = (case b of None \<Rightarrow> [] | Some us \<Rightarrow> batch_requests us ctx)"

definition pass_max :: "'j tg_update list option \<Rightarrow> ('j, 'r) tg_bot_ctx \<Rightarrow> i64" where
  "pass_max b ctx = fold note_update_id (map update_id (case b of None \<Rightarrow> [] | Some us \<Rightarrow> us)) (ctx_max_update_id ctx)"

lemma cqe_loop_brings:
  assumes "brings b ctx"
  obtains ctx2 where "cqe_loop js (cq_head (ctx_ring ctx)) 0 ret ctx =
      Some (Done (0, of_nat (length (cq_contents (ctx_ring ctx))), ctx2))"
    and "same_cq (ctx_ring ctx) (ctx_ring ctx2)"
    and "sq_contents (ctx_ring ctx2) = sq_contents (ctx_ring ctx) @ pass_made b ctx"
    and "ctx_max_update_id ctx2 = pass_max b ctx"
proof (cases b)
  case None
  have v: "for_each_cqe_from (cq_head (ctx_ring ctx)) (ctx_ring ctx) = cq_contents (ctx_ring ctx) @ []"
    by (simp add: for_each_cqe_from_eq cq_contents_def)
  let ?h = "cq_head (ctx_ring ctx) + of_nat (length (cq_contents (ctx_ring ctx)))"
  from cqe_loop_skip [OF v, of js 0 ret] None assms have
    loop: "cqe_loop js (cq_head (ctx_ring ctx)) 0 ret ctx =
      cqe_loop js ?h (of_nat (length (cq_contents (ctx_ring ctx)))) 0 ctx"
    and e: "for_each_cqe_from ?h (ctx_ring ctx) = []" by (simp_all add: brings_def del: length_cq_contents)
  from e have "gw_ring_load_head_cqe ?h (ctx_ring ctx) = None"
    by (subst (asm) for_each_cqe_from.simps) (simp split: option.splits)
  then have "cqe_loop js ?h k 0 ctx = Some (Done (0, k, ctx))" for k by (subst cqe_loop.simps) simp
  with loop show ?thesis
    by (intro that [of ctx]) (simp_all add: None same_cq_def pass_made_def pass_max_def)
next
  case (Some us)
  then obtain cs c ds where c: "cq_contents (ctx_ring ctx) = cs @ c # ds" "is_poll c" "\<forall>x \<in> set cs \<union> set ds. \<not> is_poll x"
      "poll_res c \<le> 0" "batch (poll_res c) ctx us" and room: "sq_room (Suc (length us)) (ctx_ring ctx)"
    using assms by (auto simp: brings_def)
  have "for_each_cqe_from (cq_head (ctx_ring ctx)) (ctx_ring ctx) = cs @ c # ds"
    using c(1) by (simp add: for_each_cqe_from_eq cq_contents_def)
  from cqe_loop_one_poll [OF this c(2-5) room, of js ret] show ?thesis
    unfolding c(1) [symmetric]
    by (rule that) (use room in \<open>simp_all add: polled_def same_cq_pushes sq_contents_pushes Some pass_made_def pass_max_def\<close>)
qed

text \<open>
  C9: one whole pass of the main loop. Under the conditions that the ring is not being stopped, memory does not run out, the other
  threads respect \<open>sq_lock\<close>, only requests for the workers are queued and the work queue has room for them, the pass first
  turns all queued requests into works of the pool, in order, and empties the queue. Then it waits, through any number of
  sleeps and whatever the others do meanwhile. If the wait returns without an error, with completions of which none is a poll, or one is,
  with a result of at most 0 and room for what it brings, the pass goes through all of them, gives all their slots back,
  queues the updates of the poll and the next poll (nothing, if there was none) and returns 0: the bot goes on.
\<close>

theorem bot_pass:
  assumes "\<not> ring_should_stop (ctx_ring ctx)" and "locked_env (fst (ctx_io ctx))" and "io_mallocs (fst (ctx_io ctx)) = []"
    and "\<forall>sqe \<in> set (sq_contents (ctx_ring ctx)). is_punted sqe"
    and "wq_room (length (sq_contents (ctx_ring ctx))) (ring_wq (ctx_ring ctx))"
  shows "\<exists>s ds. gw_ring_submit (ctx_io ctx) = Some (int (length (sq_contents (ctx_ring ctx))), (fst (ctx_io ctx), s)) \<and>
    punted (sq_contents (ctx_ring ctx)) ds (snd (ctx_io ctx)) s \<and> sq_contents (ring s) = [] \<and>
    (\<forall>ret others1 ctx1 b.
       ctx_wait_cqe others (ctx\<lparr>ctx_io := (fst (ctx_io ctx), s)\<rparr>) = Some (ret, others1, ctx1) \<and> 0 \<le> ret \<and> brings b ctx1 \<longrightarrow>
       (\<exists>ctx'. run_tg_bot_loop js others ctx = Some (Done (0, others1, ctx')) \<and> cq_contents (ctx_ring ctx') = [] \<and>
          sq_contents (ctx_ring ctx') = sq_contents (ctx_ring ctx1) @ pass_made b ctx1 \<and>
          ctx_max_update_id ctx' = pass_max b ctx1))"
proof -
  have r: "ring (snd (ctx_io ctx)) = ctx_ring ctx" by (simp add: ctx_ring_def)
  from submit_punts [of "snd (ctx_io ctx)" "fst (ctx_io ctx)", unfolded r, OF assms] obtain s ds where
    sub: "gw_ring_submit (ctx_io ctx) = Some (int (length (sq_contents (ctx_ring ctx))), (fst (ctx_io ctx), s))"
    and p: "punted (sq_contents (ctx_ring ctx)) ds (snd (ctx_io ctx)) s" "sq_contents (ring s) = []"
    by (auto simp del: length_sq_contents)
  let ?c = "ctx\<lparr>ctx_io := (fst (ctx_io ctx), s)\<rparr>"
  note full = ctx_submit_full [OF sub assms(1), of js]
  have "\<exists>ctx'. run_tg_bot_loop js others ctx = Some (Done (0, others1, ctx')) \<and> cq_contents (ctx_ring ctx') = [] \<and>
      sq_contents (ctx_ring ctx') = sq_contents (ctx_ring ctx1) @ pass_made b ctx1 \<and> ctx_max_update_id ctx' = pass_max b ctx1"
    if w: "ctx_wait_cqe others ?c = Some (ret, others1, ctx1)" "0 \<le> ret" "brings b ctx1" for ret others1 ctx1 b
  proof -
    let ?n = "of_nat (length (cq_contents (ctx_ring ctx1))) :: u32"
    obtain ctx2 where loop: "cqe_loop js (cq_head (ctx_ring ctx1)) 0 ret ctx1 = Some (Done (0, ?n, ctx2))"
      and cq: "same_cq (ctx_ring ctx1) (ctx_ring ctx2)"
      and made: "sq_contents (ctx_ring ctx2) = sq_contents (ctx_ring ctx1) @ pass_made b ctx1"
        "ctx_max_update_id ctx2 = pass_max b ctx1"
      by (rule cqe_loop_brings [OF w(3)])
    have "run_tg_bot_loop js others ctx = Some (Done (0, others1, on_ring (gw_ring_cq_advance ?n) ctx2))"
      unfolding run_tg_bot_loop_def full using w(1,2) loop by (simp del: length_cq_contents)
    moreover have "cq_contents (gw_ring_cq_advance ?n (ctx_ring ctx2)) = []"
      using cq unfolding cq_contents_Nil_iff by (simp add: gw_ring_cq_advance_def same_cq_def)
    moreover have "sq_contents (gw_ring_cq_advance k x) = sq_contents x" for k x
      by (simp add: gw_ring_cq_advance_def sq_contents_def)
    ultimately show ?thesis using made by auto
  qed
  with sub p show ?thesis by metis
qed

text \<open>A context with one update in its array and, in its ring, the completion of the poll.\<close>

definition one_update :: "json tg_update" where
  "one_update = (zero_update sample_js)\<lparr>update_id := 7\<rparr>"

definition polled_ctx :: "gw_ring \<Rightarrow> (json, nat) tg_bot_ctx" where
  "polled_ctx r = (sample_ctx r (sample_mem\<lparr>arrays := [(9, \<lparr>updates_len = 1, updates_arr = [one_update]\<rparr>)]\<rparr>))
     \<lparr>ctx_updates := 9\<rparr>"

definition poll_done :: gw_ring_cqe where
  "poll_done = \<lparr>cqe_op = GW_RING_OP_TG_API_CALL, cqe_res = 0, cqe_flags = 0, cqe_user_data = 0\<rparr>"

lemma polled_ctx_batch: "batch 0 (polled_ctx r) [one_update]"
  and polled_ctx_ring [simp]: "ctx_ring (polled_ctx r) = r" "ctx_max_update_id (polled_ctx r) = 0"
    "ctx_updates (polled_ctx r) = 9"
  by (simp_all add: batch_def polled_ctx_def)

lemma sample_ring_room: "sq_room (Suc (length [one_update])) sample_ring"
  using sample_ring_ok by (simp add: sq_room_def ring_ok_def)

theorem process_updates_spec_witness:
  "\<exists>ctx'. process_tg_api_updates sample_js 0 (polled_ctx sample_ring) = Some (Done (0, ctx')) \<and>
     sq_contents (ctx_ring ctx') = [handle_request (update_addr 9 0), poll_request 8]"
proof -
  have "ctx_ring (polled_ctx sample_ring) = sample_ring" by simp
  with sample_ring_room have "sq_room (Suc (length [one_update])) (ctx_ring (polled_ctx sample_ring))" by simp
  from process_updates_spec [OF polled_ctx_batch this, of sample_js] obtain ctx' where
    p: "process_tg_api_updates sample_js 0 (polled_ctx sample_ring) = Some (Done (0, ctx'))"
    and q: "sq_contents (ctx_ring ctx') = [handle_request (update_addr 9 0), poll_request (ctx_max_update_id ctx' + 1)]"
    and m: "sint (ctx_max_update_id ctx') = Max (sint ` {0, 7 :: i64})"
    by (auto simp: one_update_def)
  have "sint (ctx_max_update_id ctx') = sint (7 :: i64)" using m by simp
  then have "ctx_max_update_id ctx' = 7" by (simp only: signed_word_eqI)
  with p q show ?thesis by auto
qed

lemma polled_ring:
  "cq_contents (cq_push poll_done sample_ring) = [] @ poll_done # []" "is_poll poll_done" "poll_res poll_done = 0"
  "\<not> ring_should_stop (cq_push poll_done sample_ring)" "cq_unwrapped (cq_push poll_done sample_ring)"
  "sq_contents (cq_push poll_done sample_ring) = []" "length (cq_contents (cq_push poll_done sample_ring)) < 2 ^ 31"
  "sq_room (Suc (length [one_update])) (cq_push poll_done sample_ring)"
proof -
  let ?r = "cq_push poll_done sample_ring"
  have "cq_ok sample_ring" using sample_ring_ok by (simp add: ring_ok_def)
  from cq_push_ok [OF this, of poll_done] show c: "cq_contents ?r = [] @ poll_done # []" by simp
  show "\<not> ring_should_stop ?r" "cq_unwrapped ?r" "sq_contents ?r = []" "length (cq_contents ?r) < 2 ^ 31"
    unfolding c by (simp_all add: cq_push_def cq_unwrapped_def)
      (simp add: sample_ring_def fresh_ring_def sq_contents_def)
  show "sq_room (Suc (length [one_update])) ?r"
    using sample_ring_room by (simp add: sq_room_def) (simp add: cq_push_def)
  show "is_poll poll_done" "poll_res poll_done = 0"
    by (simp_all add: is_poll_def poll_done_def poll_res_def TG_API_GET_UPDATES_def)
qed

text \<open>The bot after its first poll was queued. While it sleeps, a worker stores one update and posts the completion.\<close>

definition asking_ctx :: "(json, nat) tg_bot_ctx" where
  "asking_ctx = sample_ctx (sq_push (poll_request 1) sample_ring) sample_mem"

definition poll_answered :: "(json, nat) tg_bot_ctx \<Rightarrow> (json, nat) tg_bot_ctx" where
  "poll_answered ctx = on_ring (cq_push poll_done) (ctx\<lparr>ctx_mem := sample_mem\<lparr>arrays :=
     [(9, \<lparr>updates_len = 1, updates_arr = [one_update]\<rparr>)]\<rparr>, ctx_updates := 9\<rparr>)"

theorem bot_pass_witness:
  "\<exists>s ds ctx'. gw_ring_submit (ctx_io asking_ctx) = Some (1, (quiet_env, s)) \<and>
     wq_contents (ring_wq (ring s)) = [punted_work (hd ds)] \<and>
     run_tg_bot_loop sample_js [poll_answered] asking_ctx = Some (Done (0, [], ctx')) \<and>
     cq_contents (ctx_ring ctx') = [] \<and>
     sq_contents (ctx_ring ctx') = [handle_request (update_addr 9 0), poll_request 8]"
proof -
  let ?r = "sq_push (poll_request 1) sample_ring"
  have ok: "sq_ok sample_ring" "cq_ok sample_ring" using sample_ring_ok by (simp_all add: ring_ok_def)
  have c: "ctx_ring asking_ctx = ?r" "ctx_io asking_ctx = (quiet_env, fresh_sys ?r)" by (simp_all add: asking_ctx_def)
  have q: "sq_contents ?r = [poll_request 1]" using sq_push_ok [OF ok(1), of "poll_request 1"] by simp
  have len: "int (length [poll_request 1]) = 1" by simp
  have f: "\<not> ring_should_stop ?r" "ring_wq ?r = sample_wq" by (simp_all add: sq_push_def)
  have wq: "wq_room 1 sample_wq" "wq_contents sample_wq = []"
    using sample_wq_room by (simp_all add: wq_room_def wq_contents_Nil_iff)
  have pre: "\<not> ring_should_stop (ctx_ring asking_ctx)" "locked_env (fst (ctx_io asking_ctx))"
      "io_mallocs (fst (ctx_io asking_ctx)) = []" "\<forall>sqe \<in> set (sq_contents (ctx_ring asking_ctx)). is_punted sqe"
      "wq_room (length (sq_contents (ctx_ring asking_ctx))) (ring_wq (ctx_ring asking_ctx))"
    unfolding c f q using f(1) wq(1) by (simp_all add: quiet_env_def locked_env_def is_punted_def poll_request_def)
  have fr: "ring (fresh_sys ?r) = ?r" "fst (ctx_io asking_ctx) = quiet_env" by (simp_all add: fresh_sys_def c)
  obtain s ds where sub: "gw_ring_submit (quiet_env, fresh_sys ?r) = Some (1, (quiet_env, s))"
    and p: "punted [poll_request 1] ds (fresh_sys ?r) s" "sq_contents (ring s) = []"
    and all: "\<forall>ret others1 ctx1 b. ctx_wait_cqe [poll_answered] (asking_ctx\<lparr>ctx_io := (quiet_env, s)\<rparr>) = Some (ret, others1, ctx1) \<and>
      0 \<le> ret \<and> brings b ctx1 \<longrightarrow> (\<exists>ctx'. run_tg_bot_loop sample_js [poll_answered] asking_ctx = Some (Done (0, others1, ctx')) \<and>
        cq_contents (ctx_ring ctx') = [] \<and> sq_contents (ctx_ring ctx') = sq_contents (ctx_ring ctx1) @ pass_made b ctx1 \<and>
        ctx_max_update_id ctx' = pass_max b ctx1)"
    using bot_pass [OF pre, of "[poll_answered]" sample_js] unfolding c fr(2) fst_conv snd_conv q len by blast
  have works: "wq_contents (ring_wq (ring s)) = [punted_work (hd ds)]"
    using p(1) wq(2) by (cases ds) (simp_all add: punted_def fr f)
  obtain qq where rs: "ring s = ?r\<lparr>ring_wq := qq, sq_head := 1\<rparr>"
    using submit_punts [of "fresh_sys ?r" quiet_env, unfolded fr, OF pre [unfolded c fst_conv]] sub
    by (auto simp: sq_push_def sample_ring_def fresh_ring_def simp del: length_sq_contents)
  let ?c0 = "asking_ctx\<lparr>ctx_io := (quiet_env, s)\<rparr>"
  let ?r0 = "(ring s)\<lparr>wait_cqe_cond_flag := True\<rparr>"
  let ?c1 = "on_ring wait_cqe_woken (poll_answered (on_ring (\<lambda>_. ?r0) ?c0))"
  let ?r1 = "wait_cqe_woken (cq_push poll_done ?r0)"
  have cq0: "cq_ok ?r0" "cq_contents ?r0 = []" "cq_contents (ring s) = []"
    using ok(2) by (simp_all add: rs cq_ok_def cq_contents_def) (simp_all add: sq_push_def)
  have r1: "ctx_ring ?c1 = ?r1" by (simp add: poll_answered_def)
  have "length (cqes ?r0) = 4" by (simp add: rs sq_push_def sample_ring_def fresh_ring_def)
  then have "unat (cq_tail ?r0 - cq_head ?r0) < length (cqes ?r0)" using cq0(2) by (simp add: cq_contents_Nil_iff)
  from cq_push_ok [OF cq0(1) this, of poll_done] cq0(2) have "cq_contents (cq_push poll_done ?r0) = [poll_done]" by simp
  then have cq1: "cq_contents ?r1 = [poll_done]" by (simp add: wait_cqe_woken_def cq_contents_def)
  have "cq_tail ?r1 = 1" "cq_head ?r1 = 0"
    by (simp_all add: rs sq_push_def wait_cqe_woken_def cq_push_def sample_ring_def fresh_ring_def)
  then have unw: "cq_unwrapped ?r1" "\<not> ring_should_stop ?r1"
    by (simp_all add: cq_unwrapped_def wait_cqe_woken_def cq_push_def rs sq_push_def)
  have sq1: "sq_contents ?r1 = []" using p(2) by (simp add: wait_cqe_woken_def cq_push_def sq_contents_def)
  have "sq_ok ?r1" "sq_head ?r1 = 1" "sq_tail ?r1 = 1" "length (sqes ?r1) = 2"
    using ok(1) by (simp_all add: rs sq_push_def wait_cqe_woken_def cq_push_def sq_ok_def sample_ring_def fresh_ring_def)
  with sq1 have room: "sq_room (Suc (length [one_update])) ?r1" by (simp add: sq_room_def)
  have "cq_contents ?r1 \<noteq> []" "length (cq_contents ?r1) < 2 ^ 31" unfolding cq1 by simp_all
  from wait_with_completions [OF this(1) unw(1) this(2) unw(2)] obtain sl where
    w2: "wait_cqe_pass ?r1 = (Some (1, sl), ?r1)" unfolding cq1 by auto
  have w1: "wait_cqe_pass (ring s) = (None, ?r0)"
    using cq0(3) unw(2)
    by (simp add: wait_cqe_pass_def gw_ring_wait_cqe_once_def cq_contents_Nil_iff EAGAIN_def wait_cqe_woken_def cq_push_def)
  have "ctx_wait_cqe [poll_answered] ?c0 = Some (1, [], on_ring (\<lambda>_. ?r1) ?c1)"
    using w1 w2 r1 by (simp add: ctx_wait_cqe.simps)
  moreover have same: "on_ring (\<lambda>_. ?r1) ?c1 = ?c1" using r1 by (simp add: on_ring_def ctx_ring_def)
  moreover have upd: "ctx_updates ?c1 = 9" "ctx_max_update_id ?c1 = 0"
      "arrays (ctx_mem ?c1) = [(9, \<lparr>updates_len = 1, updates_arr = [one_update]\<rparr>)]"
    by (simp_all add: poll_answered_def asking_ctx_def)
  have "brings (Some [one_update]) ?c1"
    unfolding brings_def option.case r1 cq1
    using room upd polled_ring(2,3) by (intro conjI exI [of _ "[]"] exI [of _ poll_done]) (simp_all add: batch_def)
  ultimately obtain ctx' where run: "run_tg_bot_loop sample_js [poll_answered] asking_ctx = Some (Done (0, [], ctx'))"
    and e: "cq_contents (ctx_ring ctx') = []"
      "sq_contents (ctx_ring ctx') = sq_contents (ctx_ring ?c1) @ pass_made (Some [one_update]) ?c1"
    using all by (metis zero_le_one)
  have note7: "note_update_id 7 0 = 7" by code_simp
  have "pass_made (Some [one_update]) ?c1 = [handle_request (update_addr 9 0), poll_request 8]"
    unfolding pass_made_def option.case batch_requests_def handle_requests_def upd
    by (simp add: one_update_def note7)
  with run e sub works show ?thesis unfolding c(2) r1 sq1 by auto
qed

end
