(* ===== verification/GwPrint.thy ===== *)
theory GwPrint
  imports GwCirc
begin

text \<open>
  core/print.c and include/gw/print.h: messages to the console. \<open>vsnprintf\<close> and \<open>strftime\<close> are the C
  library's: what a format makes of its arguments is an argument (\<open>None\<close>: \<open>vsnprintf\<close> fails), and the
  time stamp is one, too. That \<open>vsnprintf\<close> uses up its \<open>va_list\<close> is modelled.
\<close>

definition PR_INFO :: u32 where "PR_INFO = 0"
definition PR_ERROR :: u32 where "PR_ERROR = 1"
definition PR_DEBUG :: u32 where "PR_DEBUG = 2"
definition PR_WARN :: u32 where "PR_WARN = 3"

lemmas pr_defs = PR_INFO_def PR_ERROR_def PR_DEBUG_def PR_WARN_def

definition get_print_type :: "u32 \<Rightarrow> string" where
  "get_print_type ty =
     (if ty = PR_INFO then ''INFO''
      else if ty = PR_ERROR then ''ERROR''
      else if ty = PR_DEBUG then ''DEBUG''
      else if ty = PR_WARN then ''WARN''
      else ''UNKNOWN'')"

text \<open>After \<open>vsnprintf\<close> has read the arguments the \<open>va_list\<close> is indeterminate until \<open>va_end\<close>.\<close>

datatype 'a va_list = VA 'a | VA_used

text \<open>The value returned, the text in the buffer of \<open>n\<close> bytes (without the terminator), and the
  \<open>va_list\<close> afterwards. \<open>None\<close> is undefined behaviour: reading a used \<open>va_list\<close>.\<close>

definition vsnprintf :: "('a \<Rightarrow> string option) \<Rightarrow> nat \<Rightarrow> 'a va_list \<Rightarrow> (int \<times> string \<times> 'a va_list) option" where
  "vsnprintf render n va =
     (case va of
        VA_used \<Rightarrow> None
      | VA args \<Rightarrow>
          Some (case render args of
                  None \<Rightarrow> (- 1, [], VA_used)
                | Some out \<Rightarrow> (int (length out), take (n - 1) out, VA_used)))"

text \<open>\<open>*ret_p\<close>, \<open>*need_free\<close> and the buffer. The result of \<open>vsnprintf\<close> is used as a \<open>size_t\<close>.\<close>

definition alloc_print_buf ::
    "('a \<Rightarrow> string option) \<Rightarrow> bool \<Rightarrow> nat \<Rightarrow> 'a va_list \<Rightarrow> (int \<times> bool \<times> string) option" where
  "alloc_print_buf render malloc_ok prebuf_size va =
     (case vsnprintf render prebuf_size va of
        None \<Rightarrow> None
      | Some (r, buf, va1) \<Rightarrow>
          let ret = (word_of_int r :: u64)
          in if prebuf_size \<le> unat ret
             then
               if \<not> malloc_ok then Some (sint (ucast ret :: u32), False, buf)
               else map_option (\<lambda>(r2, buf2, va2). (sint (ucast ret :: u32), True, buf2))
                      (vsnprintf render (unat (ret + 1)) va1)
             else Some (sint (ucast ret :: u32), False, buf))"

definition print_line :: "string \<Rightarrow> u32 \<Rightarrow> string \<Rightarrow> string" where
  "print_line now ty buf = ''['' @ now @ '']['' @ get_print_type ty @ '']: '' @ buf @ [CHR 0x0A]"

text \<open>What a call does, in order: the lock, the line on the console, and the buffer it frees.\<close>

datatype print_event = Lock_print | Unlock_print | Console string | Free_buf

definition gw_print ::
    "('a \<Rightarrow> string option) \<Rightarrow> bool \<Rightarrow> string \<Rightarrow> u32 \<Rightarrow> 'a \<Rightarrow> (int \<times> print_event list) option" where
  "gw_print render malloc_ok now ty args =
     map_option (\<lambda>(ret, need_free, buf).
         (ret, [Lock_print, Console (print_line now ty buf), Unlock_print] @ (if need_free then [Free_buf] else [])))
       (alloc_print_buf render malloc_ok 8192 (VA args))"

datatype print_resource = R_print_mutex

definition gw_print_global_init :: "int \<Rightarrow> int \<times> print_resource trace_ev list" where
  "gw_print_global_init init_mutex = (init_mutex, if init_mutex = 0 then [Acquire R_print_mutex] else [])"

definition gw_print_global_destroy :: "print_resource trace_ev list" where
  "gw_print_global_destroy = [Release R_print_mutex]"

lemma word_of_length:
  assumes "length msg < 2 ^ 31"
  shows "unat (word_of_int (int (length msg)) :: u64) = length msg"
    and "sint (ucast (word_of_int (int (length msg)) :: u64) :: u32) = int (length msg)"
proof -
  show u: "unat (word_of_int (int (length msg)) :: u64) = length msg"
    using assms by (simp add: unat_of_nat)
  have "unat (ucast (word_of_int (int (length msg)) :: u64) :: u32) = length msg"
    unfolding unsigned_ucast_eq u using assms by (simp add: take_bit_eq_mod)
  with sint_small [OF assms] show "sint (ucast (word_of_int (int (length msg)) :: u64) :: u32) = int (length msg)"
    by blast
qed

text \<open>
  C39: a message of fewer than 8192 characters is printed as it is, in one piece under the lock. For a longer
  one the call prints the first 8191 characters if it cannot get a larger buffer, and if it can, its second
  \<open>vsnprintf\<close> reads the used-up argument list: undefined behaviour. The value returned is the full length.
\<close>

theorem gw_print_spec:
  assumes "render args = Some msg" and "length msg < 2 ^ 31"
  shows "gw_print render malloc_ok now ty args =
    (if length msg < 8192 \<or> \<not> malloc_ok
     then Some (int (length msg), [Lock_print, Console (print_line now ty (take 8191 msg)), Unlock_print])
     else None)"
  using word_of_length [OF assms(2)] assms(1)
  by (auto simp: gw_print_def alloc_print_buf_def vsnprintf_def Let_def)

theorem gw_print_spec_witness:
  "gw_print Some True ''now'' PR_INFO (replicate 8192 CHR ''a'') = None \<and>
   gw_print Some True ''now'' PR_WARN ''hi'' = Some (2, [Lock_print, Console (print_line ''now'' PR_WARN ''hi''), Unlock_print])"
  using gw_print_spec [of Some "replicate 8192 CHR ''a''" _ True "''now''" PR_INFO]
    gw_print_spec [of Some "''hi''" _ True "''now''" PR_WARN]
  by simp

end
