(* ===== verification/BotProcess.thy ===== *)
theory BotProcess
  imports BotMain GwPrint
begin

text \<open>
  The function \<open>main\<close> of core/main.c: the process acquires curl, the console and the ring, runs the bot, and
  gives back what it acquired, on every path. Resources are traced by name.
\<close>

datatype main_resource = M_curl curl_resource | M_print print_resource | M_ring ring_resource

text \<open>The token in the environment, and the answers of the system to the three initialisations.\<close>

record main_env =
  env_token :: "string option"
  env_curl :: curl_env
  env_print_mutex :: int
  env_ring :: ring_env

text \<open>The label \<open>out\<close>: the status of the process, and the cleaning up of curl.\<close>

definition main_out :: "int \<Rightarrow> main_resource trace_ev list \<Rightarrow> int \<times> main_resource trace_ev list" where
  "main_out ret tr =
     (if ret < 0 then - ret else ret, tr @ map (map_trace_ev M_curl) curl_cleanup_release)"

text \<open>
  \<open>main\<close> with the bot as an argument: \<open>run token r\<close> is \<open>run_tg_bot\<close> on a fresh context with the
  ring \<open>r\<close>, and gives its result and the ring it leaves. Exit codes are not cut to a byte.
\<close>

definition main_process ::
    "main_env \<Rightarrow> (string \<Rightarrow> gw_ring \<Rightarrow> (int \<times> gw_ring) outcome option) \<Rightarrow>
     (int \<times> main_resource trace_ev list) outcome option" where
  "main_process env run =
     (case env_token env of
        None \<Rightarrow> Some (Done (1, []))
      | Some token \<Rightarrow>
          let (ret, pool, t1) = gw_curl_global_init (env_curl env);
              tr1 = map (map_trace_ev M_curl) t1
          in if ret \<noteq> 0 then Some (Done (1, tr1))
             else
               let (ret, t2) = gw_print_global_init (env_print_mutex env);
                   tr2 = tr1 @ map (map_trace_ev M_print) t2
               in if ret \<noteq> 0 then Some (Done (main_out ret tr2))
                  else
                    case gw_ring_init (env_ring env) 8192 of
                      None \<Rightarrow> None
                    | Some (ret, ro, t3) \<Rightarrow>
                        let tr3 = tr2 @ map (map_trace_ev M_ring) t3
                        in if ret \<noteq> 0 then Some (Done (main_out ret tr3))
                           else
                             case run token (the ro) of
                               None \<Rightarrow> None
                             | Some Crash \<Rightarrow> Some Crash
                             | Some (Done (ret, r)) \<Rightarrow>
                                 Some (Done (main_out ret (tr3 @
                                   map (map_trace_ev M_ring) (gw_ring_destroy_release r) @
                                   map (map_trace_ev M_print) gw_print_global_destroy))))"

text \<open>The bot of the program, on the zeroed context of \<open>main\<close>. The token is in the URLs only.\<close>

definition fresh_ctx :: "io_env \<Rightarrow> ('j, 'r) tg_mem \<Rightarrow> gw_ring \<Rightarrow> ('j, 'r) tg_bot_ctx" where
  "fresh_ctx io m r =
     \<lparr>ctx_io = (io, \<lparr>ring = r, datas = [], freed_updates = [], ring_events = [], wq_events = []\<rparr>),
      ctx_mem = m, ctx_updates = NULL, ctx_max_update_id = 0\<rparr>"

definition the_bot ::
    "('j, 'r) json_ops \<Rightarrow> ('j tg_update, ('j, 'r) tg_bot_ctx) gw_bot_module list \<Rightarrow>
     (('j, 'r) tg_bot_ctx \<Rightarrow> ('j, 'r) tg_bot_ctx) list \<Rightarrow> io_env \<Rightarrow> ('j, 'r) tg_mem \<Rightarrow>
     string \<Rightarrow> gw_ring \<Rightarrow> (int \<times> gw_ring) outcome option" where
  "the_bot js mods others io m token r =
     map_option (\<lambda>oc. case oc of Crash \<Rightarrow> Crash | Done (ret, ctx) \<Rightarrow> Done (ret, ctx_ring ctx))
       (run_tg_bot js mods others (fresh_ctx io m r))"

section \<open>A set-up that fails\<close>

lemma held_embed:
  assumes "held [] tr = Some rs" and "inj f"
  shows "held qs (map (map_trace_ev f) tr) = Some (map f rs @ qs)"
  using held_map [OF assms, of qs] by simp

lemma curl_init_held:
  assumes "gw_curl_global_init env = (ret, pool, tr)"
  shows "held [] tr = Some (if ret = 0 then [R_handles, R_cd_mutex, R_cd, R_curl] else [])"
  using assms by (auto simp: gw_curl_global_init_def Let_def ENOMEM_def split: if_splits)

lemma ring_init_8192: "gw_ring_init env 8192 \<noteq> None"
proof -
  have "(8192 :: u32) \<le> 2 ^ 31" by simp
  from round_up_pow2_le [OF _ this, of 1] have "round_up_pow2 2 8192 \<noteq> None" by auto
  then show ?thesis
    using alloc_ring_wq_total [of "env_wq env"]
    by (auto simp: gw_ring_init_def Let_def split: option.splits)
qed

definition setup_ok :: "main_env \<Rightarrow> bool" where
  "setup_ok env = (env_token env \<noteq> None \<and> fst (gw_curl_global_init (env_curl env)) = 0 \<and>
     env_print_mutex env = 0 \<and> fst (the (gw_ring_init (env_ring env) 8192)) = 0)"

text \<open>
  C36: when a part of the set-up fails the process ends with a status other than 0 without running the bot,
  and gives back what it acquired, except that the mutex of the curl pool is never destroyed, nor the one of
  the console if it was the ring that failed.
\<close>

theorem main_setup_errors:
  assumes "\<not> setup_ok env"
  shows "\<exists>code tr. main_process env run = Some (Done (code, tr)) \<and> code \<noteq> 0 \<and>
    held [] tr = Some
      (if env_token env = None \<or> fst (gw_curl_global_init (env_curl env)) \<noteq> 0 then []
       else if env_print_mutex env \<noteq> 0 then [M_curl R_cd_mutex]
       else [M_print R_print_mutex, M_curl R_cd_mutex])"
proof (cases "env_token env")
  case None
  then show ?thesis by (simp add: main_process_def)
next
  case (Some token)
  obtain r1 pool t1 where c: "gw_curl_global_init (env_curl env) = (r1, pool, t1)" by (metis prod_cases3)
  have inj: "inj M_curl" "inj M_ring" by (simp_all add: inj_def)
  from held_embed [OF curl_init_held [OF c] inj(1), of "[]"]
  have h1: "held [] (map (map_trace_ev M_curl) t1) =
      Some (map M_curl (if r1 = 0 then [R_handles, R_cd_mutex, R_cd, R_curl] else []))" by simp
  show ?thesis
  proof (cases "r1 = 0 \<and> env_print_mutex env = 0")
    case False
    with Some c h1 show ?thesis
      by (cases "r1 = 0")
        (auto simp: main_process_def main_out_def gw_print_global_init_def curl_cleanup_release_def held_append)
  next
    case True
    obtain r3 ro t3 where ri: "gw_ring_init (env_ring env) 8192 = Some (r3, ro, t3)"
      using ring_init_8192 [of "env_ring env"] by (metis not_None_eq prod_cases3)
    with True c Some assms have r3: "r3 \<noteq> 0" by (simp add: setup_ok_def)
    from gw_ring_init_fails [OF ri r3] have "held [] t3 = Some []" by simp
    from held_embed [OF this inj(2)] have h3: "held qs (map (map_trace_ev M_ring) t3) = Some qs" for qs by simp
    from True Some c h1 h3 ri r3 show ?thesis
      by (auto simp: main_process_def main_out_def gw_print_global_init_def curl_cleanup_release_def held_append)
  qed
qed

definition no_memory_for_ring :: main_env where
  "no_memory_for_ring = \<lparr>env_token = Some ''T'',
     env_curl = \<lparr>env_curl_global_init = True, env_malloc_cd = True, env_init_mutex = 0, env_calloc_handles = True\<rparr>,
     env_print_mutex = 0,
     env_ring = \<lparr>env_calloc_sqes = False, env_calloc_cqes = True, env_init_sq_lock = 0, env_init_cq_lock = 0,
       env_init_wait_cqe_cond = 0, env_wq = sample_env\<rparr>\<rparr>"

theorem main_setup_errors_witness:
  "\<exists>code tr. main_process no_memory_for_ring (\<lambda>token r. Some (Done (0, r))) = Some (Done (code, tr)) \<and>
     code \<noteq> 0 \<and> held [] tr = Some [M_print R_print_mutex, M_curl R_cd_mutex]"
proof -
  have "\<exists>x. gw_ring_init (env_ring no_memory_for_ring) 8192 = Some (- ENOMEM, None, x)"
    using ring_init_8192 [of "env_ring no_memory_for_ring"]
    by (cases "round_up_pow2 2 8192") (simp_all add: no_memory_for_ring_def gw_ring_init_def)
  then have "\<not> setup_ok no_memory_for_ring" by (auto simp: setup_ok_def ENOMEM_def)
  from main_setup_errors [OF this, of "\<lambda>token r. Some (Done (0, r))"] show ?thesis
    by (simp add: no_memory_for_ring_def gw_curl_global_init_def)
qed

end
