(* ===== verification/BotLife.thy ===== *)
theory BotLife
  imports BotMain
begin

text \<open>
  The bot and its workers together: what \<open>gw_ring_wq_sqe_exec\<close> and \<open>gw_ring_wq_sqe_delete\<close> (core/ring.c) do
  to the bot's context, with the API call, the modules and the release of an update filled in; and the way
  of a message from the JSON that Telegram sends to the answer of the ping module.
\<close>

section \<open>The workers on the bot's context\<close>

text \<open>What the calls of a worker depend on outside the program, as in the theories TgHttp and Modules; the
  table of modules is generated by the build.\<close>

record 'j net =
  net_ch :: ptr
  net_perform :: "string \<Rightarrow> curl_data \<Rightarrow> bool \<times> curl_data"
  net_escape :: "string \<Rightarrow> string option"
  net_tok :: "char list option \<Rightarrow> nat \<Rightarrow> 'j tokener"
  net_token :: string
  net_modules :: "('j tg_update, ping_world) gw_bot_module list"

text \<open>The bot's context and the messages sent so far.\<close>

type_synonym ('j, 'r) bot_world = "('j, 'r) tg_bot_ctx \<times> tga_call_send_message list"

definition call_get_updates ::
    "('j, 'r) json_ops \<Rightarrow> 'j net \<Rightarrow> tg_api_call \<Rightarrow> ('j, 'r) tg_bot_ctx \<Rightarrow> (int \<times> ('j, 'r) tg_bot_ctx) option" where
  "call_get_updates js net call ctx =
     map_option (\<lambda>(ret, p, m, data). (ret, ctx\<lparr>ctx_mem := m, ctx_updates := p\<rparr>))
       (tgapi_call_get_updates js (net_ch net) (net_perform net) (net_tok net) (net_token net)
          (ctx_updates ctx) (call_offset call) (ctx_mem ctx))"

text \<open>The modules run on the blocks of the update memory; \<open>None\<close> is a crash of one of them.\<close>

definition send_message :: "'j net \<Rightarrow> tga_call_send_message \<Rightarrow> int" where
  "send_message net call =
     fst (tgapi_call_send_message (net_ch net) (net_ch net) (net_escape net) (net_perform net) (net_token net) call)"

definition call_module_handle ::
    "'j net \<Rightarrow> 'j tg_update \<Rightarrow> ('j, 'r) bot_world \<Rightarrow> (int \<times> ('j, 'r) bot_world) option" where
  "call_module_handle net u w =
     (let (ret, pw) = gw_module_handle (net_modules net) (update_type_bits (update_type u)) u
            \<lparr>pw_blocks = blocks (ctx_mem (fst w)), pw_sent = snd w, pw_crashed = False\<rparr>
      in if pw_crashed pw then None else Some (ret, (fst w, pw_sent pw)))"

text \<open>The call a request asks for. A crash on the way is \<open>None\<close>.\<close>

definition worker_call ::
    "('j, 'r) json_ops \<Rightarrow> 'j net \<Rightarrow> gw_ring_sqe \<Rightarrow> ('j, 'r) bot_world \<Rightarrow> (int \<times> ('j, 'r) bot_world) option" where
  "worker_call js net sqe w =
     (if sqe_op sqe = GW_RING_OP_TG_API_CALL
      then case sqe_api_call sqe of
             None \<Rightarrow> None
           | Some call \<Rightarrow>
               if call_op call = TG_API_GET_UPDATES
               then map_option (\<lambda>(ret, ctx). (ret, (ctx, snd w))) (call_get_updates js net call (fst w))
               else Some (0, w)
      else if sqe_op sqe = GW_RING_OP_MODULE_HANDLE
      then case sqe_module_handle sqe of
             None \<Rightarrow> None
           | Some h \<Rightarrow>
               (case update_at (ctx_mem (fst w)) (handle_update h) of
                  None \<Rightarrow> None
                | Some u \<Rightarrow> call_module_handle net u w)
      else Some (0, w))"

definition on_sys :: "(ring_sys \<Rightarrow> ring_sys option) \<Rightarrow> ('j, 'r) tg_bot_ctx \<Rightarrow> ('j, 'r) tg_bot_ctx option" where
  "on_sys f ctx = map_option (\<lambda>s. ctx\<lparr>ctx_io := (fst (ctx_io ctx), s)\<rparr>) (f (snd (ctx_io ctx)))"

definition ctx_datas :: "('j, 'r) tg_bot_ctx \<Rightarrow> gw_ring_sqe heap" where
  "ctx_datas ctx = datas (snd (ctx_io ctx))"

definition worker_exec ::
    "('j, 'r) json_ops \<Rightarrow> 'j net \<Rightarrow> ptr \<Rightarrow> ('j, 'r) bot_world \<Rightarrow> ('j, 'r) bot_world option" where
  "worker_exec js net d w =
     (case map_of (ctx_datas (fst w)) d of
        None \<Rightarrow> None
      | Some sqe \<Rightarrow>
          (case worker_call js net sqe w of
             None \<Rightarrow> None
           | Some (ret, (ctx, sent)) \<Rightarrow>
               map_option (\<lambda>ctx1. (ctx1, sent)) (on_sys (gw_ring_wq_sqe_exec (\<lambda>_. ret) d) ctx)))"

definition worker_delete ::
    "('j, 'r) json_ops \<Rightarrow> ptr \<Rightarrow> ('j, 'r) tg_bot_ctx \<Rightarrow> ('j, 'r) tg_bot_ctx option" where
  "worker_delete js d ctx =
     (case map_of (ctx_datas ctx) d of
        None \<Rightarrow> None
      | Some sqe \<Rightarrow>
          (case (if sqe_op sqe = GW_RING_OP_MODULE_HANDLE
                 then case sqe_module_handle sqe of
                        None \<Rightarrow> None
                      | Some h \<Rightarrow> free_update_at js (handle_update h) (ctx_mem ctx)
                 else Some (ctx_mem ctx)) of
             None \<Rightarrow> None
           | Some m \<Rightarrow> on_sys (gw_ring_wq_sqe_delete d) (ctx\<lparr>ctx_mem := m\<rparr>)))"

text \<open>One work of the pool from its start to its end, and several of them one after the other.\<close>

definition worker_item ::
    "('j, 'r) json_ops \<Rightarrow> 'j net \<Rightarrow> ptr \<Rightarrow> ('j, 'r) bot_world \<Rightarrow> ('j, 'r) bot_world option" where
  "worker_item js net d w =
     (case worker_exec js net d w of
        None \<Rightarrow> None
      | Some (ctx, sent) \<Rightarrow> map_option (\<lambda>ctx1. (ctx1, sent)) (worker_delete js d ctx))"

fun worker_items ::
    "('j, 'r) json_ops \<Rightarrow> 'j net \<Rightarrow> ptr list \<Rightarrow> ('j, 'r) bot_world \<Rightarrow> ('j, 'r) bot_world option" where
  "worker_items js net [] w = Some w"
| "worker_items js net (d # ds) w =
     (case worker_item js net d w of None \<Rightarrow> None | Some w1 \<Rightarrow> worker_items js net ds w1)"

section \<open>One request\<close>

text \<open>What Telegram's update \<open>j\<close> calls for.\<close>

definition pings_at :: "('j, 'r) json_ops \<Rightarrow> 'j \<Rightarrow> tga_call_send_message list" where
  "pings_at js j = (case js_get js j ''message'' of None \<Rightarrow> [] | Some jm \<Rightarrow> pings js jm)"

lemma ping_handle_keeps:
  assumes "ping_handle (blocks m) send u = Some r" and "keeps m m'"
  shows "ping_handle (blocks m') send u = Some r"
proof (cases "map_of (blocks m) (msg_chat (update_message u))")
  case None
  with assms(1) show ?thesis
    by (simp add: ping_handle_def ping_reply_def split: if_splits option.splits list.splits)
next
  case (Some b)
  with assms(2) have "map_of (blocks m') (msg_chat (update_message u)) = Some b" by (simp add: keeps_def)
  with Some have "ping_reply (blocks m') send (update_message u) = ping_reply (blocks m) send (update_message u)"
    by (simp add: ping_reply_def)
  with assms(1) show ?thesis unfolding ping_handle_def by (simp only:)
qed

lemma no_message:
  assumes "tgj_get_update js u0 j m0 = (0, u, m1)" and "js_get js j ''message'' = None"
  shows "update_type u = TG_UPDATE_UNKNOWN"
  using assms by (auto simp: tgj_get_update_def ENOENT_def Let_def split: option.splits)

lemma call_module_handle_parsed:
  assumes "parsed_at js j u (ctx_mem ctx)" and "net_modules net = [gw_mod_info_ping (send_message net)]"
  obtains ret where "call_module_handle net u (ctx, sent) = Some (ret, (ctx, sent @ pings_at js j))"
proof -
  obtain u0 m0 m1 where g: "tgj_get_update js u0 j m0 = (0, u, m1)" and k: "keeps m1 (ctx_mem ctx)"
    using assms(1) by (auto simp: parsed_at_def)
  show ?thesis
  proof (cases "js_get js j ''message''")
    case None
    from no_message [OF g None] show ?thesis
      by (intro that [of 0]) (simp add: call_module_handle_def assms(2) pings_at_def None update_type_bits_def
        gw_mod_info_ping_def)
  next
    case (Some jm)
    then have ty: "update_type u = TG_UPDATE_MESSAGE"
      using g by (auto simp: tgj_get_update_def ENOENT_def Let_def split: option.splits prod.splits)
    obtain ret where h: "ping_handle (blocks (ctx_mem ctx)) (send_message net) u = Some (ret, pings js jm)"
      using ping_handle_keeps [OF ping_handle_parsed [OF g Some, of "send_message net"] k]
      by (auto split: list.splits)
    show ?thesis
      by (rule that [of ret]) (simp add: call_module_handle_def assms(2) gw_mod_info_ping_def
        update_type_bits_def ty h pings_at_def Some)
  qed
qed

lemma update_at_addr:
  assumes "map_of (arrays m) p = Some \<lparr>updates_len = n, updates_arr = us\<rparr>" and "i < length us" and "i < 2 ^ 32"
  shows "update_at m (update_addr p (of_nat i)) = Some (us ! i)"
proof -
  have "unat (of_nat i :: u32) = i" using assms(3) by (simp add: unat_of_nat)
  then show ?thesis using assms by (simp add: update_at_def update_addr_def)
qed

lemma free_unparsed_update:
  assumes "update_at m a = Some u" and "update_json u = js_null js"
  shows "free_update_at js a m = Some m"
proof -
  obtain ups where ups: "map_of (arrays m) (a div 2 ^ 32) = Some ups" and u: "updates_arr ups ! (a mod 2 ^ 32) = u"
    and i: "a mod 2 ^ 32 < length (updates_arr ups)"
    using assms(1) by (auto simp: update_at_def split: option.splits if_splits)
  have "ups\<lparr>updates_arr := (updates_arr ups)[a mod 2 ^ 32 := u]\<rparr> = ups" using u by (metis list_update_id tg_updates.surjective tg_updates.update_convs(2))
  with ups have "store_update a u m = m" by (simp add: store_update_def update_triv)
  with assms show ?thesis by (simp add: free_update_at_def tgapi_free_update_def)
qed

lemma handle_request_fields [simp]:
  "sqe_op (handle_request up) = GW_RING_OP_MODULE_HANDLE"
  "sqe_union (handle_request up) = U_tg_module_handle \<lparr>handle_ctx = CTX, handle_update = up\<rparr>"
  and poll_request_fields [simp]: "sqe_op (poll_request k) = GW_RING_OP_TG_API_CALL"
  "sqe_union (poll_request k) = U_tg_api_call \<lparr>call_op = TG_API_GET_UPDATES, call_ctx = CTX_TCTX,
       updates_p = CTX_UPDATES, call_offset = k\<rparr>"
  by (simp_all add: handle_request_def poll_request_def)

lemma on_sys_simps [simp]:
  "on_sys f ctx = Some ctx' \<Longrightarrow> ctx_mem ctx' = ctx_mem ctx"
  "on_sys f ctx = Some ctx' \<Longrightarrow> ctx_updates ctx' = ctx_updates ctx"
  "on_sys f ctx = Some ctx' \<Longrightarrow> ctx_max_update_id ctx' = ctx_max_update_id ctx"
  by (auto simp: on_sys_def)

lemma ctx_datas_simps [simp]:
  "ctx_datas (ctx\<lparr>ctx_mem := m\<rparr>) = ctx_datas ctx" "ctx_datas (ctx\<lparr>ctx_updates := p\<rparr>) = ctx_datas ctx"
  "ctx_datas (ctx\<lparr>ctx_io := io\<rparr>) = datas (snd io)"
  by (simp_all add: ctx_datas_def)

text \<open>A request that is executed and deleted, with the update memory \<open>m\<close> after the deletion: the ring has the
  completion, and the block of the request is gone.\<close>

definition after_item :: "gw_ring_sqe \<Rightarrow> int \<Rightarrow> ptr \<Rightarrow> ('j, 'r) tg_bot_ctx \<Rightarrow> ('j, 'r) tg_bot_ctx \<Rightarrow> bool" where
  "after_item sqe ret d ctx ctx' =
     (ctx_mem ctx' = ctx_mem ctx \<and> ctx_updates ctx' = ctx_updates ctx \<and>
      ctx_max_update_id ctx' = ctx_max_update_id ctx \<and> fst (ctx_io ctx') = fst (ctx_io ctx) \<and>
      map_of (ctx_datas ctx') = (map_of (ctx_datas ctx))(d := None) \<and>
      ctx_ring ctx' = fst (snd (post_cqe sqe (word_of_int ret) (ctx_ring ctx))))"

lemma post_in_fields:
  "datas (snd (post_in sqe res s)) = datas s"
  "ring (snd (post_in sqe res s)) = fst (snd (post_cqe sqe res (ring s)))"
  by (simp_all add: post_in_def split: prod.splits)

lemma worker_item_handle:
  assumes d: "map_of (ctx_datas ctx) d = Some (handle_request a)"
    and u: "update_at (ctx_mem ctx) a = Some u" "update_json u = js_null js" "parsed_at js j u (ctx_mem ctx)"
    and mods: "net_modules net = [gw_mod_info_ping (send_message net)]"
  obtains ret ctx' where "worker_item js net d (ctx, sent) = Some (ctx', sent @ pings_at js j)"
    and "after_item (handle_request a) ret d ctx ctx'"
proof -
  let ?s = "snd (ctx_io ctx)" and ?h = "handle_request a"
  obtain ret where c: "call_module_handle net u (ctx, sent) = Some (ret, (ctx, sent @ pings_at js j))"
    by (rule call_module_handle_parsed [OF u(3) mods])
  let ?s1 = "snd (post_in ?h (word_of_int ret) ?s)"
  let ?s2 = "?s1\<lparr>freed_updates := freed_updates ?s1 @ [a], datas := heap_free d (datas ?s1)\<rparr>"
  have dd: "map_of (datas ?s) d = Some ?h" using d by (simp add: ctx_datas_def)
  have "gw_ring_wq_sqe_exec (\<lambda>_. ret) d ?s = Some ?s1"
    by (simp add: gw_ring_wq_sqe_exec_def dd exec_module_handle_def ring_op_defs)
  then have e: "worker_exec js net d (ctx, sent) = Some (ctx\<lparr>ctx_io := (fst (ctx_io ctx), ?s1)\<rparr>, sent @ pings_at js j)"
    using d u(1) c by (simp add: worker_exec_def worker_call_def on_sys_def ring_op_defs)
  have "gw_ring_wq_sqe_delete d ?s1 = Some ?s2"
    by (simp add: gw_ring_wq_sqe_delete_def post_in_fields dd free_sqe_update_def)
  then have "worker_delete js d (ctx\<lparr>ctx_io := (fst (ctx_io ctx), ?s1)\<rparr>) = Some (ctx\<lparr>ctx_io := (fst (ctx_io ctx), ?s2)\<rparr>)"
    using free_unparsed_update [OF u(1,2)]
    by (simp add: worker_delete_def post_in_fields dd on_sys_def)
  with e have "worker_item js net d (ctx, sent) = Some (ctx\<lparr>ctx_io := (fst (ctx_io ctx), ?s2)\<rparr>, sent @ pings_at js j)"
    by (simp add: worker_item_def)
  moreover have "map_of (heap_free d (datas ?s)) = (map_of (datas ?s))(d := None)" by auto
  then have "after_item ?h ret d ctx (ctx\<lparr>ctx_io := (fst (ctx_io ctx), ?s2)\<rparr>)"
    by (simp add: after_item_def post_in_fields ctx_datas_def ctx_ring_def)
  ultimately show ?thesis using that by blast
qed

section \<open>The requests of a batch\<close>

text \<open>The array of \<open>n\<close> updates at \<open>p\<close> holds what was parsed from the elements of \<open>result\<close>.\<close>

definition batch_parsed :: "('j, 'r) json_ops \<Rightarrow> 'j \<Rightarrow> ptr \<Rightarrow> 'j tg_update list \<Rightarrow> ('j, 'r) tg_mem \<Rightarrow> bool" where
  "batch_parsed js result p us m =
     (map_of (arrays m) p = Some \<lparr>updates_len = length us, updates_arr = us\<rparr> \<and> length us < 2 ^ 32 \<and>
      (\<forall>i < length us. parsed_at js (js_idx js result i) (us ! i) m \<and> update_json (us ! i) = js_null js))"

text \<open>The workers take the requests for the updates \<open>ks\<close>, in any order, from the blocks \<open>f k\<close>.\<close>

lemma worker_items_batch:
  assumes "batch_parsed js result p us (ctx_mem ctx)"
    and "net_modules net = [gw_mod_info_ping (send_message net)]"
    and "distinct ks" and "inj_on f {..<length us}" and "set ks \<subseteq> {..<length us}"
    and "\<forall>k \<in> set ks. map_of (ctx_datas ctx) (f k) = Some (handle_request (update_addr p (of_nat k)))"
  shows "\<exists>ctx'. worker_items js net (map f ks) (ctx, sent) =
      Some (ctx', sent @ concat (map (\<lambda>k. pings_at js (js_idx js result k)) ks)) \<and> ctx_mem ctx' = ctx_mem ctx"
  using assms
proof (induction ks arbitrary: ctx sent)
  case (Cons k ks)
  have k: "k < length us" and ks: "set ks \<subseteq> {..<length us}" "distinct ks" "k \<notin> set ks" using Cons.prems by simp_all
  from Cons.prems(1) k have p: "map_of (arrays (ctx_mem ctx)) p = Some \<lparr>updates_len = length us, updates_arr = us\<rparr>"
    and k32: "k < 2 ^ 32" and pk: "parsed_at js (js_idx js result k) (us ! k) (ctx_mem ctx)"
    and nk: "update_json (us ! k) = js_null js" by (auto simp: batch_parsed_def)
  have d: "map_of (ctx_datas ctx) (f k) = Some (handle_request (update_addr p (of_nat k)))" using Cons.prems(6) by simp
  obtain ret ctx1 where item: "worker_item js net (f k) (ctx, sent) = Some (ctx1, sent @ pings_at js (js_idx js result k))"
    and after: "after_item (handle_request (update_addr p (of_nat k))) ret (f k) ctx ctx1"
    by (rule worker_item_handle [OF d update_at_addr [OF p k k32] nk pk Cons.prems(2), of sent])
  from after have mem: "ctx_mem ctx1 = ctx_mem ctx"
    and dat: "map_of (ctx_datas ctx1) = (map_of (ctx_datas ctx))(f k := None)" by (simp_all add: after_item_def)
  have ne: "f k' \<noteq> f k" if "k' \<in> set ks" for k'
    using that ks(1,3) k inj_onD [OF Cons.prems(4), of k' k] by blast
  have rest: "\<forall>k' \<in> set ks. map_of (ctx_datas ctx1) (f k') = Some (handle_request (update_addr p (of_nat k')))"
    using Cons.prems(6) ne by (simp add: dat)
  from Cons.IH [OF Cons.prems(1) [folded mem] Cons.prems(2) ks(2) Cons.prems(4) ks(1) rest,
    of "sent @ pings_at js (js_idx js result k)"] item mem
  show ?case by simp
qed simp

section \<open>The poll\<close>

text \<open>Telegram's answer to the poll from offset \<open>k\<close> is the list \<open>result\<close>, and all of its elements parse.\<close>

definition answers :: "('j, 'r) json_ops \<Rightarrow> 'j net \<Rightarrow> i64 \<Rightarrow> 'j \<Rightarrow> bool" where
  "answers js net k result =
     (net_ch net \<noteq> NULL \<and>
      (case net_perform net (get_updates_url (net_token net) k) zero_curl_data of
         (ok, data) \<Rightarrow> ok \<and>
           (case parse_json (net_tok net (cd_data data) (unat (cd_len data + 1))) of
              Some (ret, Some jobj) \<Rightarrow> ret = 0 \<and> js_get js jobj ''result'' = Some result
            | _ \<Rightarrow> False)) \<and>
      js_length js result < 2 ^ 32 \<and>
      (\<forall>i < js_length js result. js_idx js result i \<noteq> js_null js \<and> update_parses js (js_idx js result i)))"

lemma call_get_updates_answer:
  assumes "answers js net (call_offset call) result" and "tg_mallocs (ctx_mem ctx) = []"
  obtains p m us where "call_get_updates js net call ctx = Some (0, ctx\<lparr>ctx_mem := m, ctx_updates := p\<rparr>)"
    and "p \<noteq> NULL" and "length us = js_length js result" and "batch_parsed js result p us m"
proof -
  let ?n = "js_length js result" and ?mx = "2 ^ 64 - 1 :: nat"
  obtain data jobj where net: "net_ch net \<noteq> NULL"
    "net_perform net (get_updates_url (net_token net) (call_offset call)) zero_curl_data = (True, data)"
    and pj: "parse_json (net_tok net (cd_data data) (unat (cd_len data + 1))) = Some (0, Some jobj)"
    and res: "js_get js jobj ''result'' = Some result"
    using assms(1) by (auto simp: answers_def split: prod.splits option.splits)
  have n: "?n < 2 ^ 32" and el: "\<forall>i < ?n. js_idx js result i \<noteq> js_null js \<and> update_parses js (js_idx js result i)"
    using assms(1) by (simp_all add: answers_def)
  from n have "?n = min ?n ?mx" by simp
  from parse_updates_all [OF pj res assms(2) this el, of "ctx_updates ctx"] obtain p m us where
    call: "tgapi_parse_updates_len_max js (net_tok net (cd_data data) (unat (cd_len data + 1))) ?mx (ctx_updates ctx)
        (ctx_mem ctx) = Some (0, p, m)"
    and p: "p \<noteq> NULL" "map_of (arrays m) p = Some \<lparr>updates_len = ?n, updates_arr = us\<rparr>" "length us = ?n"
    and us: "\<forall>i < ?n. parsed_at js (js_idx js result i) (us ! i) m" "\<forall>u \<in> set us. update_json u = js_null js" .
  have "call_get_updates js net call ctx = Some (0, ctx\<lparr>ctx_mem := m, ctx_updates := p\<rparr>)"
    using net call
    by (simp add: call_get_updates_def tgapi_call_get_updates_def curl_http_get_def tgapi_parse_updates_len_def)
  moreover have "batch_parsed js result p us m" using p us n by (simp add: batch_parsed_def)
  ultimately show ?thesis using p that by blast
qed

text \<open>The call for updates on a poll's block, whatever it returns.\<close>

lemma worker_exec_poll:
  assumes d: "map_of (ctx_datas ctx) d = Some (poll_request k)"
    and c: "call_get_updates js net \<lparr>call_op = TG_API_GET_UPDATES, call_ctx = CTX_TCTX, updates_p = CTX_UPDATES,
      call_offset = k\<rparr> ctx = Some (ret, ctx\<lparr>ctx_mem := m, ctx_updates := p\<rparr>)"
  shows "worker_exec js net d (ctx, sent) = Some (ctx\<lparr>ctx_mem := m, ctx_updates := p,
    ctx_io := (fst (ctx_io ctx), snd (post_in (poll_request k) (word_of_int ret) (snd (ctx_io ctx))))\<rparr>, sent)"
proof -
  have "map_of (datas (snd (ctx_io ctx))) d = Some (poll_request k)" using d by (simp add: ctx_datas_def)
  then have "gw_ring_wq_sqe_exec (\<lambda>_. ret) d (snd (ctx_io ctx)) =
      Some (snd (post_in (poll_request k) (word_of_int ret) (snd (ctx_io ctx))))"
    by (simp add: gw_ring_wq_sqe_exec_def exec_tg_api_call_def ring_op_defs)
  then show ?thesis
    using d c by (simp add: worker_exec_def worker_call_def on_sys_def ring_op_defs)
qed

lemma worker_item_poll:
  assumes d: "map_of (ctx_datas ctx) d = Some (poll_request k)"
    and "answers js net k result" and "tg_mallocs (ctx_mem ctx) = []"
  obtains p m us ctx' where "worker_item js net d (ctx, sent) = Some (ctx', sent)"
    and "after_item (poll_request k) 0 d (ctx\<lparr>ctx_mem := m, ctx_updates := p\<rparr>) ctx'"
    and "p \<noteq> NULL" and "length us = js_length js result" and "batch_parsed js result p us m"
proof -
  let ?s = "snd (ctx_io ctx)" and ?h = "poll_request k"
  let ?call = "\<lparr>call_op = TG_API_GET_UPDATES, call_ctx = CTX_TCTX, updates_p = CTX_UPDATES, call_offset = k\<rparr>"
  have "answers js net (call_offset ?call) result" using assms(2) by simp
  from call_get_updates_answer [OF this assms(3)] obtain p m us where
    c: "call_get_updates js net ?call ctx = Some (0, ctx\<lparr>ctx_mem := m, ctx_updates := p\<rparr>)"
    and p: "p \<noteq> NULL" "length us = js_length js result" "batch_parsed js result p us m" .
  let ?c = "ctx\<lparr>ctx_mem := m, ctx_updates := p\<rparr>"
  let ?s1 = "snd (post_in ?h 0 ?s)"
  let ?s2 = "?s1\<lparr>datas := heap_free d (datas ?s1)\<rparr>"
  have dd: "map_of (datas ?s) d = Some ?h" using d by (simp add: ctx_datas_def)
  have e: "worker_exec js net d (ctx, sent) = Some (?c\<lparr>ctx_io := (fst (ctx_io ctx), ?s1)\<rparr>, sent)"
    using worker_exec_poll [OF d c, of sent] by simp
  have "gw_ring_wq_sqe_delete d ?s1 = Some ?s2"
    by (simp add: gw_ring_wq_sqe_delete_def post_in_fields dd ring_op_defs)
  then have "worker_delete js d (?c\<lparr>ctx_io := (fst (ctx_io ctx), ?s1)\<rparr>) = Some (?c\<lparr>ctx_io := (fst (ctx_io ctx), ?s2)\<rparr>)"
    by (simp add: worker_delete_def post_in_fields dd on_sys_def ring_op_defs)
  with e have "worker_item js net d (ctx, sent) = Some (?c\<lparr>ctx_io := (fst (ctx_io ctx), ?s2)\<rparr>, sent)"
    by (simp add: worker_item_def)
  moreover have "map_of (heap_free d (datas ?s)) = (map_of (datas ?s))(d := None)" by auto
  then have "after_item ?h 0 d ?c (?c\<lparr>ctx_io := (fst (ctx_io ctx), ?s2)\<rparr>)"
    by (simp add: after_item_def post_in_fields ctx_datas_def ctx_ring_def)
  ultimately show ?thesis using p that by blast
qed

section \<open>From the answer of Telegram to the answers of the bot\<close>

lemma batch_parsed_noted:
  assumes "batch_parsed js result p us m"
  shows "batch_parsed js result p us (fold (tgapi_inc_ref_update js) vs m)"
proof -
  have fr: "arrays (fold (tgapi_inc_ref_update js) vs m) = arrays m" "blocks (fold (tgapi_inc_ref_update js) vs m) = blocks m"
    by (induction vs arbitrary: m) simp_all
  then show ?thesis using assms keeps_same [OF fr(2)] by (auto simp: batch_parsed_def intro: parsed_at_keeps)
qed

lemma pushes_sq_frame [simp]:
  "ring_wq (pushes sq_push xs r) = ring_wq r" "ring_should_stop (pushes sq_push xs r) = ring_should_stop r"
  by (induction xs arbitrary: r) (simp_all add: sq_push_def)

lemma polled_frame:
  "fst (ctx_io (polled js us ctx)) = fst (ctx_io ctx)" "ctx_datas (polled js us ctx) = ctx_datas ctx"
  "ctx_mem (polled js us ctx) = fold (tgapi_inc_ref_update js) us (ctx_mem ctx)"
  "ctx_ring (polled js us ctx) = pushes sq_push (batch_requests us ctx) (ctx_ring ctx)"
  by (simp_all add: polled_def noted_def on_ring_def ctx_datas_def ctx_ring_def)

lemma advance_frame [simp]:
  "ring_wq (gw_ring_cq_advance i r) = ring_wq r" "ring_should_stop (gw_ring_cq_advance i r) = ring_should_stop r"
  "ctx_datas (on_ring f ctx) = ctx_datas ctx"
  by (simp_all add: gw_ring_cq_advance_def ctx_datas_def on_ring_def)

lemma batch_requests_punted: "\<forall>sqe \<in> set (batch_requests us ctx). is_punted sqe"
  by (auto simp: batch_requests_def handle_requests_def is_punted_def)

lemma batch_requests_nth:
  "k < length us \<Longrightarrow> batch_requests us ctx ! k = handle_request (update_addr (ctx_updates ctx) (of_nat k))"
  by (simp add: batch_requests_def handle_requests_def nth_append)

text \<open>A bot that waits for its poll, with room for \<open>n\<close> updates, and memory that does not run out.\<close>

definition idle_bot :: "nat \<Rightarrow> ('j, 'r) tg_bot_ctx \<Rightarrow> bool" where
  "idle_bot n ctx =
     (cq_ok (ctx_ring ctx) \<and> cq_contents (ctx_ring ctx) = [] \<and> unat (cq_tail (ctx_ring ctx)) < 2 ^ 32 - 1 \<and>
      sq_contents (ctx_ring ctx) = [] \<and> sq_room (Suc n) (ctx_ring ctx) \<and> \<not> ring_should_stop (ctx_ring ctx) \<and>
      wq_room (Suc n) (ring_wq (ctx_ring ctx)) \<and> locked_env (fst (ctx_io ctx)) \<and>
      io_mallocs (fst (ctx_io ctx)) = [] \<and> tg_mallocs (ctx_mem ctx) = [])"

lemma post_cqe_empty:
  assumes "cq_ok r" and "cq_contents r = []"
  shows "fst (snd (post_cqe sqe res r)) = cq_push (cqe_of sqe res) r"
proof -
  have "unat (cq_tail r - cq_head r) < length (cqes r)" "cq_unwrapped r"
    using assms by (auto simp: cq_contents_Nil_iff cq_ok_def cq_unwrapped_def dest: circ_ok_length)
  then show ?thesis by (simp add: post_cqe_cases [OF assms(1)])
qed

text \<open>One pass of the main thread after the completion of the poll, and the submission of what it leaves.\<close>

lemma pass_and_submit:
  assumes idle: "idle_bot (length us) ctx"
    and ring: "ctx_ring ctx1 = cq_push (cqe_of (poll_request k) 0) (ctx_ring ctx)"
    and io: "fst (ctx_io ctx1) = fst (ctx_io ctx)"
    and p: "ctx_updates ctx1 = p" "p \<noteq> NULL"
    and arr: "map_of (arrays (ctx_mem ctx1)) p = Some \<lparr>updates_len = length us, updates_arr = us\<rparr>"
  obtains ctx2 s ds where "run_tg_bot_loop js others ctx1 = Some (Done (0, others, ctx2))"
    and "gw_ring_submit (ctx_io ctx2) = Some (int (length us) + 1, (fst (ctx_io ctx), s))"
    and "punted (batch_requests us ctx1) ds (snd (ctx_io ctx2)) s"
    and "ring_wq (ctx_ring ctx2) = ring_wq (ctx_ring ctx)"
    and "ctx_mem ctx2 = fold (tgapi_inc_ref_update js) us (ctx_mem ctx1)"
proof -
  let ?r = "ctx_ring ctx" and ?c = "cqe_of (poll_request k) 0"
  have r: "cq_ok ?r" "cq_contents ?r = []" "unat (cq_tail ?r) < 2 ^ 32 - 1" "sq_contents ?r = []"
      "sq_room (Suc (length us)) ?r" "\<not> ring_should_stop ?r" "wq_room (Suc (length us)) (ring_wq ?r)"
      "locked_env (fst (ctx_io ctx))" "io_mallocs (fst (ctx_io ctx)) = []"
    using idle by (simp_all add: idle_bot_def)
  have "cq_unwrapped ?r" using r(2) by (simp add: cq_unwrapped_def cq_contents_Nil_iff)
  note unw = cq_unwrapped_push(1) [OF this r(3), of ?c]
  have "unat (cq_tail ?r - cq_head ?r) < length (cqes ?r)"
    using r(1,2) by (auto simp: cq_contents_Nil_iff cq_ok_def dest: circ_ok_length)
  from cq_push_ok [OF r(1) this, of ?c] r(2) have c: "cq_contents (ctx_ring ctx1) = [] @ ?c # []"
    by (simp add: ring)
  have 1: "sq_contents (ctx_ring ctx1) = []" "\<not> ring_should_stop (ctx_ring ctx1)" "cq_unwrapped (ctx_ring ctx1)"
      "length (cq_contents (ctx_ring ctx1)) < 2 ^ 31"
    unfolding c using r(4,6) unw ring_frames(1) [of ?c ?r] by (simp_all add: ring cq_push_def)
  have room: "sq_room (Suc (length us)) (ctx_ring ctx1)"
    using r(5) by (simp add: sq_room_def ring) (simp add: cq_push_def)
  have poll: "is_poll ?c" "poll_res ?c = 0"
    by (simp_all add: is_poll_def poll_res_def cqe_of_def poll_request_def)
  have "batch (poll_res ?c) ctx1 us" using p arr poll(2) by (simp add: batch_def)
  from bot_pass_run [OF 1 c poll(1) _ _ this room, of js others] poll(2) obtain ctx2 where
    pass: "run_tg_bot_loop js others ctx1 = Some (Done (0, others, ctx2))"
    and sq: "sq_contents (ctx_ring ctx2) = batch_requests us ctx1"
    and ctx2: "ctx2 = on_ring (gw_ring_cq_advance (of_nat (length ([] @ ?c # [])))) (polled js us ctx1)" by auto
  have wq: "ring_wq (ctx_ring ctx2) = ring_wq ?r" "\<not> ring_should_stop (ctx_ring ctx2)"
      "fst (ctx_io ctx2) = fst (ctx_io ctx)" and mem: "ctx_mem ctx2 = fold (tgapi_inc_ref_update js) us (ctx_mem ctx1)"
    using 1(2) by (simp_all add: ctx2 polled_frame ring io)
  have r2: "ring (snd (ctx_io ctx2)) = ctx_ring ctx2" by (simp add: ctx_ring_def)
  have "wq_room (length (sq_contents (ctx_ring ctx2))) (ring_wq (ctx_ring ctx2))"
    unfolding sq wq(1) using r(7) by simp
  from submit_punts [of "snd (ctx_io ctx2)" "fst (ctx_io ctx2)", unfolded r2 wq(3), OF wq(2) r(8,9) _ this]
    batch_requests_punted [of us ctx1]
  obtain s ds where "gw_ring_submit (fst (ctx_io ctx), snd (ctx_io ctx2)) =
      Some (int (length us) + 1, (fst (ctx_io ctx), s))" "punted (batch_requests us ctx1) ds (snd (ctx_io ctx2)) s"
    by (auto simp: sq add.commute simp del: length_sq_contents)
  moreover have "ctx_io ctx2 = (fst (ctx_io ctx), snd (ctx_io ctx2))" using wq(3) by (metis prod.collapse)
  ultimately show ?thesis using pass wq(1) mem that by metis
qed

text \<open>
  C2: the way of a batch of updates through the whole program, with nobody stopping it and room for them.
  A worker finishes the poll, whose answer is a list of \<open>n\<close> updates that parse; one pass of the main loop and the
  submission after it leave \<open>n + 1\<close> works in the pool (the updates, and the next poll). In whatever order the
  workers take works of the updates, the messages sent are the answers to exactly these updates, in that order: one
  \<open>Pong!\<close> for each ping, none for anything else, and no worker crashes.
\<close>

theorem every_ping_answered:
  assumes "map_of (ctx_datas ctx) d = Some (poll_request k)" and "answers js net k result"
    and "n = js_length js result" and "idle_bot n ctx" and "net_modules net = [gw_mod_info_ping (send_message net)]"
  shows "\<exists>ctx1 ctx2 env s ds. worker_item js net d (ctx, sent) = Some (ctx1, sent) \<and>
    run_tg_bot_loop js others ctx1 = Some (Done (0, others, ctx2)) \<and>
    gw_ring_submit (ctx_io ctx2) = Some (int n + 1, (env, s)) \<and> length ds = n + 1 \<and>
    wq_contents (ring_wq (ring s)) = wq_contents (ring_wq (ctx_ring ctx)) @ map punted_work ds \<and>
    (\<forall>ks. distinct ks \<and> set ks \<subseteq> {..<n} \<longrightarrow>
      (\<exists>ctx'. worker_items js net (map ((!) ds) ks) (ctx2\<lparr>ctx_io := (env, s)\<rparr>, sent) =
         Some (ctx', sent @ concat (map (\<lambda>k. pings_at js (js_idx js result k)) ks))))"
proof -
  have "tg_mallocs (ctx_mem ctx) = []" using assms(4) by (simp add: idle_bot_def)
  from worker_item_poll [OF assms(1,2) this, of sent] obtain p m us ctx1 where
    item: "worker_item js net d (ctx, sent) = Some (ctx1, sent)"
    and after: "after_item (poll_request k) 0 d (ctx\<lparr>ctx_mem := m, ctx_updates := p\<rparr>) ctx1"
    and p: "p \<noteq> NULL" "length us = n" and b: "batch_parsed js result p us m" unfolding assms(3) .
  have ring: "ctx_ring ctx1 = cq_push (cqe_of (poll_request k) 0) (ctx_ring ctx)"
    using after post_cqe_empty [of "ctx_ring ctx" "poll_request k" 0] assms(4) by (simp add: after_item_def idle_bot_def)
  have c1: "fst (ctx_io ctx1) = fst (ctx_io ctx)" "ctx_updates ctx1 = p" "ctx_mem ctx1 = m"
    using after by (simp_all add: after_item_def)
  have arr: "map_of (arrays (ctx_mem ctx1)) p = Some \<lparr>updates_len = length us, updates_arr = us\<rparr>"
    using b by (simp add: batch_parsed_def c1(3))
  obtain ctx2 s ds where pass: "run_tg_bot_loop js others ctx1 = Some (Done (0, others, ctx2))"
    and sub: "gw_ring_submit (ctx_io ctx2) = Some (int (length us) + 1, (fst (ctx_io ctx), s))"
    and pt: "punted (batch_requests us ctx1) ds (snd (ctx_io ctx2)) s"
    and wq: "ring_wq (ctx_ring ctx2) = ring_wq (ctx_ring ctx)"
    and mem: "ctx_mem ctx2 = fold (tgapi_inc_ref_update js) us (ctx_mem ctx1)"
    by (rule pass_and_submit [OF assms(4) [folded p(2)] ring c1(1,2) p(1) arr])
  let ?c = "ctx2\<lparr>ctx_io := (fst (ctx_io ctx), s)\<rparr>"
  have len: "length ds = n + 1" "distinct ds" using pt p(2) by (simp_all add: punted_def)
  have at: "map_of (ctx_datas ?c) (ds ! k) = Some (handle_request (update_addr p (of_nat k)))" if "k < length us" for k
    using that pt c1(2) by (simp add: punted_def map_add_Some_iff map_of_zip_nth batch_requests_nth p(2))
  have bp: "batch_parsed js result p us (ctx_mem ?c)" using batch_parsed_noted [OF b, of us] by (simp add: mem c1(3))
  have inj: "inj_on ((!) ds) {..<length us}" using len p(2) by (simp add: inj_on_nth)
  have "\<exists>ctx'. worker_items js net (map ((!) ds) ks) (?c, sent) =
      Some (ctx', sent @ concat (map (\<lambda>k. pings_at js (js_idx js result k)) ks))"
    if "distinct ks \<and> set ks \<subseteq> {..<n}" for ks
    using worker_items_batch [OF bp assms(5) _ inj, of ks sent] that at p(2) by (auto simp: subset_iff)
  moreover have "wq_contents (ring_wq (ring s)) = wq_contents (ring_wq (ctx_ring ctx)) @ map punted_work ds"
    using pt wq by (simp add: punted_def ctx_ring_def)
  ultimately show ?thesis using item pass sub len(1) p(2) by blast
qed

definition sample_net :: "json \<Rightarrow> json net" where
  "sample_net j =
     (let net = \<lparr>net_ch = 1, net_perform = (\<lambda>url d. (True, d)), net_escape = Some, net_tok = (\<lambda>s n. tok_once j),
        net_token = ''T'', net_modules = []\<rparr>
      in net\<lparr>net_modules := [gw_mod_info_ping (send_message net)]\<rparr>)"

lemma send_message_modules [simp]: "send_message (net\<lparr>net_modules := mods\<rparr>) = send_message net"
  by (rule ext) (simp add: send_message_def)

lemma sample_net_fields:
  "net_ch (sample_net j) = 1" "net_perform (sample_net j) = (\<lambda>url d. (True, d))"
  "net_tok (sample_net j) = (\<lambda>s n. tok_once j)"
  "net_modules (sample_net j) = [gw_mod_info_ping (send_message (sample_net j))]"
  unfolding sample_net_def Let_def send_message_modules by simp_all

definition polling_ctx :: "(json, nat) tg_bot_ctx" where
  "polling_ctx = (sample_ctx sample_ring sample_mem)
     \<lparr>ctx_io := (quiet_env, (fresh_sys sample_ring)\<lparr>datas := [(1, poll_request 7)]\<rparr>)\<rparr>"

lemma polling_ctx_idle: "idle_bot 1 polling_ctx"
proof -
  have r: "ctx_ring polling_ctx = sample_ring" "fst (ctx_io polling_ctx) = quiet_env" "ctx_mem polling_ctx = sample_mem"
    by (simp_all add: polling_ctx_def fresh_sys_def)
  have "cq_ok sample_ring" using sample_ring_ok by (simp add: ring_ok_def)
  moreover have "wq_room (Suc 1) sample_wq" using sample_wq_room by (simp add: numeral_2_eq_2)
  moreover have "sq_room (Suc 1) sample_ring" using sample_ring_room by simp
  ultimately show ?thesis unfolding idle_bot_def r by (simp add: quiet_env_def sample_mem_def locked_env_def)
qed

theorem every_ping_answered_witness:
  "\<exists>ctx1 ctx2 env s ds ctx'. let net = sample_net (J_obj [(''result'', J_arr [sample_update 7 ''!ping''])]) in
     worker_item sample_js net 1 (polling_ctx, []) = Some (ctx1, []) \<and>
     run_tg_bot_loop sample_js [] ctx1 = Some (Done (0, [], ctx2)) \<and>
     gw_ring_submit (ctx_io ctx2) = Some (2, (env, s)) \<and>
     worker_items sample_js net [ds ! 0] (ctx2\<lparr>ctx_io := (env, s)\<rparr>, []) =
       Some (ctx', [\<lparr>call_chat_id = - 3, call_text = ''Pong!'', call_reply_to = 5\<rparr>])"
proof -
  let ?r = "J_arr [sample_update 7 ''!ping'']" and ?k = "7 :: i64"
  let ?net = "sample_net (J_obj [(''result'', ?r)])"
  have d: "map_of (ctx_datas polling_ctx) 1 = Some (poll_request ?k)"
    by (simp add: polling_ctx_def)
  have len: "1 = js_length sample_js ?r" and get: "js_get sample_js (J_obj [(''result'', ?r)]) ''result'' = Some ?r"
    and idx: "js_idx sample_js ?r 0 = sample_update 7 ''!ping''" "js_null sample_js = J_null"
    by (simp_all add: sample_js_def)
  have nn: "sample_update 7 ''!ping'' \<noteq> J_null" by (simp add: sample_update_def)
  have parses: "update_parses sample_js (sample_update 7 ''!ping'')" by code_simp
  note net = sample_net_fields [of "J_obj [(''result'', ?r)]"]
  have ans: "answers sample_js ?net ?k ?r"
    unfolding answers_def net len [symmetric] using parses idx get nn by simp
  have ping: "pings_at sample_js (sample_update 7 ''!ping'') =
      [\<lparr>call_chat_id = - 3, call_text = ''Pong!'', call_reply_to = 5\<rparr>]"
    by code_simp
  from every_ping_answered [OF d ans len polling_ctx_idle net(4), of "[]" "[]"] show ?thesis
    by (fastforce simp: Let_def idx ping dest: spec [of _ "[0]"])
qed

end
