(* ===== verification/GwThread.thy ===== *)
theory GwThread
  imports GwPrelude
begin

text \<open>
  core/thread.cc with CONFIG_CPP_THREAD: threads, mutexes and condition variables on top of the C++
  standard library. The variant without it is in the theory GwPthread. The library's
  objects are modelled as the standard describes them: a \<open>std::mutex\<close> knows its owner, a
  \<open>std::unique_lock\<close> knows whether it owns its mutex, and \<open>wait\<close> unlocks the lock, sleeps, and locks it again.
\<close>

section \<open>Objects\<close>

type_synonym tid = nat

text \<open>\<open>mutex_struct\<close>: the owner of the mutex, and the pointer to a lock on the C++ heap.\<close>

record mutex_struct =
  owner :: "tid option"
  ulock :: ptr

record unique_lock =
  lock_mutex :: ptr
  owns :: bool

text \<open>\<open>sleepers\<close>: the threads asleep in \<open>wait\<close>, with the condition variable and the lock. \<open>thread_struct\<close>: whether the \<open>std::thread\<close> is still joinable, and what its function returned.\<close>

record thread_struct =
  joinable :: bool
  thread_ret :: "ptr option"

record thread_mem =
  mutexes :: "mutex_struct heap"
  ulocks :: "unique_lock heap"
  conds :: "unit heap"
  sleepers :: "(ptr \<times> ptr) heap"
  thread_structs :: "thread_struct heap"

text \<open>A call ends, or waits for another thread, or the program is terminated by an exception nobody
  catches, or the standard leaves it undefined.\<close>

datatype 'a call_result = Returns 'a | Blocks | Terminates | Undefined

definition heap_put :: "ptr \<Rightarrow> 'a \<Rightarrow> 'a heap \<Rightarrow> 'a heap" where
  "heap_put p x h = (p, x) # heap_free p h"

lemma heap_put_lookup [simp]: "map_of (heap_put p x h) q = (if q = p then Some x else map_of h q)"
  by (simp add: heap_put_def)

section \<open>Mutexes\<close>

definition mutex_init :: "bool \<Rightarrow> thread_mem \<Rightarrow> int \<times> ptr \<times> thread_mem" where
  "mutex_init malloc_ok s =
     (if \<not> malloc_ok then (- ENOMEM, NULL, s)
      else
        let m = fresh_ptr (mutexes s)
        in (0, m, s\<lparr>mutexes := heap_put m \<lparr>owner = None, ulock = NULL\<rparr> (mutexes s)\<rparr>))"

text \<open>Locking a mutex the thread owns already is undefined.\<close>

definition mutex_lock :: "tid \<Rightarrow> ptr \<Rightarrow> thread_mem \<Rightarrow> (int \<times> thread_mem) call_result" where
  "mutex_lock t m s =
     (case map_of (mutexes s) m of
        None \<Rightarrow> Undefined
      | Some mx \<Rightarrow>
          (case owner mx of
             None \<Rightarrow> Returns (0, s\<lparr>mutexes := heap_put m (mx\<lparr>owner := Some t\<rparr>) (mutexes s)\<rparr>)
           | Some t1 \<Rightarrow> if t1 = t then Undefined else Blocks))"

text \<open>\<open>std::mutex::unlock\<close> by a thread that does not own the mutex is undefined.\<close>

definition std_unlock :: "tid \<Rightarrow> ptr \<Rightarrow> thread_mem \<Rightarrow> thread_mem call_result" where
  "std_unlock t m s =
     (case map_of (mutexes s) m of
        None \<Rightarrow> Undefined
      | Some mx \<Rightarrow>
          if owner mx = Some t
          then Returns (s\<lparr>mutexes := heap_put m (mx\<lparr>owner := None\<rparr>) (mutexes s)\<rparr>)
          else Undefined)"

text \<open>\<open>std::unique_lock::unlock\<close> throws if the lock does not own its mutex.\<close>

definition ulock_unlock :: "tid \<Rightarrow> ptr \<Rightarrow> thread_mem \<Rightarrow> thread_mem call_result" where
  "ulock_unlock t l s =
     (case map_of (ulocks s) l of
        None \<Rightarrow> Undefined
      | Some ul \<Rightarrow>
          if \<not> owns ul then Terminates
          else
            case std_unlock t (lock_mutex ul) s of
              Returns s1 \<Rightarrow> Returns (s1\<lparr>ulocks := heap_put l (ul\<lparr>owns := False\<rparr>) (ulocks s1)\<rparr>)
            | r \<Rightarrow> r)"

definition mutex_unlock :: "tid \<Rightarrow> ptr \<Rightarrow> thread_mem \<Rightarrow> (int \<times> thread_mem) call_result" where
  "mutex_unlock t m s =
     (case map_of (mutexes s) m of
        None \<Rightarrow> Undefined
      | Some mx \<Rightarrow>
          if ulock mx \<noteq> NULL
          then
            case ulock_unlock t (ulock mx) (s\<lparr>mutexes := heap_put m (mx\<lparr>ulock := NULL\<rparr>) (mutexes s)\<rparr>) of
              Returns s1 \<Rightarrow> Returns (0, s1\<lparr>ulocks := heap_free (ulock mx) (ulocks s1)\<rparr>)
            | Blocks \<Rightarrow> Blocks | Terminates \<Rightarrow> Terminates | Undefined \<Rightarrow> Undefined
          else
            case std_unlock t m s of
              Returns s1 \<Rightarrow> Returns (0, s1)
            | Blocks \<Rightarrow> Blocks | Terminates \<Rightarrow> Terminates | Undefined \<Rightarrow> Undefined)"

definition mutex_destroy :: "ptr \<Rightarrow> thread_mem \<Rightarrow> thread_mem call_result" where
  "mutex_destroy m s =
     (case map_of (mutexes s) m of
        None \<Rightarrow> Undefined
      | Some mx \<Rightarrow>
          if owner mx \<noteq> None then Undefined else Returns (s\<lparr>mutexes := heap_free m (mutexes s)\<rparr>))"

section \<open>Condition variables\<close>

definition cond_init :: "bool \<Rightarrow> thread_mem \<Rightarrow> int \<times> ptr \<times> thread_mem" where
  "cond_init malloc_ok s =
     (if \<not> malloc_ok then (- ENOMEM, NULL, s)
      else let c = fresh_ptr (conds s) in (0, c, s\<lparr>conds := heap_put c () (conds s)\<rparr>))"

definition cond_destroy :: "ptr \<Rightarrow> thread_mem \<Rightarrow> thread_mem" where
  "cond_destroy c s = s\<lparr>conds := heap_free c (conds s)\<rparr>"

text \<open>
  \<open>cond_wait\<close> up to the sleep: a new lock that adopts the mutex is stored in the mutex, and \<open>wait\<close> unlocks
  it. Either the call returned at once (\<open>Inl\<close>) or the caller sleeps, with that lock (\<open>Inr\<close>).
\<close>

definition cond_wait_sleep ::
    "tid \<Rightarrow> ptr \<Rightarrow> ptr \<Rightarrow> bool \<Rightarrow> thread_mem \<Rightarrow> ((int + ptr) \<times> thread_mem) call_result" where
  "cond_wait_sleep t c m new_ok s =
     (if \<not> new_ok then Returns (Inl (- ENOMEM), s)
      else
        let l = fresh_ptr (ulocks s);
            s1 = s\<lparr>ulocks := heap_put l \<lparr>lock_mutex = m, owns = True\<rparr> (ulocks s)\<rparr>
        in case map_of (mutexes s1) m of
             None \<Rightarrow> Undefined
           | Some mx \<Rightarrow>
               (case ulock_unlock t l (s1\<lparr>mutexes := heap_put m (mx\<lparr>ulock := l\<rparr>) (mutexes s1)\<rparr>) of
                  Returns s2 \<Rightarrow> Returns (Inr l, s2\<lparr>sleepers := heap_put t (c, l) (sleepers s2)\<rparr>)
                | Blocks \<Rightarrow> Blocks | Terminates \<Rightarrow> Terminates | Undefined \<Rightarrow> Undefined))"

text \<open>The rest, once notified: \<open>wait\<close> locks the lock again.\<close>

definition cond_wait_wake :: "tid \<Rightarrow> ptr \<Rightarrow> thread_mem \<Rightarrow> (int \<times> thread_mem) call_result" where
  "cond_wait_wake t l s =
     (case map_of (ulocks s) l of
        None \<Rightarrow> Undefined
      | Some ul \<Rightarrow>
          if map_of (sleepers s) t \<noteq> None then Blocks
          else if owns ul then Terminates
          else
            case mutex_lock t (lock_mutex ul) s of
              Returns (r, s1) \<Rightarrow> Returns (0, s1\<lparr>ulocks := heap_put l (ul\<lparr>owns := True\<rparr>) (ulocks s1)\<rparr>)
            | Blocks \<Rightarrow> Blocks | Terminates \<Rightarrow> Terminates | Undefined \<Rightarrow> Undefined)"

text \<open>\<open>notify_one\<close> wakes one of the sleepers, the choice is \<open>n\<close>; \<open>notify_all\<close> wakes all of them.\<close>

definition cond_signal :: "nat \<Rightarrow> ptr \<Rightarrow> thread_mem \<Rightarrow> int \<times> thread_mem" where
  "cond_signal n c s =
     (case filter (\<lambda>(t, c1, l). c1 = c) (sleepers s) of
        [] \<Rightarrow> (0, s)
      | us \<Rightarrow> (0, s\<lparr>sleepers := heap_free (fst (us ! (n mod length us))) (sleepers s)\<rparr>))"

definition cond_broadcast :: "ptr \<Rightarrow> thread_mem \<Rightarrow> int \<times> thread_mem" where
  "cond_broadcast c s = (0, s\<lparr>sleepers := filter (\<lambda>(t, c1, l). c1 \<noteq> c) (sleepers s)\<rparr>)"

section \<open>Threads\<close>

definition thread_create :: "bool \<Rightarrow> thread_mem \<Rightarrow> int \<times> ptr \<times> thread_mem" where
  "thread_create malloc_ok s =
     (if \<not> malloc_ok then (- ENOMEM, NULL, s)
      else
        let ts = fresh_ptr (thread_structs s)
        in (0, ts, s\<lparr>thread_structs := heap_put ts \<lparr>joinable = True, thread_ret = None\<rparr> (thread_structs s)\<rparr>))"

text \<open>The end of a thread: it stores what its function returned in its structure.\<close>

definition thread_entry_ends :: "ptr \<Rightarrow> ptr \<Rightarrow> thread_mem \<Rightarrow> thread_mem call_result" where
  "thread_entry_ends ts r s =
     (case map_of (thread_structs s) ts of
        None \<Rightarrow> Undefined
      | Some th \<Rightarrow> Returns (s\<lparr>thread_structs := heap_put ts (th\<lparr>thread_ret := Some r\<rparr>) (thread_structs s)\<rparr>))"

text \<open>\<open>join\<close> waits until the thread has stored its result.\<close>

definition thread_join :: "ptr \<Rightarrow> thread_mem \<Rightarrow> (int \<times> ptr \<times> thread_mem) call_result" where
  "thread_join ts s =
     (case map_of (thread_structs s) ts of
        None \<Rightarrow> Undefined
      | Some th \<Rightarrow>
          if \<not> joinable th then Terminates
          else
            case thread_ret th of
              None \<Rightarrow> Blocks
            | Some r \<Rightarrow> Returns (0, r, s\<lparr>thread_structs := heap_free ts (thread_structs s)\<rparr>))"

definition thread_detach :: "ptr \<Rightarrow> thread_mem \<Rightarrow> thread_mem call_result" where
  "thread_detach ts s =
     (case map_of (thread_structs s) ts of
        None \<Rightarrow> Undefined
      | Some th \<Rightarrow>
          if \<not> joinable th then Terminates
          else Returns (s\<lparr>thread_structs := heap_free ts (thread_structs s)\<rparr>))"

section \<open>What goes wrong\<close>

lemma lock_then_unlock:
  assumes "map_of (mutexes s) m = Some \<lparr>owner = None, ulock = NULL\<rparr>" and "mutex_lock t m s = Returns (r, s1)"
  shows "\<exists>s2. mutex_unlock t m s1 = Returns (0, s2) \<and> map_of (mutexes s2) m = map_of (mutexes s) m"
  using assms by (auto simp: mutex_lock_def mutex_unlock_def std_unlock_def)

text \<open>A thread that is detached while it runs writes its result into freed memory.\<close>

lemma detach_then_end:
  "thread_detach ts s = Returns s1 \<Longrightarrow> thread_entry_ends ts r s1 = Undefined"
  by (auto simp: thread_detach_def thread_entry_ends_def split: option.splits if_splits)

lemma cond_wait_sleep_state:
  assumes "map_of (mutexes s) m = Some mx" and "owner mx = Some a"
  shows "\<exists>l s1. cond_wait_sleep a c m True s = Returns (Inr l, s1) \<and> l \<noteq> NULL \<and>
    map_of (mutexes s1) m = Some \<lparr>owner = None, ulock = l\<rparr> \<and>
    map_of (ulocks s1) l = Some \<lparr>lock_mutex = m, owns = False\<rparr>"
proof -
  obtain u where "mx = \<lparr>owner = Some a, ulock = u\<rparr>" using assms(2) by (cases mx) auto
  with assms(1) show ?thesis
    by (simp add: cond_wait_sleep_def ulock_unlock_def std_unlock_def Let_def)
qed

text \<open>
  C37: a thread asleep in \<open>cond_wait\<close> makes the mutex unusable for the others. The lock object of the
  sleeper stays in the mutex, so the next thread that locks and unlocks the mutex, whether it wakes the sleeper in between
  or not, unlocks the sleeper's lock, which owns nothing: the exception terminates the program.
\<close>

theorem unlock_with_sleeper_terminates:
  assumes "map_of (mutexes s) m = Some mx" and "owner mx = Some a"
    and "cond_wait_sleep a c m True s = Returns (r, s1)"
  shows "\<exists>s2. mutex_lock b m s1 = Returns (0, s2) \<and> mutex_unlock b m s2 = Terminates \<and>
    mutex_unlock b m (snd (cond_signal n e s2)) = Terminates \<and>
    mutex_unlock b m (snd (cond_broadcast e s2)) = Terminates"
proof -
  obtain l where l: "l \<noteq> NULL" "map_of (mutexes s1) m = Some \<lparr>owner = None, ulock = l\<rparr>"
      "map_of (ulocks s1) l = Some \<lparr>lock_mutex = m, owns = False\<rparr>"
    using cond_wait_sleep_state [OF assms(1,2), of c] assms(3) by auto
  have "mutex_unlock b m s = Terminates" if "mutexes s = heap_put m \<lparr>owner = Some b, ulock = l\<rparr> (mutexes s1)"
    "ulocks s = ulocks s1" for s
    using l that by (simp add: mutex_unlock_def ulock_unlock_def)
  then show ?thesis
    using l by (simp add: mutex_lock_def cond_signal_def cond_broadcast_def split: list.splits)
qed

theorem unlock_with_sleeper_terminates_witness:
  "\<exists>s0 m s1 r s2 s3. mutex_init True \<lparr>mutexes = [], ulocks = [], conds = [], sleepers = [], thread_structs = []\<rparr> = (0, m, s0) \<and>
     mutex_lock 1 m s0 = Returns (0, s1) \<and> cond_wait_sleep 1 9 m True s1 = Returns (r, s2) \<and>
     mutex_lock 2 m s2 = Returns (0, s3) \<and> mutex_unlock 2 m (snd (cond_signal 0 9 s3)) = Terminates"
proof -
  let ?s1 = "\<lparr>mutexes = [(1, \<lparr>owner = Some 1, ulock = NULL\<rparr>)], ulocks = [], conds = [], sleepers = [], thread_structs = []\<rparr>"
  obtain l s2 where w: "cond_wait_sleep 1 9 1 True ?s1 = Returns (Inr l, s2)"
    using cond_wait_sleep_state [of ?s1 1 _ 1 9] by auto
  from unlock_with_sleeper_terminates [OF _ _ w, of _ 2 0 9] obtain s3 where
    "mutex_lock 2 1 s2 = Returns (0, s3)" "mutex_unlock 2 1 (snd (cond_signal 0 9 s3)) = Terminates"
    by auto
  moreover have "mutex_init True \<lparr>mutexes = [], ulocks = [], conds = [], sleepers = [], thread_structs = []\<rparr> =
      (0, 1, \<lparr>mutexes = [(1, \<lparr>owner = None, ulock = NULL\<rparr>)], ulocks = [], conds = [], sleepers = [], thread_structs = []\<rparr>)"
    by (simp add: mutex_init_def fresh_ptr_def heap_put_def heap_free_def Let_def)
  moreover have "mutex_lock 1 1 \<lparr>mutexes = [(1, \<lparr>owner = None, ulock = NULL\<rparr>)], ulocks = [], conds = [], sleepers = [], thread_structs = []\<rparr> =
      Returns (0, ?s1)"
    by (simp add: mutex_lock_def heap_put_def heap_free_def)
  ultimately show ?thesis using w by metis
qed

end
