(* ===== verification/GwMonitor.thy ===== *)
theory GwMonitor
  imports GwSteps
begin

text \<open>
  Programs whose threads share data under one mutex and sleep on condition variables, and why the rest of
  this development may treat the code between taking the mutex and releasing it as one step. A program
  runs in two systems: in small steps, on the operations of some thread library, and with whole sections
  as steps. The locale \<open>monitor\<close> says what the library has to promise.
\<close>

section \<open>Sections\<close>

text \<open>The rest of a section: it releases the mutex, acts on the data and goes on depending on them, sleeps
  on a condition variable and goes on when woken, or wakes sleepers.\<close>

datatype 'd code =
    Leave
  | Act "'d \<Rightarrow> 'd" "'d \<Rightarrow> 'd code"
  | Wait nat "'d code"
  | Notify nat "'d code"
  | Notify_all nat "'d code"

section \<open>Whole sections as steps\<close>

datatype 'd atom_pc = A_outside | A_sleeps nat "'d code" | A_ready "'d code"

type_synonym 'd atom_sys = "'d \<times> (nat \<Rightarrow> 'd atom_pc)"

definition wake_pc :: "'d atom_pc \<Rightarrow> 'd atom_pc" where
  "wake_pc pc = (case pc of A_sleeps c k \<Rightarrow> A_ready k | _ \<Rightarrow> pc)"

definition sleeps_on :: "nat \<Rightarrow> 'd atom_pc \<Rightarrow> bool" where
  "sleeps_on c pc = (case pc of A_sleeps c' k \<Rightarrow> c' = c | _ \<Rightarrow> False)"

lemma wake_pc_simps [simp]:
  "wake_pc A_outside = A_outside" "wake_pc (A_ready k) = A_ready k" "wake_pc (A_sleeps c k) = A_ready k"
  "wake_pc (wake_pc pc) = wake_pc pc" "\<not> sleeps_on c (wake_pc pc)"
  "\<not> sleeps_on c A_outside" "\<not> sleeps_on c (A_ready k)" "sleeps_on c (A_sleeps c' k) = (c' = c)"
  by (simp_all add: wake_pc_def sleeps_on_def split: atom_pc.splits)

inductive sect :: "nat \<Rightarrow> 'd code \<Rightarrow> 'd atom_sys \<Rightarrow> 'd atom_sys \<Rightarrow> bool" for t :: nat where
  sec_leave: "sect t Leave (d, p) (d, p(t := A_outside))"
| sec_act: "d' = f d \<Longrightarrow> k' = k d' \<Longrightarrow> sect t k' (d', p) r \<Longrightarrow> sect t (Act f k) (d, p) r"
| sec_wait: "sect t (Wait c k) (d, p) (d, p(t := A_sleeps c k))"
| sec_notify: "sleeps_on c (p u) \<Longrightarrow> sect t k (d, p(u := wake_pc (p u))) r \<Longrightarrow> sect t (Notify c k) (d, p) r"
| sec_notify_none: "\<forall>u. \<not> sleeps_on c (p u) \<Longrightarrow> sect t k (d, p) r \<Longrightarrow> sect t (Notify c k) (d, p) r"
| sec_notify_all: "sect t k (d, \<lambda>u. if sleeps_on c (p u) then wake_pc (p u) else p u) r \<Longrightarrow>
     sect t (Notify_all c k) (d, p) r"

inductive atom_step :: "'d atom_sys \<Rightarrow> nat \<Rightarrow> 'd atom_sys \<Rightarrow> bool" where
  atom_call: "p t = A_outside \<Longrightarrow> sect t k (d, p) r \<Longrightarrow> atom_step (d, p) t r"
| atom_resume: "p t = A_ready k \<Longrightarrow> sect t k (d, p) r \<Longrightarrow> atom_step (d, p) t r"
| atom_spurious: "sleeps_on c (p t) \<Longrightarrow> atom_step (d, p) t (d, p(t := wake_pc (p t)))"

definition atom_init :: "'d \<Rightarrow> 'd atom_sys \<Rightarrow> bool" where
  "atom_init d s = (s = (d, \<lambda>t. A_outside))"

section \<open>Spurious wake-ups inside a section\<close>

text \<open>Sections in which sleepers may also wake up for no reason, which the small steps have.\<close>

inductive sect_spur :: "nat \<Rightarrow> 'd code \<Rightarrow> 'd atom_sys \<Rightarrow> 'd atom_sys \<Rightarrow> bool" for t :: nat where
  spur_leave: "sect_spur t Leave (d, p) (d, p(t := A_outside))"
| spur_act: "d' = f d \<Longrightarrow> k' = k d' \<Longrightarrow> sect_spur t k' (d', p) r \<Longrightarrow> sect_spur t (Act f k) (d, p) r"
| spur_wait: "sect_spur t (Wait c k) (d, p) (d, p(t := A_sleeps c k))"
| spur_notify: "sleeps_on c (p u) \<Longrightarrow> sect_spur t k (d, p(u := wake_pc (p u))) r \<Longrightarrow>
     sect_spur t (Notify c k) (d, p) r"
| spur_notify_none: "\<forall>u. \<not> sleeps_on c (p u) \<Longrightarrow> sect_spur t k (d, p) r \<Longrightarrow> sect_spur t (Notify c k) (d, p) r"
| spur_notify_all: "sect_spur t k (d, \<lambda>u. if sleeps_on c (p u) then wake_pc (p u) else p u) r \<Longrightarrow>
     sect_spur t (Notify_all c k) (d, p) r"
| spur: "sect_spur t k (d, p(u := wake_pc (p u))) r \<Longrightarrow> sect_spur t k (d, p) r"

definition wake_set :: "nat set \<Rightarrow> (nat \<Rightarrow> 'd atom_pc) \<Rightarrow> nat \<Rightarrow> 'd atom_pc" where
  "wake_set V p = (\<lambda>u. if u \<in> V then wake_pc (p u) else p u)"

lemma wake_set_insert: "wake_set V (p(u := wake_pc (p u))) = wake_set (insert u V) p"
  by (auto simp: wake_set_def fun_eq_iff)

text \<open>They can happen before the section instead.\<close>

lemma sect_spur_first:
  "sect_spur t k s r \<Longrightarrow> \<exists>V. finite V \<and> sect t k (fst s, wake_set V (snd s)) r"
proof (induction rule: sect_spur.induct)
  case (spur_leave d p)
  have "sect t Leave (d, wake_set {} p) (d, p(t := A_outside))" by (simp add: wake_set_def sec_leave)
  then show ?case by auto
next
  case (spur_wait c k d p)
  have "sect t (Wait c k) (d, wake_set {} p) (d, p(t := A_sleeps c k))" by (simp add: wake_set_def sec_wait)
  then show ?case by auto
next
  case (spur_act d' f d k' k p r)
  obtain V where V: "finite V" "sect t k' (d', wake_set V p) r"
    using spur_act.IH unfolding fst_conv snd_conv by blast
  have "sect t (Act f k) (d, wake_set V p) r" using spur_act.hyps(1,2) V(2) by (rule sec_act)
  with V(1) show ?case by auto
next
  case (spur_notify c p u k d r)
  obtain V where V: "finite V" "sect t k (d, wake_set V (p(u := wake_pc (p u)))) r"
    using spur_notify.IH unfolding fst_conv snd_conv by blast
  let ?p = "wake_set (V - {u}) p"
  have "?p(u := wake_pc (?p u)) = wake_set V (p(u := wake_pc (p u)))" "?p u = p u"
    by (auto simp: wake_set_def fun_eq_iff)
  with V spur_notify.hyps(1) sec_notify [of c ?p u t k d r] show ?case by auto
next
  case (spur_notify_none c p k d r)
  obtain V where V: "finite V" "sect t k (d, wake_set V p) r"
    using spur_notify_none.IH unfolding fst_conv snd_conv by blast
  have "\<forall>u. \<not> sleeps_on c (wake_set V p u)" using spur_notify_none.hyps(1) by (simp add: wake_set_def)
  from sec_notify_none [where p = "wake_set V p", OF this V(2)] V(1) show ?case by auto
next
  case (spur_notify_all k d c p r)
  obtain V where V: "finite V"
    "sect t k (d, wake_set V (\<lambda>u. if sleeps_on c (p u) then wake_pc (p u) else p u)) r"
    using spur_notify_all.IH unfolding fst_conv snd_conv by blast
  have "wake_set V (\<lambda>u. if sleeps_on c (p u) then wake_pc (p u) else p u) =
      (\<lambda>u. if sleeps_on c (wake_set V p u) then wake_pc (wake_set V p u) else wake_set V p u)"
    by (auto simp: wake_set_def fun_eq_iff)
  with V(2) have "sect t (Notify_all c k) (d, wake_set V p) r" by (intro sec_notify_all) simp
  with V(1) show ?case unfolding fst_conv snd_conv by blast
next
  case (spur k d p u r)
  obtain V where "finite V" "sect t k (d, wake_set V (p(u := wake_pc (p u)))) r"
    using spur.IH unfolding fst_conv snd_conv by blast
  then have "finite (insert u V)" "sect t k (d, wake_set (insert u V) p) r" unfolding wake_set_insert by simp_all
  then show ?case unfolding fst_conv snd_conv by blast
qed

lemma not_asleep_wake: "\<forall>c. \<not> sleeps_on c pc \<Longrightarrow> wake_pc pc = pc"
  by (cases pc) auto

lemma reach_wake_set:
  "finite V \<Longrightarrow> reach init atom_step (d, p) \<Longrightarrow> reach init atom_step (d, wake_set V p)"
proof (induction V arbitrary: p rule: finite_induct)
  case empty
  then show ?case by (simp add: wake_set_def)
next
  case (insert u V)
  have "reach init atom_step (d, p(u := wake_pc (p u)))"
  proof (cases "\<exists>c. sleeps_on c (p u)")
    case True
    with insert.prems show ?thesis by (blast intro: reach_next atom_spurious)
  next
    case False
    with insert.prems not_asleep_wake [of "p u"] show ?thesis by simp
  qed
  from insert.IH [OF this] show ?case unfolding wake_set_insert .
qed

text \<open>A thread that is not asleep may start a section, whatever wakes up during it.\<close>

lemma reach_sect_spur:
  assumes "reach init atom_step (d, p)" and "p t = A_outside \<or> p t = A_ready k" and "sect_spur t k (d, p) r"
  shows "reach init atom_step r"
proof -
  from sect_spur_first [OF assms(3)] obtain V where V: "finite V" "sect t k (d, wake_set V p) r" by auto
  have "wake_set V p t = p t" using assms(2) by (auto simp: wake_set_def)
  with assms(2) V(2) have "atom_step (d, wake_set V p) t r" by (auto intro: atom_call atom_resume)
  with reach_wake_set [OF V(1) assms(1)] show ?thesis by (rule reach_next)
qed

section \<open>The small steps\<close>

text \<open>The operations of a thread library on one mutex, with memory of type \<open>'s\<close>; \<open>None\<close>: the call does not
  return now. \<open>op_asleep t c\<close>: the thread sleeps on \<open>c\<close> and has not been woken.\<close>

record 's monitor_ops =
  op_lock :: "nat \<Rightarrow> 's \<Rightarrow> 's option"
  op_unlock :: "nat \<Rightarrow> 's \<Rightarrow> 's option"
  op_sleep :: "nat \<Rightarrow> nat \<Rightarrow> 's \<Rightarrow> 's option"
  op_relock :: "nat \<Rightarrow> 's \<Rightarrow> 's option"
  op_wake :: "nat \<Rightarrow> 's \<Rightarrow> 's"
  op_signal :: "nat \<Rightarrow> nat \<Rightarrow> 's \<Rightarrow> 's"
  op_broadcast :: "nat \<Rightarrow> 's \<Rightarrow> 's"
  op_asleep :: "nat \<Rightarrow> nat \<Rightarrow> 's \<Rightarrow> bool"

datatype 'd mon_pc = P_outside | P_inside "'d code" | P_waits nat "'d code"

record ('s, 'd) mon_sys =
  m_mem :: 's
  m_data :: 'd
  m_pc :: "nat \<Rightarrow> 'd mon_pc"

text \<open>Any thread may start any section; \<open>n\<close> is the choice of the sleeper a signal wakes.\<close>

inductive mon_step :: "'s monitor_ops \<Rightarrow> ('s, 'd) mon_sys \<Rightarrow> nat \<Rightarrow> ('s, 'd) mon_sys \<Rightarrow> bool"
  for ops :: "'s monitor_ops" where
  mon_enter: "m_pc s t = P_outside \<Longrightarrow> op_lock ops t (m_mem s) = Some m \<Longrightarrow>
     mon_step ops s t (s\<lparr>m_mem := m, m_pc := (m_pc s)(t := P_inside k)\<rparr>)"
| mon_act: "m_pc s t = P_inside (Act f k) \<Longrightarrow> d = f (m_data s) \<Longrightarrow>
     mon_step ops s t (s\<lparr>m_data := d, m_pc := (m_pc s)(t := P_inside (k d))\<rparr>)"
| mon_notify: "m_pc s t = P_inside (Notify c k) \<Longrightarrow>
     mon_step ops s t (s\<lparr>m_mem := op_signal ops n c (m_mem s), m_pc := (m_pc s)(t := P_inside k)\<rparr>)"
| mon_notify_all: "m_pc s t = P_inside (Notify_all c k) \<Longrightarrow>
     mon_step ops s t (s\<lparr>m_mem := op_broadcast ops c (m_mem s), m_pc := (m_pc s)(t := P_inside k)\<rparr>)"
| mon_sleep: "m_pc s t = P_inside (Wait c k) \<Longrightarrow> op_sleep ops t c (m_mem s) = Some m \<Longrightarrow>
     mon_step ops s t (s\<lparr>m_mem := m, m_pc := (m_pc s)(t := P_waits c k)\<rparr>)"
| mon_woken: "m_pc s t = P_waits c k \<Longrightarrow> op_relock ops t (m_mem s) = Some m \<Longrightarrow>
     mon_step ops s t (s\<lparr>m_mem := m, m_pc := (m_pc s)(t := P_inside k)\<rparr>)"
| mon_leave: "m_pc s t = P_inside Leave \<Longrightarrow> op_unlock ops t (m_mem s) = Some m \<Longrightarrow>
     mon_step ops s t (s\<lparr>m_mem := m, m_pc := (m_pc s)(t := P_outside)\<rparr>)"
| mon_spurious: "op_asleep ops t c (m_mem s) \<Longrightarrow> mon_step ops s t (s\<lparr>m_mem := op_wake ops t (m_mem s)\<rparr>)"

definition mon_init :: "('s \<Rightarrow> bool) \<Rightarrow> 'd \<Rightarrow> ('s, 'd) mon_sys \<Rightarrow> bool" where
  "mon_init fresh d s = (fresh (m_mem s) \<and> m_data s = d \<and> m_pc s = (\<lambda>t. P_outside))"

text \<open>The small steps seen as whole sections, for the threads outside of sections.\<close>

definition atom_pc_of :: "'s monitor_ops \<Rightarrow> ('s, 'd) mon_sys \<Rightarrow> nat \<Rightarrow> 'd atom_pc" where
  "atom_pc_of ops s t =
     (case m_pc s t of
        P_waits c k \<Rightarrow> if op_asleep ops t c (m_mem s) then A_sleeps c k else A_ready k
      | _ \<Rightarrow> A_outside)"

text \<open>
  What the library promises: the mutex has one owner, who alone may release it or sleep, sleeping
  releases the mutex and registers the sleeper in one go, the call comes back only when woken and with the mutex, and
  waking removes sleepers of the right condition variable.
\<close>

locale monitor =
  fixes ops :: "'s monitor_ops"
    and owner :: "'s \<Rightarrow> nat option"
    and ok :: "'s \<Rightarrow> bool"
    and fresh :: "'s \<Rightarrow> bool"
  assumes fresh_ok: "fresh m \<Longrightarrow> ok m \<and> owner m = None \<and> \<not> op_asleep ops t c m"
    and lock_law: "ok m \<Longrightarrow> op_lock ops t m = Some m' \<Longrightarrow>
      owner m = None \<and> owner m' = Some t \<and> ok m' \<and> (\<forall>u c. op_asleep ops u c m' = op_asleep ops u c m)"
    and unlock_law: "ok m \<Longrightarrow> op_unlock ops t m = Some m' \<Longrightarrow>
      owner m' = None \<and> ok m' \<and> (\<forall>u c. op_asleep ops u c m' = op_asleep ops u c m)"
    and sleep_law: "ok m \<Longrightarrow> owner m = Some t \<Longrightarrow> op_sleep ops t c m = Some m' \<Longrightarrow>
      owner m' = None \<and> ok m' \<and>
      (\<forall>u e. op_asleep ops u e m' = (if u = t then e = c else op_asleep ops u e m))"
    and relock_law: "ok m \<Longrightarrow> op_relock ops t m = Some m' \<Longrightarrow> owner m = None \<and> owner m' = Some t \<and> ok m' \<and>
      (\<forall>e. \<not> op_asleep ops t e m) \<and> (\<forall>u c. op_asleep ops u c m' = op_asleep ops u c m)"
    and wake_law: "ok m \<Longrightarrow> owner (op_wake ops t m) = owner m \<and> ok (op_wake ops t m) \<and>
      (\<forall>u e. op_asleep ops u e (op_wake ops t m) = (u \<noteq> t \<and> op_asleep ops u e m))"
    and signal_law: "ok m \<Longrightarrow> (\<forall>u. \<not> op_asleep ops u c m) \<and> op_signal ops n c m = m \<or>
      (\<exists>u. op_asleep ops u c m \<and> op_signal ops n c m = op_wake ops u m)"
    and broadcast_law: "ok m \<Longrightarrow> owner (op_broadcast ops c m) = owner m \<and> ok (op_broadcast ops c m) \<and>
      (\<forall>u e. op_asleep ops u e (op_broadcast ops c m) = (e \<noteq> c \<and> op_asleep ops u e m))"

context monitor begin

text \<open>
  The invariant. While nobody owns the mutex the sections are complete. While \<open>t\<close> owns it, some earlier complete
  state is left behind, from which \<open>t\<close> started a section of which the rest of its code is the rest.
\<close>

definition complete :: "'d \<Rightarrow> ('s, 'd) mon_sys \<Rightarrow> bool" where
  "complete d s = reach (atom_init d) atom_step (m_data s, atom_pc_of ops s)"

definition started :: "'d \<Rightarrow> nat \<Rightarrow> 'd code \<Rightarrow> ('s, 'd) mon_sys \<Rightarrow> bool" where
  "started d t k s = (\<exists>k0 d0 p0. reach (atom_init d) atom_step (d0, p0) \<and>
     (p0 t = A_outside \<or> p0 t = A_ready k0) \<and>
     (\<forall>r. sect_spur t k (m_data s, (atom_pc_of ops s)(t := p0 t)) r \<longrightarrow> sect_spur t k0 (d0, p0) r))"

definition mon_inv :: "'d \<Rightarrow> ('s, 'd) mon_sys \<Rightarrow> bool" where
  "mon_inv d s = (ok (m_mem s) \<and>
     (\<forall>t c. op_asleep ops t c (m_mem s) \<longrightarrow> (\<exists>k. m_pc s t = P_waits c k)) \<and>
     (\<forall>t k. m_pc s t = P_inside k \<longrightarrow> owner (m_mem s) = Some t) \<and>
     (owner (m_mem s) = None \<longrightarrow> complete d s) \<and>
     (\<forall>t k. m_pc s t = P_inside k \<longrightarrow> started d t k s))"

lemma mon_invD:
  assumes "mon_inv d s"
  shows "ok (m_mem s)" and "op_asleep ops t c (m_mem s) \<Longrightarrow> \<exists>k. m_pc s t = P_waits c k"
    and "m_pc s t = P_inside k \<Longrightarrow> owner (m_mem s) = Some t"
    and "m_pc s t = P_inside k \<Longrightarrow> m_pc s u = P_inside k' \<Longrightarrow> u = t"
    and "owner (m_mem s) = None \<Longrightarrow> m_pc s t \<noteq> P_inside k"
    and "owner (m_mem s) = None \<Longrightarrow> complete d s"
    and "m_pc s t = P_inside k \<Longrightarrow> started d t k s"
  using assms by (simp_all add: mon_inv_def) (metis option.inject)

text \<open>A thread enters with a complete state behind it.\<close>

lemma started_enter:
  assumes "complete d s" and "atom_pc_of ops s t = A_outside \<or> atom_pc_of ops s t = A_ready k"
    and "m_data s' = m_data s" and "(atom_pc_of ops s')(t := atom_pc_of ops s t) = atom_pc_of ops s"
  shows "started d t k s'"
  unfolding started_def
  by (intro exI [of _ k] exI [of _ "m_data s"] exI [of _ "atom_pc_of ops s"]) (use assms in \<open>auto simp: complete_def\<close>)

text \<open>A step of the section moves the rest.\<close>

lemma started_step:
  assumes "started d t k s"
    and "\<And>p r. sect_spur t k' (m_data s', (atom_pc_of ops s')(t := p)) r \<Longrightarrow> p \<in> {A_outside} \<union> range A_ready \<Longrightarrow>
      sect_spur t k (m_data s, (atom_pc_of ops s)(t := p)) r"
  shows "started d t k' s'"
proof -
  from assms(1) obtain k0 d0 p0 where 0: "reach (atom_init d) atom_step (d0, p0)"
    "p0 t = A_outside \<or> p0 t = A_ready k0"
    "\<forall>r. sect_spur t k (m_data s, (atom_pc_of ops s)(t := p0 t)) r \<longrightarrow> sect_spur t k0 (d0, p0) r"
    by (auto simp: started_def)
  then have "p0 t \<in> {A_outside} \<union> range A_ready" by auto
  with 0 assms(2) [of "p0 t"] show ?thesis unfolding started_def by blast
qed

text \<open>At its end the section is complete.\<close>

lemma started_done:
  assumes "started d t k s" and "\<And>p. sect_spur t k (m_data s, (atom_pc_of ops s)(t := p)) (m_data s', atom_pc_of ops s')"
  shows "complete d s'"
proof -
  from assms(1) obtain k0 d0 p0 where 0: "reach (atom_init d) atom_step (d0, p0)"
    "p0 t = A_outside \<or> p0 t = A_ready k0"
    "\<forall>r. sect_spur t k (m_data s, (atom_pc_of ops s)(t := p0 t)) r \<longrightarrow> sect_spur t k0 (d0, p0) r"
    by (auto simp: started_def)
  with assms(2) [of "p0 t"] have "sect_spur t k0 (d0, p0) (m_data s', atom_pc_of ops s')" by blast
  from reach_sect_spur [OF 0(1,2) this] show ?thesis by (simp add: complete_def)
qed

text \<open>Every step keeps the invariant: first what a step inside a section of \<open>t\<close> leaves to show.\<close>

lemma mon_inv_inside:
  assumes inv: "mon_inv d s" and pc: "m_pc s t = P_inside k" and pc': "m_pc s' = (m_pc s)(t := P_inside k')"
    and mem: "ok (m_mem s')" "owner (m_mem s') = owner (m_mem s)"
      "\<And>u e. op_asleep ops u e (m_mem s') \<Longrightarrow> op_asleep ops u e (m_mem s)"
    and st: "started d t k' s'"
  shows "mon_inv d s'"
proof -
  note I = mon_invD [OF inv]
  have "owner (m_mem s') = Some t" using mem(2) I(3) [OF pc] by simp
  moreover have "\<exists>k. m_pc s' u = P_waits e k" if "op_asleep ops u e (m_mem s')" for u e
    using I(2) [OF mem(3) [OF that]] pc by (auto simp: pc')
  moreover have "u = t \<and> k'' = k'" if "m_pc s' u = P_inside k''" for u k''
    using that I(4) [OF pc] by (auto simp: pc' split: if_splits)
  ultimately show ?thesis unfolding mon_inv_def using mem(1) st by auto
qed

lemma mon_inv_free:
  assumes "ok (m_mem s')" and "owner (m_mem s') = None"
    and "\<And>u e. op_asleep ops u e (m_mem s') \<Longrightarrow> \<exists>k. m_pc s' u = P_waits e k"
    and "\<And>u k. m_pc s' u \<noteq> P_inside k" and "complete d s'"
  shows "mon_inv d s'"
  unfolding mon_inv_def using assms by auto

lemma mon_inv_enter:
  assumes inv: "mon_inv d s" and free: "owner (m_mem s) = None" and pc: "\<And>k. m_pc s t \<noteq> P_inside k"
    and s': "m_pc s' = (m_pc s)(t := P_inside k)" "m_data s' = m_data s"
    and mem: "ok (m_mem s')" "owner (m_mem s') = Some t" "\<And>u e. op_asleep ops u e (m_mem s') = op_asleep ops u e (m_mem s)"
    and awake: "\<And>e. \<not> op_asleep ops t e (m_mem s)"
    and apc: "atom_pc_of ops s t = A_outside \<or> atom_pc_of ops s t = A_ready k"
  shows "mon_inv d s'"
proof -
  note I = mon_invD [OF inv]
  have "(atom_pc_of ops s')(t := atom_pc_of ops s t) = atom_pc_of ops s"
    by (rule ext) (simp add: atom_pc_of_def s' mem(3) split: mon_pc.splits)
  from started_enter [OF I(6) [OF free] apc s'(2) this] have "started d t k s'" .
  moreover have "u = t \<and> k'' = k" if "m_pc s' u = P_inside k''" for u k''
    using that I(5) [OF free] by (auto simp: s' split: if_splits)
  moreover have "\<exists>k. m_pc s' u = P_waits e k" if "op_asleep ops u e (m_mem s')" for u e
    using that I(2) [of u e] awake [of e] by (auto simp: s' mem(3))
  ultimately show ?thesis unfolding mon_inv_def using mem(1,2) by auto
qed

lemma atom_pc_of_simps:
  "m_pc s t = P_outside \<Longrightarrow> atom_pc_of ops s t = A_outside"
  "m_pc s t = P_inside k \<Longrightarrow> atom_pc_of ops s t = A_outside"
  "m_pc s t = P_waits c k \<Longrightarrow> atom_pc_of ops s t = (if op_asleep ops t c (m_mem s) then A_sleeps c k else A_ready k)"
  by (simp_all add: atom_pc_of_def)

lemma atom_pc_of_other:
  assumes "\<And>u. u \<noteq> t \<Longrightarrow> m_pc s' u = m_pc s u"
    and "\<And>u e. u \<noteq> t \<Longrightarrow> op_asleep ops u e (m_mem s') = op_asleep ops u e (m_mem s)"
  shows "(atom_pc_of ops s')(t := p) = (atom_pc_of ops s)(t := p)"
  using assms by (auto simp: fun_eq_iff atom_pc_of_def split: mon_pc.splits)

lemma sleeps_on_atom_pc:
  assumes "mon_inv d s"
  shows "sleeps_on c (atom_pc_of ops s u) = op_asleep ops u c (m_mem s)"
  using mon_invD(2) [OF assms, of u c] by (cases "m_pc s u") (auto simp: atom_pc_of_simps)

lemma atom_pc_of_wake:
  assumes inv: "mon_inv d s" and a: "op_asleep ops u c (m_mem s)"
  shows "atom_pc_of ops (s\<lparr>m_mem := op_wake ops u (m_mem s)\<rparr>) = (atom_pc_of ops s)(u := wake_pc (atom_pc_of ops s u))"
proof (rule ext)
  fix v
  have w: "op_asleep ops v e (op_wake ops u (m_mem s)) = (v \<noteq> u \<and> op_asleep ops v e (m_mem s))" for e
    using wake_law [OF mon_invD(1) [OF inv]] by blast
  obtain k where "m_pc s u = P_waits c k" using mon_invD(2) [OF inv a] by blast
  then show "atom_pc_of ops (s\<lparr>m_mem := op_wake ops u (m_mem s)\<rparr>) v =
      ((atom_pc_of ops s)(u := wake_pc (atom_pc_of ops s u))) v"
    using a by (cases "m_pc s v") (auto simp: atom_pc_of_def w)
qed

lemma mon_inv_spurious:
  assumes inv: "mon_inv d s" and a: "op_asleep ops u c (m_mem s)"
  shows "mon_inv d (s\<lparr>m_mem := op_wake ops u (m_mem s)\<rparr>)"
proof -
  let ?s = "s\<lparr>m_mem := op_wake ops u (m_mem s)\<rparr>"
  note I = mon_invD [OF inv] and W = wake_law [OF mon_invD(1) [OF inv], of u]
  note w = atom_pc_of_wake [OF inv a]
  have so: "sleeps_on c (atom_pc_of ops s u)" using sleeps_on_atom_pc [OF inv] a by simp
  obtain ku where pu: "m_pc s u = P_waits c ku" using I(2) [OF a] by blast
  have "complete d ?s" if "owner (m_mem ?s) = None"
  proof -
    have "reach (atom_init d) atom_step (m_data s, atom_pc_of ops s)" using I(6) that W by (simp add: complete_def)
    from reach_next [OF this atom_spurious [of c "atom_pc_of ops s" u, OF so]] show ?thesis
      unfolding complete_def w by simp
  qed
  moreover have "started d t k ?s" if pc: "m_pc ?s t = P_inside k" for t k
  proof (rule started_step [OF I(7) [of t k]])
    show "m_pc s t = P_inside k" using pc by simp
    have "t \<noteq> u" using pc pu by auto
    then have eq: "((atom_pc_of ops s)(u := wake_pc (atom_pc_of ops s u)))(t := p) =
        ((atom_pc_of ops s)(t := p))(u := wake_pc (((atom_pc_of ops s)(t := p)) u))" for p
      by (auto simp: fun_eq_iff)
    show "sect_spur t k (m_data s, (atom_pc_of ops s)(t := p)) r"
      if "sect_spur t k (m_data ?s, (atom_pc_of ops ?s)(t := p)) r" for p r
      using that unfolding w eq by - (rule spur [where u = u], simp)
  qed
  moreover have "ok (m_mem ?s)" using W by simp
  moreover have "\<exists>k. m_pc ?s t = P_waits e k" if "op_asleep ops t e (m_mem ?s)" for t e
  proof -
    have "op_asleep ops t e (m_mem s)" using that W by simp
    from I(2) [OF this] show ?thesis by simp
  qed
  moreover have "owner (m_mem ?s) = Some t" if "m_pc ?s t = P_inside k" for t k
  proof -
    have "m_pc s t = P_inside k" using that by simp
    from I(3) [OF this] show ?thesis using W by simp
  qed
  ultimately show ?thesis unfolding mon_inv_def by blast
qed

text \<open>The steps inside a section that do not leave it.\<close>

lemma mon_inv_act:
  assumes inv: "mon_inv d0 s" and pc: "m_pc s t = P_inside (Act f k)" and d: "d = f (m_data s)"
  shows "mon_inv d0 (s\<lparr>m_data := d, m_pc := (m_pc s)(t := P_inside (k d))\<rparr>)" (is "mon_inv d0 ?s")
proof (rule mon_inv_inside [OF inv pc])
  show "started d0 t (k d) ?s"
  proof (rule started_step [OF mon_invD(7) [OF inv pc]])
    have eq: "(atom_pc_of ops ?s)(t := p) = (atom_pc_of ops s)(t := p)" for p
      by (rule atom_pc_of_other) simp_all
    show "sect_spur t (Act f k) (m_data s, (atom_pc_of ops s)(t := p)) r"
      if "sect_spur t (k d) (m_data ?s, (atom_pc_of ops ?s)(t := p)) r" for p r
      using d refl that unfolding eq by (intro spur_act [of d f "m_data s" "k d" k]) simp_all
  qed
qed (use mon_invD(1) [OF inv] in simp_all)

lemma mon_inv_notify:
  assumes inv: "mon_inv d0 s" and pc: "m_pc s t = P_inside (Notify c k)"
  shows "mon_inv d0 (s\<lparr>m_mem := op_signal ops n c (m_mem s), m_pc := (m_pc s)(t := P_inside k)\<rparr>)" (is "mon_inv d0 ?s")
proof -
  let ?A = "\<lambda>p. (atom_pc_of ops s)(t := p)"
  note ok = mon_invD(1) [OF inv] and so = sleeps_on_atom_pc [OF inv]
  from signal_law [OF ok, of c n] show ?thesis
  proof (elim disjE conjE exE)
    assume none: "\<forall>u. \<not> op_asleep ops u c (m_mem s)" and m: "op_signal ops n c (m_mem s) = m_mem s"
    have eq: "(atom_pc_of ops ?s)(t := p) = ?A p" for p by (rule atom_pc_of_other) (simp_all add: m)
    have "started d0 t k ?s"
    proof (rule started_step [OF mon_invD(7) [OF inv pc]])
      show "sect_spur t (Notify c k) (m_data s, ?A p) r"
        if "sect_spur t k (m_data ?s, (atom_pc_of ops ?s)(t := p)) r" "p \<in> {A_outside} \<union> range A_ready" for p r
        using that none unfolding eq by (intro spur_notify_none) (auto simp: so)
    qed
    then show ?thesis by (rule mon_inv_inside [OF inv pc, rotated -1]) (use ok in \<open>simp_all add: m\<close>)
  next
    fix u assume a: "op_asleep ops u c (m_mem s)" and m: "op_signal ops n c (m_mem s) = op_wake ops u (m_mem s)"
    note W = wake_law [OF ok, of u]
    have tu: "u \<noteq> t" using mon_invD(2) [OF inv a] pc by auto
    have "(atom_pc_of ops ?s)(t := p) = (atom_pc_of ops (s\<lparr>m_mem := op_wake ops u (m_mem s)\<rparr>))(t := p)" for p
      by (rule atom_pc_of_other) (simp_all add: m)
    then have eq: "(atom_pc_of ops ?s)(t := p) = (?A p)(u := wake_pc (?A p u))" for p
      using tu by (simp add: atom_pc_of_wake [OF inv a] fun_upd_twist)
    have "started d0 t k ?s"
    proof (rule started_step [OF mon_invD(7) [OF inv pc]])
      show "sect_spur t (Notify c k) (m_data s, ?A p) r"
        if "sect_spur t k (m_data ?s, (atom_pc_of ops ?s)(t := p)) r" for p r
        using that tu a unfolding eq by (intro spur_notify [of c "?A p" u]) (auto simp: so)
    qed
    then show ?thesis by (rule mon_inv_inside [OF inv pc, rotated -1]) (use W in \<open>simp_all add: m\<close>)
  qed
qed

lemma mon_inv_notify_all:
  assumes inv: "mon_inv d0 s" and pc: "m_pc s t = P_inside (Notify_all c k)"
  shows "mon_inv d0 (s\<lparr>m_mem := op_broadcast ops c (m_mem s), m_pc := (m_pc s)(t := P_inside k)\<rparr>)" (is "mon_inv d0 ?s")
proof -
  let ?A = "\<lambda>p. (atom_pc_of ops s)(t := p)"
  note B = broadcast_law [OF mon_invD(1) [OF inv], of c] and so = sleeps_on_atom_pc [OF inv]
  have eq: "(atom_pc_of ops ?s)(t := p) = (\<lambda>u. if sleeps_on c (?A p u) then wake_pc (?A p u) else ?A p u)"
    if "p \<in> {A_outside} \<union> range A_ready" for p
    using that mon_invD(2) [OF inv] by (auto simp: atom_pc_of_def fun_eq_iff B split: mon_pc.splits)
  have "started d0 t k ?s"
  proof (rule started_step [OF mon_invD(7) [OF inv pc]])
    show "sect_spur t (Notify_all c k) (m_data s, ?A p) r"
      if "sect_spur t k (m_data ?s, (atom_pc_of ops ?s)(t := p)) r" "p \<in> {A_outside} \<union> range A_ready" for p r
      using that(1) unfolding eq [OF that(2)] by (intro spur_notify_all) simp
  qed
  then show ?thesis by (rule mon_inv_inside [OF inv pc, rotated -1]) (use B in simp_all)
qed

text \<open>The steps that leave it.\<close>

lemma mon_inv_sleep:
  assumes inv: "mon_inv d0 s" and pc: "m_pc s t = P_inside (Wait c k)" and l: "op_sleep ops t c (m_mem s) = Some m"
  shows "mon_inv d0 (s\<lparr>m_mem := m, m_pc := (m_pc s)(t := P_waits c k)\<rparr>)" (is "mon_inv d0 ?s")
proof -
  note L = sleep_law [OF mon_invD(1) [OF inv] mon_invD(3) [OF inv pc] l]
  have eq: "(atom_pc_of ops s)(t := p, t := A_sleeps c k) = atom_pc_of ops ?s" for p
    by (auto simp: atom_pc_of_def fun_eq_iff L split: mon_pc.splits)
  have "complete d0 ?s"
  proof (rule started_done [OF mon_invD(7) [OF inv pc]])
    show "sect_spur t (Wait c k) (m_data s, (atom_pc_of ops s)(t := p)) (m_data ?s, atom_pc_of ops ?s)" for p
      using spur_wait [of t c k "m_data s" "(atom_pc_of ops s)(t := p)"] unfolding eq by simp
  qed
  moreover have "m_pc ?s u \<noteq> P_inside k'" for u k' using mon_invD(4) [OF inv pc] by auto
  moreover have "\<exists>k. m_pc ?s u = P_waits e k" if "op_asleep ops u e (m_mem ?s)" for u e
    using that L mon_invD(2) [OF inv] by auto
  ultimately show ?thesis using L by (intro mon_inv_free) simp_all
qed

lemma mon_inv_leave:
  assumes inv: "mon_inv d0 s" and pc: "m_pc s t = P_inside Leave" and l: "op_unlock ops t (m_mem s) = Some m"
  shows "mon_inv d0 (s\<lparr>m_mem := m, m_pc := (m_pc s)(t := P_outside)\<rparr>)" (is "mon_inv d0 ?s")
proof -
  note L = unlock_law [OF mon_invD(1) [OF inv] l]
  have eq: "(atom_pc_of ops s)(t := p, t := A_outside) = atom_pc_of ops ?s" for p
    by (auto simp: atom_pc_of_def fun_eq_iff L split: mon_pc.splits)
  have "complete d0 ?s"
  proof (rule started_done [OF mon_invD(7) [OF inv pc]])
    show "sect_spur t Leave (m_data s, (atom_pc_of ops s)(t := p)) (m_data ?s, atom_pc_of ops ?s)" for p
      using spur_leave [of t "m_data s" "(atom_pc_of ops s)(t := p)"] unfolding eq by simp
  qed
  moreover have "m_pc ?s u \<noteq> P_inside k'" for u k' using mon_invD(4) [OF inv pc] by auto
  moreover have "\<exists>k. m_pc ?s u = P_waits e k" if "op_asleep ops u e (m_mem ?s)" for u e
    using that L mon_invD(2) [OF inv, of u e] pc by auto
  ultimately show ?thesis using L by (intro mon_inv_free) simp_all
qed

lemma mon_inv_step:
  assumes "mon_inv d s" and "mon_step ops s t s'"
  shows "mon_inv d s'"
  using assms(2)
proof (cases rule: mon_step.cases)
  case (mon_enter m k)
  note L = lock_law [OF mon_invD(1) [OF assms(1)] mon_enter(3)]
  show ?thesis
    by (rule mon_inv_enter [OF assms(1), of t]) (use L mon_enter mon_invD(2) [OF assms(1), of t] in
        \<open>auto simp: atom_pc_of_simps\<close>)
next
  case (mon_woken c k m)
  note L = relock_law [OF mon_invD(1) [OF assms(1)] mon_woken(3)]
  show ?thesis
    by (rule mon_inv_enter [OF assms(1), of t]) (use L mon_woken mon_invD(2) [OF assms(1), of t] in
        \<open>auto simp: atom_pc_of_simps\<close>)
qed (use assms(1) in \<open>auto intro: mon_inv_act mon_inv_notify mon_inv_notify_all mon_inv_sleep mon_inv_leave mon_inv_spurious\<close>)

lemma mon_inv_init: "mon_init fresh d s \<Longrightarrow> mon_inv d s"
  using fresh_ok [of "m_mem s"]
  by (auto simp: mon_init_def mon_inv_def complete_def atom_pc_of_def fun_eq_iff intro!: reach_init simp: atom_init_def)

lemma mon_reach_inv: "reach (mon_init fresh d) (mon_step ops) s \<Longrightarrow> mon_inv d s"
  by (induction rule: reach.induct) (auto intro: mon_inv_init mon_inv_step)

text \<open>The two conclusions: one thread at a time, and sections as one step.\<close>

lemma mutual_exclusion:
  assumes "reach (mon_init fresh d) (mon_step ops) s" and "m_pc s t = P_inside k" and "m_pc s u = P_inside k'"
  shows "u = t"
  by (rule mon_invD(4) [OF mon_reach_inv [OF assms(1)] assms(2,3)])

lemma sections_atomic:
  assumes "reach (mon_init fresh d) (mon_step ops) s" and "owner (m_mem s) = None"
  shows "reach (atom_init d) atom_step (m_data s, atom_pc_of ops s)"
  by (rule mon_invD(6) [OF mon_reach_inv [OF assms(1)] assms(2), unfolded complete_def])

end

end
