(* ===== verification/GwPthread.thy ===== *)
theory GwPthread
  imports GwThread GwMonitor
begin

text \<open>
  core/thread.cc without CONFIG_CPP_THREAD: every function is one call of POSIX threads, modelled as the standard
  describes it, with the error numbers the calls may return as arguments. The functions of the two variants have the
  same names; here they begin with \<open>pt\<close>. The interpretation of the locale \<open>monitor\<close> is what lets the
  other theories treat the code under a mutex as one step.
\<close>

section \<open>Objects\<close>

text \<open>A mutex is its owner, at the address of the caller's \<open>mutex_t\<close>. \<open>pt_sleepers\<close>: the threads
  asleep in \<open>cond_wait\<close>, each with its condition variable and mutex.\<close>

record pthread_mem =
  pt_mutexes :: "tid option heap"
  pt_conds :: "unit heap"
  pt_sleepers :: "(ptr \<times> ptr) heap"
  pt_threads :: "thread_struct heap"

section \<open>Threads\<close>

definition pt_thread_create :: "int \<Rightarrow> pthread_mem \<Rightarrow> int \<times> ptr \<times> pthread_mem" where
  "pt_thread_create err s =
     (if err \<noteq> 0 then (err, NULL, s)
      else
        let ts = fresh_ptr (pt_threads s)
        in (0, ts, s\<lparr>pt_threads := heap_put ts \<lparr>joinable = True, thread_ret = None\<rparr> (pt_threads s)\<rparr>))"

text \<open>Joining waits for the result; joining a detached thread or one that was joined is undefined.\<close>

definition pt_thread_join :: "ptr \<Rightarrow> pthread_mem \<Rightarrow> (int \<times> ptr \<times> pthread_mem) call_result" where
  "pt_thread_join ts s =
     (case map_of (pt_threads s) ts of
        None \<Rightarrow> Undefined
      | Some th \<Rightarrow>
          if \<not> joinable th then Undefined
          else
            case thread_ret th of
              None \<Rightarrow> Blocks
            | Some r \<Rightarrow> Returns (0, r, s\<lparr>pt_threads := heap_free ts (pt_threads s)\<rparr>))"

text \<open>The library keeps a detached thread until it ends.\<close>

definition pt_thread_detach :: "ptr \<Rightarrow> pthread_mem \<Rightarrow> pthread_mem call_result" where
  "pt_thread_detach ts s =
     (case map_of (pt_threads s) ts of
        None \<Rightarrow> Undefined
      | Some th \<Rightarrow>
          if \<not> joinable th then Undefined
          else
            Returns (s\<lparr>pt_threads := (if thread_ret th = None then heap_put ts (th\<lparr>joinable := False\<rparr>) (pt_threads s)
              else heap_free ts (pt_threads s))\<rparr>))"

definition pt_thread_ends :: "ptr \<Rightarrow> ptr \<Rightarrow> pthread_mem \<Rightarrow> pthread_mem call_result" where
  "pt_thread_ends ts r s =
     (case map_of (pt_threads s) ts of
        None \<Rightarrow> Undefined
      | Some th \<Rightarrow>
          Returns (s\<lparr>pt_threads := (if joinable th then heap_put ts (th\<lparr>thread_ret := Some r\<rparr>) (pt_threads s)
            else heap_free ts (pt_threads s))\<rparr>))"

section \<open>Mutexes\<close>

definition pt_mutex_init :: "int \<Rightarrow> ptr \<Rightarrow> pthread_mem \<Rightarrow> int \<times> pthread_mem" where
  "pt_mutex_init err m s =
     (if err \<noteq> 0 then (err, s) else (0, s\<lparr>pt_mutexes := heap_put m None (pt_mutexes s)\<rparr>))"

definition pt_mutex_lock :: "tid \<Rightarrow> ptr \<Rightarrow> pthread_mem \<Rightarrow> (int \<times> pthread_mem) call_result" where
  "pt_mutex_lock t m s =
     (case map_of (pt_mutexes s) m of
        None \<Rightarrow> Undefined
      | Some None \<Rightarrow> Returns (0, s\<lparr>pt_mutexes := heap_put m (Some t) (pt_mutexes s)\<rparr>)
      | Some (Some t1) \<Rightarrow> if t1 = t then Undefined else Blocks)"

definition pt_mutex_unlock :: "tid \<Rightarrow> ptr \<Rightarrow> pthread_mem \<Rightarrow> (int \<times> pthread_mem) call_result" where
  "pt_mutex_unlock t m s =
     (if map_of (pt_mutexes s) m = Some (Some t)
      then Returns (0, s\<lparr>pt_mutexes := heap_put m None (pt_mutexes s)\<rparr>) else Undefined)"

definition pt_mutex_destroy :: "ptr \<Rightarrow> pthread_mem \<Rightarrow> pthread_mem call_result" where
  "pt_mutex_destroy m s =
     (if map_of (pt_mutexes s) m = Some None
      then Returns (s\<lparr>pt_mutexes := heap_free m (pt_mutexes s)\<rparr>) else Undefined)"

section \<open>Condition variables\<close>

definition pt_cond_init :: "int \<Rightarrow> ptr \<Rightarrow> pthread_mem \<Rightarrow> int \<times> pthread_mem" where
  "pt_cond_init err c s =
     (if err \<noteq> 0 then (err, s) else (0, s\<lparr>pt_conds := heap_put c () (pt_conds s)\<rparr>))"

text \<open>\<open>cond_wait\<close> in two halves: releasing the mutex and falling asleep are one step, and the call returns
  with the mutex locked again, after a signal or for no reason.\<close>

definition pt_cond_wait_sleep :: "tid \<Rightarrow> ptr \<Rightarrow> ptr \<Rightarrow> pthread_mem \<Rightarrow> pthread_mem call_result" where
  "pt_cond_wait_sleep t c m s =
     (case pt_mutex_unlock t m s of
        Returns (ret, s1) \<Rightarrow> Returns (s1\<lparr>pt_sleepers := heap_put t (c, m) (pt_sleepers s1)\<rparr>)
      | _ \<Rightarrow> Undefined)"

definition pt_wakes_up :: "tid \<Rightarrow> pthread_mem \<Rightarrow> pthread_mem" where
  "pt_wakes_up t s = s\<lparr>pt_sleepers := heap_free t (pt_sleepers s)\<rparr>"

definition pt_cond_wait_wake :: "tid \<Rightarrow> ptr \<Rightarrow> pthread_mem \<Rightarrow> (int \<times> pthread_mem) call_result" where
  "pt_cond_wait_wake t m s =
     (if map_of (pt_sleepers s) t \<noteq> None then Blocks else pt_mutex_lock t m s)"

text \<open>A signal wakes one of the sleepers, the choice is \<open>n\<close>.\<close>

definition pt_cond_signal :: "nat \<Rightarrow> ptr \<Rightarrow> pthread_mem \<Rightarrow> int \<times> pthread_mem" where
  "pt_cond_signal n c s =
     (case filter (\<lambda>(t, c1, m). c1 = c) (pt_sleepers s) of
        [] \<Rightarrow> (0, s)
      | us \<Rightarrow> (0, pt_wakes_up (fst (us ! (n mod length us))) s))"

definition pt_cond_broadcast :: "ptr \<Rightarrow> pthread_mem \<Rightarrow> int \<times> pthread_mem" where
  "pt_cond_broadcast c s = (0, s\<lparr>pt_sleepers := filter (\<lambda>(t, c1, m). c1 \<noteq> c) (pt_sleepers s)\<rparr>)"

definition pt_cond_destroy :: "ptr \<Rightarrow> pthread_mem \<Rightarrow> pthread_mem call_result" where
  "pt_cond_destroy c s =
     (if \<exists>x \<in> set (pt_sleepers s). fst (snd x) = c then Undefined
      else Returns (s\<lparr>pt_conds := heap_free c (pt_conds s)\<rparr>))"

section \<open>A monitor\<close>

definition result_of_call :: "(int \<times> 's) call_result \<Rightarrow> 's option" where
  "result_of_call r = (case r of Returns (ret, s) \<Rightarrow> Some s | _ \<Rightarrow> None)"

text \<open>The functions on the mutex \<open>m\<close>.\<close>

definition pt_ops :: "ptr \<Rightarrow> pthread_mem monitor_ops" where
  "pt_ops m =
     \<lparr>op_lock = (\<lambda>t s. result_of_call (pt_mutex_lock t m s)),
      op_unlock = (\<lambda>t s. result_of_call (pt_mutex_unlock t m s)),
      op_sleep = (\<lambda>t c s. case pt_cond_wait_sleep t c m s of Returns s1 \<Rightarrow> Some s1 | _ \<Rightarrow> None),
      op_relock = (\<lambda>t s. result_of_call (pt_cond_wait_wake t m s)),
      op_wake = pt_wakes_up,
      op_signal = (\<lambda>n c s. snd (pt_cond_signal n c s)),
      op_broadcast = (\<lambda>c s. snd (pt_cond_broadcast c s)),
      op_asleep = (\<lambda>t c s. \<exists>m. map_of (pt_sleepers s) t = Some (c, m))\<rparr>"

definition pt_owner :: "ptr \<Rightarrow> pthread_mem \<Rightarrow> tid option" where
  "pt_owner m s = (case map_of (pt_mutexes s) m of Some o1 \<Rightarrow> o1 | None \<Rightarrow> None)"

definition pt_ok :: "ptr \<Rightarrow> pthread_mem \<Rightarrow> bool" where
  "pt_ok m s = (map_of (pt_mutexes s) m \<noteq> None \<and> distinct (map fst (pt_sleepers s)))"

text \<open>After \<open>mutex_init\<close>, with nobody asleep.\<close>

definition pt_fresh :: "ptr \<Rightarrow> pthread_mem \<Rightarrow> bool" where
  "pt_fresh m s = (\<exists>s0. pt_mutex_init 0 m s0 = (0, s) \<and> pt_sleepers s0 = [])"

lemma distinct_heap_put: "distinct (map fst h) \<Longrightarrow> distinct (map fst (heap_put p x h))"
  and distinct_heap_free: "distinct (map fst h) \<Longrightarrow> distinct (map fst (heap_free p h))"
  by (auto simp: heap_put_def heap_free_def distinct_map_filter)

lemma map_of_filter_cond:
  "distinct (map fst h) \<Longrightarrow>
   map_of (filter (\<lambda>(t, c1, m). c1 \<noteq> c) h) t = (case map_of h t of Some (e, m) \<Rightarrow> if e = c then None else Some (e, m) | None \<Rightarrow> None)"
  by (induction h) (auto split: option.splits simp: map_of_eq_None_iff image_iff)

interpretation pt: monitor "pt_ops m" "pt_owner m" "pt_ok m" "pt_fresh m" for m
proof unfold_locales
  fix s s' :: pthread_mem and t c n
  show "pt_fresh m s \<Longrightarrow> pt_ok m s \<and> pt_owner m s = None \<and> \<not> op_asleep (pt_ops m) t c s"
    by (auto simp: pt_fresh_def pt_mutex_init_def pt_ok_def pt_owner_def pt_ops_def)
  show "pt_owner m s = None \<and> pt_owner m s' = Some t \<and> pt_ok m s' \<and>
      (\<forall>u c. op_asleep (pt_ops m) u c s' = op_asleep (pt_ops m) u c s)"
    if "pt_ok m s" "op_lock (pt_ops m) t s = Some s'"
    using that by (auto simp: pt_ops_def result_of_call_def pt_mutex_lock_def pt_owner_def pt_ok_def
      split: option.splits if_splits)
  show "pt_owner m s' = None \<and> pt_ok m s' \<and> (\<forall>u c. op_asleep (pt_ops m) u c s' = op_asleep (pt_ops m) u c s)"
    if "pt_ok m s" "op_unlock (pt_ops m) t s = Some s'"
    using that by (auto simp: pt_ops_def result_of_call_def pt_mutex_unlock_def pt_owner_def pt_ok_def
      split: if_splits)
  show "pt_owner m s' = None \<and> pt_ok m s' \<and>
      (\<forall>u e. op_asleep (pt_ops m) u e s' = (if u = t then e = c else op_asleep (pt_ops m) u e s))"
    if "pt_ok m s" "pt_owner m s = Some t" "op_sleep (pt_ops m) t c s = Some s'"
    using that by (auto simp: pt_ops_def pt_cond_wait_sleep_def pt_mutex_unlock_def pt_owner_def pt_ok_def
      distinct_heap_put split: if_splits)
  show "pt_owner m s = None \<and> pt_owner m s' = Some t \<and> pt_ok m s' \<and> (\<forall>e. \<not> op_asleep (pt_ops m) t e s) \<and>
      (\<forall>u c. op_asleep (pt_ops m) u c s' = op_asleep (pt_ops m) u c s)"
    if "pt_ok m s" "op_relock (pt_ops m) t s = Some s'"
    using that by (auto simp: pt_ops_def result_of_call_def pt_cond_wait_wake_def pt_mutex_lock_def pt_owner_def
      pt_ok_def split: option.splits if_splits)
  show "pt_owner m (op_wake (pt_ops m) t s) = pt_owner m s \<and> pt_ok m (op_wake (pt_ops m) t s) \<and>
      (\<forall>u e. op_asleep (pt_ops m) u e (op_wake (pt_ops m) t s) = (u \<noteq> t \<and> op_asleep (pt_ops m) u e s))"
    if "pt_ok m s"
    using that by (auto simp: pt_ops_def pt_wakes_up_def pt_owner_def pt_ok_def distinct_heap_free)
  show "(\<forall>u. \<not> op_asleep (pt_ops m) u c s) \<and> op_signal (pt_ops m) n c s = s \<or>
      (\<exists>u. op_asleep (pt_ops m) u c s \<and> op_signal (pt_ops m) n c s = op_wake (pt_ops m) u s)"
    if "pt_ok m s"
  proof (cases "filter (\<lambda>(t, c1, m). c1 = c) (pt_sleepers s)")
    case Nil
    then have "\<not> op_asleep (pt_ops m) u c s" for u
      by (auto simp: pt_ops_def filter_empty_conv dest!: map_of_SomeD)
    with Nil show ?thesis by (simp add: pt_ops_def pt_cond_signal_def)
  next
    case (Cons x xs)
    let ?us = "filter (\<lambda>(t, c1, m). c1 = c) (pt_sleepers s)" and ?x = "(x # xs) ! (n mod length (x # xs))"
    have "?x \<in> set (x # xs)" by (rule nth_mem) simp
    then have "?x \<in> set ?us" by (simp only: Cons)
    then obtain u m1 where x: "?x = (u, c, m1)" "(u, c, m1) \<in> set (pt_sleepers s)" by auto
    then have "map_of (pt_sleepers s) u = Some (c, m1)" using that by (simp add: pt_ok_def)
    moreover have "op_signal (pt_ops m) n c s = pt_wakes_up u s"
      using x(1) by (simp add: pt_ops_def pt_cond_signal_def Cons)
    ultimately show ?thesis by (auto simp: pt_ops_def)
  qed
  show "pt_owner m (op_broadcast (pt_ops m) c s) = pt_owner m s \<and> pt_ok m (op_broadcast (pt_ops m) c s) \<and>
      (\<forall>u e. op_asleep (pt_ops m) u e (op_broadcast (pt_ops m) c s) = (e \<noteq> c \<and> op_asleep (pt_ops m) u e s))"
    if "pt_ok m s"
    using that by (auto simp: pt_ops_def pt_cond_broadcast_def pt_owner_def pt_ok_def map_of_filter_cond
      distinct_map_filter simp del: map_of_eq_Some_iff split: option.splits if_splits)
qed

text \<open>
  C11: why a critical section is one step. Threads that take one mutex, act on the data it protects in any
  number of small steps, signal, broadcast, sleep in \<open>cond_wait\<close> and release it, in every interleaving and with
  spurious wake-ups: at most one of them is inside, and whenever nobody is, the data and the sleepers are
  what whole sections, each run without interruption, lead to.
\<close>

theorem critical_sections_atomic:
  assumes "reach (mon_init (pt_fresh m) d) (mon_step (pt_ops m)) s"
  shows "(\<forall>t k u k'. m_pc s t = P_inside k \<and> m_pc s u = P_inside k' \<longrightarrow> u = t) \<and>
    (pt_owner m (m_mem s) = None \<longrightarrow> reach (atom_init d) atom_step (m_data s, atom_pc_of (pt_ops m) s))"
  using pt.mutual_exclusion [OF assms] pt.sections_atomic [OF assms] by blast

text \<open>A thread that waits for a number to become 5 and one that sets it.\<close>

definition mem_at :: "tid option \<Rightarrow> (ptr \<times> ptr) heap \<Rightarrow> pthread_mem" where
  "mem_at own sl = \<lparr>pt_mutexes = [(4, own)], pt_conds = [(7, ())], pt_sleepers = sl, pt_threads = []\<rparr>"

lemma mem_at_calls:
  "op_lock (pt_ops 4) t (mem_at None sl) = Some (mem_at (Some t) sl)"
  "op_unlock (pt_ops 4) t (mem_at (Some t) sl) = Some (mem_at None sl)"
  "op_sleep (pt_ops 4) t c (mem_at (Some t) []) = Some (mem_at None [(t, (c, 4))])"
  "op_signal (pt_ops 4) 0 c (mem_at own [(t, (c, 4))]) = mem_at own []"
  by (simp_all add: pt_ops_def result_of_call_def pt_mutex_lock_def pt_mutex_unlock_def pt_cond_wait_sleep_def
      pt_cond_signal_def pt_wakes_up_def mem_at_def heap_put_def heap_free_def)

lemma wait_then_set:
  "\<exists>s. reach (mon_init (pt_fresh 4) 0) (mon_step (pt_ops 4)) s \<and> m_mem s = mem_at None [] \<and> m_data s = (5 :: nat) \<and>
     m_pc s = (\<lambda>t. if t = 3 then P_waits 7 Leave else P_outside)"
proof -
  let ?set = "Act (\<lambda>_. 5) (\<lambda>_. Notify 7 Leave)"
  let ?state = "\<lambda>m d p3 p2. \<lparr>m_mem = m, m_data = d, m_pc = (\<lambda>t. P_outside)(3 := p3, 2 := p2)\<rparr>"
  let ?sl = "[(3, (7, 4))]"
  let ?sA = "?state (mem_at None []) 0 P_outside P_outside"
  let ?sB = "?state (mem_at (Some 3) []) 0 (P_inside (Wait 7 Leave)) P_outside"
  let ?sC = "?state (mem_at None ?sl) 0 (P_waits 7 Leave) P_outside"
  let ?sD = "?state (mem_at (Some 2) ?sl) 0 (P_waits 7 Leave) (P_inside ?set)"
  let ?sE = "?state (mem_at (Some 2) ?sl) 5 (P_waits 7 Leave) (P_inside (Notify 7 Leave))"
  let ?sF = "?state (mem_at (Some 2) []) 5 (P_waits 7 Leave) (P_inside Leave)"
  let ?sG = "?state (mem_at None []) 5 (P_waits 7 Leave) P_outside"
  let ?reach = "reach (mon_init (pt_fresh 4) 0) (mon_step (pt_ops 4))"
  have pc: "(\<lambda>t. P_outside)(3 := P_outside, 2 := P_outside) = (\<lambda>t. P_outside)" by auto
  have "pt_fresh 4 (mem_at None [])"
    unfolding pt_fresh_def
    by (rule exI [of _ "\<lparr>pt_mutexes = [], pt_conds = [(7, ())], pt_sleepers = [], pt_threads = []\<rparr>"])
      (simp add: pt_mutex_init_def mem_at_def heap_put_def heap_free_def)
  then have 0: "?reach ?sA" by (intro reach_init) (simp add: mon_init_def pc)
  note simps = mem_at_calls fun_upd_twist [of "2 :: nat" 3]
  have 1: "?reach ?sB"
    using reach_next [OF 0, OF mon_enter [where t = 3 and s = ?sA and k = "Wait 7 Leave" and m = "mem_at (Some 3) []"]]
    by (simp add: simps)
  have 2: "?reach ?sC"
    using reach_next [OF 1, OF mon_sleep [where t = 3 and s = ?sB and m = "mem_at None ?sl"]] by (simp add: simps)
  have 3: "?reach ?sD"
    using reach_next [OF 2, OF mon_enter [where t = 2 and s = ?sC and k = ?set and m = "mem_at (Some 2) ?sl"]]
    by (simp add: simps)
  have 4: "?reach ?sE"
    using reach_next [OF 3, OF mon_act [where t = 2 and s = ?sD and d = 5 and f = "\<lambda>_. 5" and k = "\<lambda>_. Notify 7 Leave"]]
    by simp
  have 5: "?reach ?sF"
    using reach_next [OF 4, OF mon_notify [where t = 2 and s = ?sE and c = 7 and k = Leave and n = 0]] by (simp add: simps)
  have "?reach ?sG"
    using reach_next [OF 5, OF mon_leave [where t = 2 and s = ?sF and m = "mem_at None []"]] by (simp add: simps)
  then show ?thesis by (intro exI) (auto simp: fun_eq_iff)
qed

theorem critical_sections_atomic_witness:
  "reach (atom_init 0) atom_step (5 :: nat, \<lambda>t. if t = 3 then A_ready Leave else A_outside)"
proof -
  obtain s where s: "reach (mon_init (pt_fresh 4) 0) (mon_step (pt_ops 4)) s" "m_mem s = mem_at None []" "m_data s = (5 :: nat)"
    "m_pc s = (\<lambda>t. if t = 3 then P_waits 7 Leave else P_outside)"
    using wait_then_set by blast
  have "pt_owner 4 (m_mem s) = None" by (simp add: s(2) pt_owner_def mem_at_def)
  moreover have "atom_pc_of (pt_ops 4) s = (\<lambda>t. if t = 3 then A_ready Leave else A_outside)"
    by (auto simp: atom_pc_of_def s(2,4) pt_ops_def mem_at_def fun_eq_iff)
  ultimately show ?thesis using critical_sections_atomic [OF s(1)] s(3) by simp
qed

end
