(* ===== verification/BotSys.thy ===== *)
theory BotSys
  imports BotLife WorkqueueSys
begin

text \<open>
  The bot as a system of threads: the main thread in small steps, and the workers of the ring's pool. In the
  theory BotMain the workers act while the main thread sleeps; here they act between any two steps of it. A step of the main
  thread is one access to the ring: taking a slot, submitting one request, looking at one completion. A step of a worker is one
  critical section of the work queue, the execution of a work, or its deletion. A call that would sleep in \<open>queue_work\<close> is a step
  that cannot be taken yet; sleepers may wake up at any time. A crash of the main thread is a place it does not leave; a worker that
  crashes has no step.
\<close>

section \<open>The main thread\<close>

text \<open>What a slot of the submission queue is wanted for: handing over the update at an index, or the next poll.\<close>

datatype goal = Hand_over u32 | Ask

text \<open>
  \<open>M_top\<close>: the start of \<open>run_tg_bot_loop\<close>; \<open>M_submit h t\<close>: in its \<open>gw_ring_submit\<close>, with the local indices; \<open>M_wait\<close>,
  \<open>M_asleep\<close>: in \<open>gw_ring_wait_cqe\<close>; \<open>M_cqes h i ret\<close>: before the completion at \<open>h\<close>. The others are inside the processing of
  that completion: \<open>M_updates\<close> before the update at an index, \<open>M_get\<close> and \<open>M_retry\<close> before the two calls of \<open>gw_ring_get_sqe\<close>,
  \<open>M_refill\<close> in the \<open>gw_ring_submit\<close> between them. \<open>M_crash\<close> is a crash, with the place it happened at.
\<close>

datatype main_pc =
    M_top
  | M_submit u32 u32
  | M_wait
  | M_asleep
  | M_cqes u32 u32 int
  | M_updates u32 u32 int u32
  | M_get u32 u32 int goal
  | M_refill u32 u32 int goal u32 u32
  | M_retry u32 u32 int goal
  | M_exit int
  | M_crash main_pc

fun crashed :: "main_pc \<Rightarrow> bool" where
  "crashed (M_crash pc) = True"
| "crashed pc = False"

text \<open>The request for a goal, what writing it does, and where the main thread goes on.\<close>

definition goal_request :: "goal \<Rightarrow> ('j, 'r) tg_bot_ctx \<Rightarrow> gw_ring_sqe" where
  "goal_request g ctx =
     (case g of
        Hand_over j \<Rightarrow> handle_request (update_addr (ctx_updates ctx) j)
      | Ask \<Rightarrow> poll_request (ctx_max_update_id ctx + 1))"

definition write_goal :: "goal \<Rightarrow> nat \<Rightarrow> ('j, 'r) tg_bot_ctx \<Rightarrow> ('j, 'r) tg_bot_ctx" where
  "write_goal g sqe ctx =
     (case g of
        Hand_over j \<Rightarrow> on_ring (write_sqe sqe (\<lambda>s.
          (gw_ring_prep_tg_module_handle CTX (update_addr (ctx_updates ctx) j) s)\<lparr>sqe_user_data := 0\<rparr>)) ctx
      | Ask \<Rightarrow>
          let ctx2 = ctx\<lparr>ctx_updates := NULL\<rparr>
          in on_ring (write_sqe sqe (\<lambda>s.
               (gw_ring_prep_tg_get_updates CTX_TCTX CTX_UPDATES (ctx_max_update_id ctx2 + 1) s)
               \<lparr>sqe_user_data := ucast TG_API_GET_UPDATES\<rparr>)) ctx2)"

definition after_goal :: "u32 \<Rightarrow> u32 \<Rightarrow> int \<Rightarrow> goal \<Rightarrow> ('j, 'r) tg_bot_ctx \<Rightarrow> main_pc \<times> ('j, 'r) tg_bot_ctx" where
  "after_goal h i res g ctx =
     (case g of
        Hand_over j \<Rightarrow> (M_updates h i res (j + 1), ctx)
      | Ask \<Rightarrow>
          if res \<noteq> 0 then (M_exit res, on_ring (gw_ring_cq_advance (i + 1)) ctx)
          else (M_cqes (h + 1) (i + 1) 0, ctx))"

definition got_sqe ::
    "u32 \<Rightarrow> u32 \<Rightarrow> int \<Rightarrow> goal \<Rightarrow> nat \<Rightarrow> ('j, 'r) tg_bot_ctx \<Rightarrow> main_pc \<times> ('j, 'r) tg_bot_ctx \<times> gw_ring_sqe list" where
  "got_sqe h i res g sqe ctx =
     (let (pc, ctx1) = after_goal h i res g (write_goal g sqe ctx) in (pc, ctx1, [goal_request g ctx]))"

text \<open>The local indices while requests are being submitted, and the next request taken.\<close>

fun submitting :: "main_pc \<Rightarrow> (u32 \<times> u32) option" where
  "submitting (M_submit h t) = Some (h, t)"
| "submitting (M_refill h i res g h1 t) = Some (h1, t)"
| "submitting (M_crash pc) = submitting pc"
| "submitting pc = None"

fun one_submitted :: "main_pc \<Rightarrow> main_pc" where
  "one_submitted (M_submit h t) = M_submit (h + 1) t"
| "one_submitted (M_refill h i res g h1 t) = M_refill h i res g (h1 + 1) t"
| "one_submitted (M_crash pc) = M_crash (one_submitted pc)"
| "one_submitted pc = pc"

text \<open>A step without a submission: where it leads, and the requests written. \<open>None\<close>: there is no such step.\<close>

fun main_local ::
    "('j, 'r) json_ops \<Rightarrow> main_pc \<Rightarrow> ('j, 'r) tg_bot_ctx \<Rightarrow>
     (main_pc \<times> ('j, 'r) tg_bot_ctx \<times> gw_ring_sqe list) option" where
  "main_local js M_top ctx =
     Some (if ring_should_stop (ctx_ring ctx) then M_exit (- EOWNERDEAD)
           else M_submit (sq_head (ctx_ring ctx)) (sq_tail (ctx_ring ctx)), ctx, [])"
| "main_local js (M_submit h t) ctx =
     (if h \<noteq> t then None else Some (M_wait, on_ring (\<lambda>r. r\<lparr>sq_head := h\<rparr>) ctx, []))"
| "main_local js M_wait ctx =
     (case wait_cqe_pass (ctx_ring ctx) of
        (Some (ret, sl), r) \<Rightarrow>
          Some (if ret < 0 then M_exit ret else M_cqes (cq_head r) 0 ret, on_ring (\<lambda>_. r) ctx, [])
      | (None, r) \<Rightarrow> Some (M_asleep, on_ring (\<lambda>_. r) ctx, []))"
| "main_local js M_asleep ctx = Some (M_wait, on_ring wait_cqe_woken ctx, [])"
| "main_local js (M_cqes h i ret) ctx =
     (case gw_ring_load_head_cqe h (ctx_ring ctx) of
        None \<Rightarrow> Some (if ret \<noteq> 0 then M_exit ret else M_top, on_ring (gw_ring_cq_advance i) ctx, [])
      | Some cqe \<Rightarrow>
          if \<not> is_poll cqe then Some (M_cqes (h + 1) (i + 1) 0, ctx, [])
          else
            let res = poll_res cqe
            in Some (if res < 0 then M_get h i 0 Ask
                     else if ctx_updates ctx = NULL then M_get h i res Ask else M_updates h i res 0, ctx, []))"
| "main_local js (M_updates h i res j) ctx =
     (case map_of (arrays (ctx_mem ctx)) (ctx_updates ctx) of
        None \<Rightarrow> Some (M_crash (M_updates h i res j), ctx, [])
      | Some ups \<Rightarrow>
          if unat j < updates_len ups
          then Some (M_get h i res (Hand_over j), noted js [updates_arr ups ! unat j] ctx, [])
          else Some (M_get h i res Ask, ctx, []))"
| "main_local js (M_get h i res g) ctx =
     (case ctx_get_sqe ctx of
        (Some sqe, ctx1) \<Rightarrow> Some (got_sqe h i res g sqe ctx1)
      | (None, ctx1) \<Rightarrow>
          Some (if ring_should_stop (ctx_ring ctx1) then M_retry h i res g
                else M_refill h i res g (sq_head (ctx_ring ctx1)) (sq_tail (ctx_ring ctx1)), ctx1, []))"
| "main_local js (M_refill h i res g h1 t) ctx =
     (if h1 \<noteq> t then None else Some (M_retry h i res g, on_ring (\<lambda>r. r\<lparr>sq_head := h1\<rparr>) ctx, []))"
| "main_local js (M_retry h i res g) ctx =
     (case ctx_get_sqe ctx of
        (Some sqe, ctx1) \<Rightarrow> Some (got_sqe h i res g sqe ctx1)
      | (None, ctx1) \<Rightarrow> Some (M_crash (M_retry h i res g), ctx1, []))"
| "main_local js (M_exit ret) ctx = None"
| "main_local js (M_crash pc) ctx = None"

section \<open>The system\<close>

text \<open>A worker is where the theory WorkqueueSys has it, or executes or deletes the work it took; at
  \<open>W_pool (Running w)\<close> it is about to take the lock again.\<close>

datatype bot_worker = W_pool worker_pc | W_exec work_struct | W_delete work_struct

fun worker_of_turn :: "worker_turn \<Rightarrow> bot_worker" where
  "worker_of_turn (Turn_runs w) = W_exec w"
| "worker_of_turn turn = W_pool (pc_of_turn turn)"

text \<open>The histories: the requests written, executed, and dropped by a submission, and those executed of which the completion
  found no room.\<close>

record ('j, 'r) bot_sys =
  bs_world :: "('j, 'r) bot_world"
  bs_main :: main_pc
  bs_workers :: "bot_worker list"
  bs_made :: "gw_ring_sqe list"
  bs_done :: "gw_ring_sqe list"
  bs_dropped :: "gw_ring_sqe list"
  bs_unposted :: "gw_ring_sqe list"

abbreviation bs_ctx :: "('j, 'r) bot_sys \<Rightarrow> ('j, 'r) tg_bot_ctx" where
  "bs_ctx s \<equiv> fst (bs_world s)"

abbreviation bs_ring :: "('j, 'r) bot_sys \<Rightarrow> gw_ring" where
  "bs_ring s \<equiv> ctx_ring (bs_ctx s)"

abbreviation bs_datas :: "('j, 'r) bot_sys \<Rightarrow> gw_ring_sqe heap" where
  "bs_datas s \<equiv> ctx_datas (bs_ctx s)"

definition set_ctx :: "('j, 'r) tg_bot_ctx \<Rightarrow> ('j, 'r) bot_sys \<Rightarrow> ('j, 'r) bot_sys" where
  "set_ctx ctx s = s\<lparr>bs_world := (ctx, snd (bs_world s))\<rparr>"

text \<open>The completion of the request found room.\<close>

definition posts :: "gw_ring_sqe \<Rightarrow> gw_ring \<Rightarrow> bool" where
  "posts sqe r = fst (post_cqe sqe 0 r)"

datatype actor = Main | Worker nat

inductive bot_step :: "('j, 'r) json_ops \<Rightarrow> ('j, 'r) bot_sys \<Rightarrow> actor \<Rightarrow> ('j, 'r) bot_sys \<Rightarrow> bool"
  for js :: "('j, 'r) json_ops" where
  bot_local: "main_local js (bs_main s) (bs_ctx s) = Some (pc, ctx, made) \<Longrightarrow>
     bot_step js s Main ((set_ctx ctx s)\<lparr>bs_main := pc, bs_made := bs_made s @ made\<rparr>)"
| bot_submit: "submitting (bs_main s) = Some (h, t) \<Longrightarrow> h \<noteq> t \<Longrightarrow> \<not> crashed (bs_main s) \<Longrightarrow>
     sqe = sqes (bs_ring s) ! slot h (sq_mask (bs_ring s)) \<Longrightarrow> io_others e = [] \<Longrightarrow>
     submit_sqe sqe (e, snd (ctx_io (bs_ctx s))) = Some (ok, io) \<Longrightarrow>
     free_dropped js sqe ok (ctx_mem (bs_ctx s)) = Some m \<Longrightarrow>
     bot_step js s Main ((set_ctx ((bs_ctx s)\<lparr>ctx_io := io, ctx_mem := m\<rparr>) s)
       \<lparr>bs_main := one_submitted (bs_main s), bs_dropped := bs_dropped s @ (if ok then [] else [sqe])\<rparr>)"
| bot_submit_crash: "submitting (bs_main s) = Some (h, t) \<Longrightarrow> h \<noteq> t \<Longrightarrow> \<not> crashed (bs_main s) \<Longrightarrow>
     sqe = sqes (bs_ring s) ! slot h (sq_mask (bs_ring s)) \<Longrightarrow> io_others e = [] \<Longrightarrow>
     submit_sqe sqe (e, snd (ctx_io (bs_ctx s))) = Some (ok, io) \<Longrightarrow>
     free_dropped js sqe ok (ctx_mem (bs_ctx s)) = None \<Longrightarrow>
     bot_step js s Main ((set_ctx ((bs_ctx s)\<lparr>ctx_io := io\<rparr>) s)
       \<lparr>bs_main := M_crash (one_submitted (bs_main s)), bs_dropped := bs_dropped s @ (if ok then [] else [sqe])\<rparr>)"
| bot_section: "i < length (bs_workers s) \<Longrightarrow> bs_workers s ! i = W_pool pc \<Longrightarrow> runnable pc \<Longrightarrow>
     worker_section pc (ring_wq (bs_ring s)) = (turn, q, ev) \<Longrightarrow>
     bot_step js s (Worker i) ((set_ctx (on_ring (\<lambda>r. r\<lparr>ring_wq := q\<rparr>) (bs_ctx s)) s)
       \<lparr>bs_workers := (bs_workers s)[i := worker_of_turn turn]\<rparr>)"
| bot_wake: "i < length (bs_workers s) \<Longrightarrow> bs_workers s ! i = W_pool pc \<Longrightarrow>
     pc = Asleep \<and> pc' = Woken \<or> pc = Not_created \<and> pc' = Starting \<Longrightarrow>
     bot_step js s (Worker i) (s\<lparr>bs_workers := (bs_workers s)[i := W_pool pc']\<rparr>)"
| bot_exec: "i < length (bs_workers s) \<Longrightarrow> bs_workers s ! i = W_exec w \<Longrightarrow>
     map_of (bs_datas s) (arg w) = Some sqe \<Longrightarrow> worker_exec js net (arg w) (bs_world s) = Some world \<Longrightarrow>
     bot_step js s (Worker i) (s\<lparr>bs_world := world, bs_workers := (bs_workers s)[i := W_delete w],
       bs_done := bs_done s @ [sqe],
       bs_unposted := bs_unposted s @ (if posts sqe (bs_ring s) then [] else [sqe])\<rparr>)"
| bot_delete: "i < length (bs_workers s) \<Longrightarrow> bs_workers s ! i = W_delete w \<Longrightarrow>
     worker_delete js (arg w) (bs_ctx s) = Some ctx \<Longrightarrow>
     bot_step js s (Worker i) ((set_ctx ctx s)\<lparr>bs_workers := (bs_workers s)[i := W_pool (Running w)]\<rparr>)"

text \<open>The bot after the first \<open>arm_update_sqe\<close> of \<open>run_tg_bot\<close> on a fresh ring; some of the workers exist.\<close>

definition fresh_bot :: "('j, 'r) tg_bot_ctx \<Rightarrow> bool" where
  "fresh_bot ctx =
     (ring_ok (ctx_ring ctx) \<and> sq_head (ctx_ring ctx) = 0 \<and> sq_tail (ctx_ring ctx) = 0 \<and>
      cq_contents (ctx_ring ctx) = [] \<and> wq_contents (ring_wq (ctx_ring ctx)) = [] \<and> ctx_datas ctx = [])"

definition bot_init :: "('j, 'r) json_ops \<Rightarrow> ('j, 'r) bot_sys \<Rightarrow> bool" where
  "bot_init js s = (\<exists>ctx0 ctx ws. fresh_bot ctx0 \<and> arm_update_sqe js ctx0 = Some (Done ctx) \<and>
     set ws \<subseteq> {W_pool Not_created, W_pool Starting} \<and>
     s = \<lparr>bs_world = (ctx, []), bs_main = M_top, bs_workers = ws,
          bs_made = [poll_request (ctx_max_update_id ctx0 + 1)], bs_done = [], bs_dropped = [], bs_unposted = []\<rparr>)"

section \<open>Where a request is\<close>

text \<open>The requests not yet taken by a submission: from the local head on, while one is under way.\<close>

definition sq_view :: "main_pc \<Rightarrow> gw_ring \<Rightarrow> gw_ring" where
  "sq_view pc r = (case submitting pc of Some (h, t) \<Rightarrow> r\<lparr>sq_head := h\<rparr> | None \<Rightarrow> r)"

fun at_cqe :: "main_pc \<Rightarrow> (u32 \<times> u32) option" where
  "at_cqe (M_cqes h i ret) = Some (h, i)"
| "at_cqe (M_updates h i res j) = Some (h, i)"
| "at_cqe (M_get h i res g) = Some (h, i)"
| "at_cqe (M_refill h i res g h1 t) = Some (h, i)"
| "at_cqe (M_retry h i res g) = Some (h, i)"
| "at_cqe (M_crash pc) = at_cqe pc"
| "at_cqe pc = None"

text \<open>The completions not yet processed.\<close>

definition cq_view :: "main_pc \<Rightarrow> gw_ring \<Rightarrow> gw_ring_cqe list" where
  "cq_view pc r = circ_contents (cqes r) (cq_mask r)
     (case at_cqe pc of Some (h, i) \<Rightarrow> h | None \<Rightarrow> cq_head r) (cq_tail r)"

fun exec_of :: "bot_worker \<Rightarrow> ptr multiset" where
  "exec_of (W_exec w) = {#arg w#}"
| "exec_of w = {#}"

fun delete_of :: "bot_worker \<Rightarrow> ptr multiset" where
  "delete_of (W_delete w) = {#arg w#}"
| "delete_of w = {#}"

text \<open>The blocks of the requests that wait in the pool or are in execution, and of those about to be deleted.\<close>

definition live_blocks :: "('j, 'r) bot_sys \<Rightarrow> ptr multiset" where
  "live_blocks s = image_mset arg (mset (wq_contents (ring_wq (bs_ring s)))) + sum_list (map exec_of (bs_workers s))"

definition dead_blocks :: "('j, 'r) bot_sys \<Rightarrow> ptr multiset" where
  "dead_blocks s = sum_list (map delete_of (bs_workers s))"

definition in_pool :: "('j, 'r) bot_sys \<Rightarrow> gw_ring_sqe multiset" where
  "in_pool s = image_mset (\<lambda>d. the (map_of (bs_datas s) d)) (live_blocks s)"

definition in_queue :: "('j, 'r) bot_sys \<Rightarrow> gw_ring_sqe multiset" where
  "in_queue s = mset (sq_contents (sq_view (bs_main s) (bs_ring s)))"

end
