(* ===== verification/BotInv.thy ===== *)
theory BotInv
  imports BotSys
begin

text \<open>
  What holds in every state of the system of theory BotSys, whatever the order of its steps: where each request is, that one
  request for updates is under way, and who owns the blocks. The invariant has a part for the ring under the main thread's
  local indices, one for the blocks, and two balances; each rule of the step relation has a lemma.
\<close>

section \<open>What the main thread's steps do to the queues\<close>

text \<open>A request for updates, and a completion it may become.\<close>

definition is_poll_sqe :: "gw_ring_sqe \<Rightarrow> bool" where
  "is_poll_sqe sqe = (sqe_op sqe = GW_RING_OP_TG_API_CALL \<and> sqe_user_data sqe = ucast TG_API_GET_UPDATES)"

lemma is_poll_cqe_of [simp]: "is_poll (cqe_of sqe res) = is_poll_sqe sqe"
  by (simp add: is_poll_def is_poll_sqe_def cqe_of_def)

text \<open>A request that a worker can be given; the bot makes no call of the API but for updates.\<close>

definition request_ok :: "gw_ring_sqe \<Rightarrow> bool" where
  "request_ok sqe = (sqe_ok sqe \<and> is_punted sqe \<and> (sqe_op sqe = GW_RING_OP_TG_API_CALL \<longrightarrow> is_poll_sqe sqe))"

lemma poll_request_facts: "request_ok (poll_request k)" "is_poll_sqe (poll_request k)"
proof -
  show "is_poll_sqe (poll_request k)" by (simp add: is_poll_sqe_def) (simp add: poll_request_def)
  then show "request_ok (poll_request k)" by (simp add: request_ok_def sqe_ok_def is_punted_def ring_op_defs)
qed

lemma handle_request_facts: "request_ok (handle_request a)" "\<not> is_poll_sqe (handle_request a)"
  by (simp_all add: request_ok_def sqe_ok_def is_punted_def is_poll_sqe_def ring_op_defs)

lemma goal_request_facts: "request_ok (goal_request g ctx)" "is_poll_sqe (goal_request g ctx) = (g = Ask)"
  by (cases g; simp add: goal_request_def poll_request_facts handle_request_facts)+

text \<open>The processing of a poll's completion has begun.\<close>

fun at_poll :: "main_pc \<Rightarrow> bool" where
  "at_poll (M_updates h i res j) = True"
| "at_poll (M_get h i res g) = True"
| "at_poll (M_refill h i res g h1 t) = True"
| "at_poll (M_retry h i res g) = True"
| "at_poll (M_crash pc) = at_poll pc"
| "at_poll pc = False"

definition ring_inv :: "main_pc \<Rightarrow> gw_ring \<Rightarrow> bool" where
  "ring_inv pc r =
     (cq_ok r \<and> sq_ok (sq_view pc r) \<and> (\<forall>h t. submitting pc = Some (h, t) \<longrightarrow> t = sq_tail r) \<and>
      (\<forall>h i. at_cqe pc = Some (h, i) \<longrightarrow>
         h = cq_head r + i \<and> unat (cq_tail r - h) \<le> unat (cq_tail r - cq_head r)) \<and>
      (at_poll pc \<longrightarrow> (\<exists>c cs. cq_view pc r = c # cs \<and> is_poll c)))"

text \<open>The queues before and after a step that makes the requests \<open>made\<close>.\<close>

definition main_effect :: "main_pc \<Rightarrow> gw_ring \<Rightarrow> main_pc \<Rightarrow> gw_ring \<Rightarrow> gw_ring_sqe list \<Rightarrow> bool" where
  "main_effect pc r pc' r' made =
     (ring_inv pc' r' \<and> ring_wq r' = ring_wq r \<and>
      sq_contents (sq_view pc' r') = sq_contents (sq_view pc r) @ made \<and>
      (\<exists>taken. cq_view pc r = taken @ cq_view pc' r' \<and>
         length (filter is_poll taken) = length (filter is_poll_sqe made)) \<and>
      list_all request_ok made)"

lemma main_effect_quiet:
  assumes "ring_inv pc' r'" and "ring_wq r' = ring_wq r" and "sq_contents (sq_view pc' r') = sq_contents (sq_view pc r)"
    and "cq_view pc' r' = cq_view pc r"
  shows "main_effect pc r pc' r' []"
  using assms by (simp add: main_effect_def)

lemma sq_view_simps [simp]:
  "submitting pc = None \<Longrightarrow> sq_view pc r = r" "submitting pc = Some (h, t) \<Longrightarrow> sq_view pc r = r\<lparr>sq_head := h\<rparr>"
  by (simp_all add: sq_view_def)

lemma cq_view_idle: "at_cqe pc = None \<Longrightarrow> cq_view pc r = cq_contents r"
  by (simp add: cq_view_def cq_contents_def)

lemma cq_view_at: "at_cqe pc = Some (h, i) \<Longrightarrow> cq_view pc r = circ_contents (cqes r) (cq_mask r) h (cq_tail r)"
  by (simp add: cq_view_def)

lemma cq_view_pop:
  assumes "at_cqe pc = Some (h, i)" and "h \<noteq> cq_tail r"
  shows "cq_view pc r = cqes r ! slot h (cq_mask r) # circ_contents (cqes r) (cq_mask r) (h + 1) (cq_tail r)"
  unfolding cq_view_at [OF assms(1)] by (rule circ_contents_pop [OF assms(2)])

text \<open>Moving over the completion at \<open>h\<close>.\<close>

lemma next_cqe:
  assumes "ring_inv pc r" and "at_cqe pc = Some (h, i)" and "h \<noteq> cq_tail r"
  shows "h + 1 = cq_head r + (i + 1)" and "unat (cq_tail r - (h + 1)) \<le> unat (cq_tail r - cq_head r)"
proof -
  have "h = cq_head r + i" and le: "unat (cq_tail r - h) \<le> unat (cq_tail r - cq_head r)"
    using assms(1,2) unfolding ring_inv_def by blast+
  then show "h + 1 = cq_head r + (i + 1)" by simp
  show "unat (cq_tail r - (h + 1)) \<le> unat (cq_tail r - cq_head r)"
    using le unat_diff_pop [OF assms(3)] by linarith
qed

lemma at_poll_cqe: 
  assumes "ring_inv pc r" and "at_poll pc" and "at_cqe pc = Some (h, i)"
  shows "h \<noteq> cq_tail r" and "is_poll (cqes r ! slot h (cq_mask r))"
proof -
  obtain c cs where c: "cq_view pc r = c # cs" "is_poll c" using assms(1,2) by (auto simp: ring_inv_def)
  then show n: "h \<noteq> cq_tail r" using cq_view_at [OF assms(3), of r] by (auto simp: circ_contents_Nil_iff)
  from cq_view_pop [OF assms(3) n] c show "is_poll (cqes r ! slot h (cq_mask r))" by simp
qed

text \<open>A request written into the slot taken at the tail.\<close>

lemma write_goal_ring:
  "ctx_ring (write_goal g (slot (sq_tail (ctx_ring ctx)) (sq_mask (ctx_ring ctx)))
     (on_ring (\<lambda>_. (ctx_ring ctx)\<lparr>sq_tail := sq_tail (ctx_ring ctx) + 1\<rparr>) ctx)) =
   sq_push (goal_request g ctx) (ctx_ring ctx)"
proof (cases g)
  case (Hand_over j)
  have "(gw_ring_prep_tg_module_handle CTX up s)\<lparr>sqe_user_data := 0\<rparr> = handle_request up" for s up
    by (simp add: gw_ring_prep_tg_module_handle_def handle_request_def)
  with Hand_over show ?thesis by (simp add: write_goal_def goal_request_def write_got_sqe)
next
  case Ask
  have "(gw_ring_prep_tg_get_updates CTX_TCTX CTX_UPDATES k s)\<lparr>sqe_user_data := ucast TG_API_GET_UPDATES\<rparr> =
      poll_request k" for k s
    by (simp add: gw_ring_prep_tg_get_updates_def poll_request_def)
  with Ask show ?thesis by (simp add: write_goal_def goal_request_def write_got_sqe)
qed

lemma sq_push_frame [simp]:
  "cqes (sq_push x r) = cqes r" "cq_mask (sq_push x r) = cq_mask r" "cq_head (sq_push x r) = cq_head r"
  "cq_tail (sq_push x r) = cq_tail r" "cq_view pc (sq_push x r) = cq_view pc r"
  by (simp_all add: sq_push_def cq_view_def split: option.splits)

lemma advance_cq_frame [simp]:
  "cqes (gw_ring_cq_advance n r) = cqes r" "cq_mask (gw_ring_cq_advance n r) = cq_mask r"
  "cq_head (gw_ring_cq_advance n r) = cq_head r + n" "cq_tail (gw_ring_cq_advance n r) = cq_tail r"
  "sq_ok (gw_ring_cq_advance n r) = sq_ok r" "sq_contents (gw_ring_cq_advance n r) = sq_contents r"
  by (simp_all add: gw_ring_cq_advance_def sq_ok_def sq_contents_def)

lemma cq_ok_advance:
  "cq_ok r \<Longrightarrow> unat (cq_tail r - (cq_head r + n)) \<le> unat (cq_tail r - cq_head r) \<Longrightarrow> cq_ok (gw_ring_cq_advance n r)"
  by (simp add: cq_ok_def)

lemma got_sqe_effect:
  assumes inv: "ring_inv pc r" and pc: "submitting pc = None" "at_cqe pc = Some (h, i)" "at_poll pc"
    and r: "ctx_ring ctx = r" and free: "\<not> sq_blocked r"
    and got: "got_sqe h i res g (slot (sq_tail r) (sq_mask r)) (on_ring (\<lambda>_. r\<lparr>sq_tail := sq_tail r + 1\<rparr>) ctx) =
      (pc', ctx', made)"
  shows "main_effect pc r pc' (ctx_ring ctx') made \<and> ctx_datas ctx' = ctx_datas ctx"
proof -
  let ?req = "goal_request g ctx"
  let ?ctx1 = "write_goal g (slot (sq_tail r) (sq_mask r)) (on_ring (\<lambda>_. r\<lparr>sq_tail := sq_tail r + 1\<rparr>) ctx)"
  have ok: "cq_ok r" "sq_ok r" using inv pc by (simp_all add: ring_inv_def)
  have at: "h = cq_head r + i" "unat (cq_tail r - h) \<le> unat (cq_tail r - cq_head r)"
    using inv pc unfolding ring_inv_def by blast+
  note poll = at_poll_cqe [OF inv pc(3,2)] and nxt = next_cqe [OF inv pc(2)]
  have "unat (sq_tail r - sq_head r) < length (sqes r)"
    using ok(2) free by (auto simp: sq_ok_def sq_blocked_def)
  note push = sq_push_ok [OF ok(2) this, of ?req]
  have r1: "ctx_ring ?ctx1 = sq_push ?req r" using write_goal_ring [of g ctx] by (simp add: r)
  have d1: "ctx_datas ?ctx1 = ctx_datas ctx"
    by (cases g) (simp_all add: write_goal_def Let_def)
  have req: "goal_request g' (on_ring f ctx) = goal_request g' ctx" for f g' by (simp add: goal_request_def split: goal.splits)
  note view = cq_view_pop [OF pc(2) poll(1)]
  show ?thesis
  proof (cases g)
    case (Hand_over j)
    then have eqs: "pc' = M_updates h i res (j + 1)" "ctx' = ?ctx1" "made = [?req]"
      using got by (simp_all add: got_sqe_def after_goal_def req)
    have "cq_view pc' (sq_push ?req r) = cq_view pc r" using pc(2) by (simp add: eqs(1) cq_view_def)
    moreover have "ring_inv pc' (sq_push ?req r)"
      using ok(1) push at poll view calculation by (simp add: ring_inv_def eqs(1))
    moreover have "g \<noteq> Ask" using Hand_over by simp
    ultimately show ?thesis
      using push goal_request_facts [of g ctx] pc(1) by (simp add: main_effect_def r1 d1 eqs)
  next
    case Ask
    show ?thesis
    proof (cases "res = 0")
      case True
      with Ask have eqs: "pc' = M_cqes (h + 1) (i + 1) 0" "ctx' = ?ctx1" "made = [?req]"
        using got by (simp_all add: got_sqe_def after_goal_def req)
      have "ring_inv pc' (sq_push ?req r)"
        using ok(1) push nxt poll(1) by (simp add: ring_inv_def eqs(1))
      moreover have "cq_view pc r = [cqes r ! slot h (cq_mask r)] @ cq_view pc' (sq_push ?req r)"
        using cq_view_at [of pc' "h + 1" "i + 1"] by (simp add: view eqs(1))
      ultimately show ?thesis
        using push Ask goal_request_facts [of g ctx] poll(2) pc(1)
        unfolding main_effect_def r1 d1 eqs by (intro conjI exI [of _ "[cqes r ! slot h (cq_mask r)]"]) simp_all
    next
      case False
      with Ask have eqs: "pc' = M_exit res" "ctx' = on_ring (gw_ring_cq_advance (i + 1)) ?ctx1" "made = [?req]"
        using got by (simp_all add: got_sqe_def after_goal_def req)
      let ?r = "gw_ring_cq_advance (i + 1) (sq_push ?req r)"
      have ctx': "ctx_ring ctx' = ?r" "ctx_datas ctx' = ctx_datas ctx" by (simp_all add: eqs(2) r1 d1)
      have hd: "cq_head r + (i + 1) = h + 1" using nxt(1) poll(1) by simp
      have "cq_ok ?r" by (rule cq_ok_advance) (use ok(1) nxt(2) poll(1) in \<open>simp_all add: hd\<close>)
      then have "ring_inv pc' ?r" "cq_view pc r = [cqes r ! slot h (cq_mask r)] @ cq_view pc' ?r"
        using push by (simp_all add: ring_inv_def view eqs(1) cq_view_idle cq_contents_def hd)
      then show ?thesis
        using push Ask goal_request_facts [of g ctx] poll(2) pc(1)
        unfolding main_effect_def ctx'
        by (intro conjI exI [of _ "[cqes r ! slot h (cq_mask r)]"]) (simp_all add: eqs(1,3))
    qed
  qed
qed

lemma free_slot:
  assumes "sq_ok (ctx_ring ctx)" and "ctx_get_sqe ctx = (so, ctx1)"
  shows "if sq_blocked (ctx_ring ctx) then so = None \<and> ctx1 = ctx
    else so = Some (slot (sq_tail (ctx_ring ctx)) (sq_mask (ctx_ring ctx))) \<and>
      ctx1 = on_ring (\<lambda>_. (ctx_ring ctx)\<lparr>sq_tail := sq_tail (ctx_ring ctx) + 1\<rparr>) ctx"
  using assms get_sqe_eq [OF assms(1)] by (auto simp: ctx_get_sqe_def on_ring_def ctx_ring_def)

lemma cond_flag_frame [simp]:
  "cq_ok (r\<lparr>wait_cqe_cond_flag := f\<rparr>) = cq_ok r" "sq_ok (r\<lparr>wait_cqe_cond_flag := f\<rparr>) = sq_ok r"
  by (simp_all add: cq_ok_def sq_ok_def)

text \<open>While submitting, only the local head counts; storing it changes nothing.\<close>

lemma submitted_effect:
  assumes "ring_inv pc r" and "submitting pc = Some (h, t)" and "submitting pc' = None"
    and "at_cqe pc' = at_cqe pc" and "at_poll pc' \<Longrightarrow> at_poll pc"
  shows "main_effect pc r pc' (r\<lparr>sq_head := h\<rparr>) []"
proof -
  have "cq_view pc' (r\<lparr>sq_head := h\<rparr>) = cq_view pc r"
    using assms(4) by (simp add: cq_view_def split: option.splits)
  moreover from this have "ring_inv pc' (r\<lparr>sq_head := h\<rparr>)"
    using assms by (simp add: ring_inv_def cq_ok_def)
  ultimately show ?thesis by (intro main_effect_quiet) (simp_all add: assms)
qed

text \<open>Steps that leave the ring alone, or but for the flag, and stay at the same completion.\<close>

lemma stay_effect:
  assumes "ring_inv pc r" and "r' = r \<or> r' = r\<lparr>wait_cqe_cond_flag := f\<rparr>"
    and "submitting pc = None" and "submitting pc' = None \<or> submitting pc' = Some (sq_head r, sq_tail r)"
    and "at_cqe pc' = at_cqe pc \<or> at_cqe pc = None \<and> at_cqe pc' = Some (cq_head r, 0)"
    and "at_poll pc' \<Longrightarrow> (\<exists>c cs. cq_view pc r = c # cs \<and> is_poll c)"
  shows "main_effect pc r pc' r' []"
proof -
  have sq: "sq_contents (sq_view pc' r') = sq_contents (sq_view pc r)" "sq_ok (sq_view pc' r') = sq_ok (sq_view pc r)"
    using assms(2,3,4) by (auto simp: sq_contents_def sq_ok_def)
  have cq: "cq_view pc' r' = cq_view pc r"
    using assms(2,5) by (auto simp: cq_view_def split: option.splits)
  have "ring_inv pc' r'"
    using assms(1-5) assms(6) sq(2) cq unfolding ring_inv_def by (elim disjE; simp; fastforce)
  then show ?thesis by (rule main_effect_quiet) (use assms(2) sq cq in auto)
qed

lemma take_sqe_effect:
  assumes inv: "ring_inv pc (ctx_ring ctx)" and pc: "submitting pc = None" "at_cqe pc = Some (h, i)" "at_poll pc"
    and step: "(case ctx_get_sqe ctx of (Some sqe, ctx1) \<Rightarrow> Some (got_sqe h i res g sqe ctx1)
      | (None, ctx1) \<Rightarrow> Some (retry ctx1, ctx1, [])) = Some (pc', ctx', made)"
    and retry: "submitting (retry ctx) = None \<or>
        submitting (retry ctx) = Some (sq_head (ctx_ring ctx), sq_tail (ctx_ring ctx))"
      "at_cqe (retry ctx) = Some (h, i)"
  shows "main_effect pc (ctx_ring ctx) pc' (ctx_ring ctx') made \<and> ctx_datas ctx' = ctx_datas ctx"
proof -
  obtain so ctx1 where get: "ctx_get_sqe ctx = (so, ctx1)" by (cases "ctx_get_sqe ctx")
  have "sq_ok (ctx_ring ctx)" using inv pc by (simp add: ring_inv_def)
  note slot = free_slot [OF this get]
  show ?thesis
  proof (cases "sq_blocked (ctx_ring ctx)")
    case True
    with slot step get have "pc' = retry ctx" "ctx' = ctx" "made = []" by auto
    moreover have "main_effect pc (ctx_ring ctx) (retry ctx) (ctx_ring ctx) []"
      using inv pc retry by (intro stay_effect) (auto simp: ring_inv_def)
    ultimately show ?thesis by simp
  next
    case False
    with slot step get show ?thesis
      using got_sqe_effect [OF inv pc refl False, of res g pc' ctx' made] by simp
  qed
qed

lemma main_local_effect:
  assumes step: "main_local js pc ctx = Some (pc', ctx', made)" and inv: "ring_inv pc (ctx_ring ctx)"
  shows "main_effect pc (ctx_ring ctx) pc' (ctx_ring ctx') made \<and> ctx_datas ctx' = ctx_datas ctx"
proof (cases pc)
  case M_top
  with step inv show ?thesis
    using stay_effect [OF inv, of "ctx_ring ctx" False pc'] by (auto split: if_splits)
next
  case (M_submit h t)
  with step inv show ?thesis
    using submitted_effect [OF inv, of h t M_wait] by (auto split: if_splits)
next
  case M_wait
  obtain o1 r where p: "wait_cqe_pass (ctx_ring ctx) = (o1, r)" by (cases "wait_cqe_pass (ctx_ring ctx)")
  then have r: "r = ctx_ring ctx \<or> r = (ctx_ring ctx)\<lparr>wait_cqe_cond_flag := True\<rparr>"
    by (auto simp: wait_cqe_pass_def Let_def split: if_splits)
  with M_wait step p have "made = []" "ctx_ring ctx' = r" "ctx_datas ctx' = ctx_datas ctx" 
    "pc' = M_asleep \<or> (\<exists>ret. pc' = M_exit ret) \<or> (\<exists>ret. pc' = M_cqes (cq_head (ctx_ring ctx)) 0 ret)"
    by (auto split: option.splits if_splits)
  moreover from this(4) have "main_effect pc (ctx_ring ctx) pc' r []"
    using M_wait by (intro stay_effect [OF inv r]) auto
  ultimately show ?thesis by simp
next
  case M_asleep
  with step have "made = []" "pc' = M_wait" "ctx_ring ctx' = (ctx_ring ctx)\<lparr>wait_cqe_cond_flag := False\<rparr>"
    "ctx_datas ctx' = ctx_datas ctx" by (auto simp: wait_cqe_woken_def)
  with M_asleep show ?thesis
    using stay_effect [OF inv, of "(ctx_ring ctx)\<lparr>wait_cqe_cond_flag := False\<rparr>" False M_wait] by simp
next
  case (M_cqes h i ret)
  then have pc: "submitting pc = None" "at_cqe pc = Some (h, i)" by simp_all
  have ok: "cq_ok (ctx_ring ctx)" "sq_ok (ctx_ring ctx)" "h = cq_head (ctx_ring ctx) + i"
    using inv pc unfolding ring_inv_def by auto
  show ?thesis
  proof (cases "h = cq_tail (ctx_ring ctx)")
    case True
    let ?r = "gw_ring_cq_advance i (ctx_ring ctx)"
    have eqs: "pc' = M_top \<or> pc' = M_exit ret" "made = []" "ctx_ring ctx' = ?r" "ctx_datas ctx' = ctx_datas ctx"
      using step M_cqes True by (auto simp: gw_ring_load_head_cqe_def split: if_splits)
    have hd: "cq_head (ctx_ring ctx) + i = cq_tail (ctx_ring ctx)" using ok(3) True by simp
    have "cq_ok ?r" by (rule cq_ok_advance [OF ok(1)]) (simp add: hd)
    moreover have "cq_view pc (ctx_ring ctx) = []" using cq_view_at [OF pc(2)] True by simp
    moreover have "cq_view pc' ?r = []" using eqs(1) by (auto simp: cq_view_idle cq_contents_Nil_iff hd)
    ultimately have "main_effect pc (ctx_ring ctx) pc' ?r []"
      using eqs(1) ok(2) pc(1) by (intro main_effect_quiet) (auto simp: ring_inv_def)
    with eqs show ?thesis by simp
  next
    case False
    let ?c = "cqes (ctx_ring ctx) ! slot h (cq_mask (ctx_ring ctx))"
    note view = cq_view_pop [OF pc(2) False]
    show ?thesis
    proof (cases "is_poll ?c")
      case True
      then have "at_cqe pc' = Some (h, i)" "submitting pc' = None" "made = []" "ctx' = ctx"
        using step M_cqes False by (auto simp: gw_ring_load_head_cqe_def Let_def split: if_splits)
      moreover from this have "main_effect pc (ctx_ring ctx) pc' (ctx_ring ctx) []"
        using True view pc by (intro stay_effect [OF inv]) auto
      ultimately show ?thesis by simp
    next
      case other: False
      then have eqs: "pc' = M_cqes (h + 1) (i + 1) 0" "made = []" "ctx' = ctx"
        using step M_cqes False by (auto simp: gw_ring_load_head_cqe_def split: if_splits)
      have "ring_inv pc' (ctx_ring ctx)"
        using ok next_cqe [OF inv pc(2) False] by (simp add: ring_inv_def eqs(1))
      moreover have "cq_view pc (ctx_ring ctx) = [?c] @ cq_view pc' (ctx_ring ctx)"
        using cq_view_at [of pc' "h + 1" "i + 1"] by (simp add: view eqs(1))
      ultimately have "main_effect pc (ctx_ring ctx) pc' (ctx_ring ctx) []"
        unfolding main_effect_def using pc(1) other eqs(1)
        by (intro conjI exI [of _ "[?c]"]) simp_all
      with eqs show ?thesis by simp
    qed
  qed
next
  case (M_updates h i res j)
  then have "pc' = M_crash (M_updates h i res j) \<or> (\<exists>g. pc' = M_get h i res g)" "made = []" "ctx_ring ctx' = ctx_ring ctx"
    "ctx_datas ctx' = ctx_datas ctx"
    using step by (auto simp: ctx_datas_def noted_def split: option.splits if_splits)
  moreover from this(1) have "main_effect pc (ctx_ring ctx) pc' (ctx_ring ctx) []"
    using M_updates inv by (intro stay_effect [OF inv]) (auto simp: ring_inv_def)
  ultimately show ?thesis by simp
next
  case (M_get h i res g)
  let ?retry = "\<lambda>ctx. if ring_should_stop (ctx_ring ctx) then M_retry h i res g
      else M_refill h i res g (sq_head (ctx_ring ctx)) (sq_tail (ctx_ring ctx))"
  from M_get step show ?thesis
    using take_sqe_effect [OF inv, of h i ?retry res g pc' ctx' made] by simp
next
  case (M_refill h i res g h1 t)
  with step inv show ?thesis
    using submitted_effect [OF inv, of h1 t "M_retry h i res g"] by (auto split: if_splits)
next
  case (M_retry h i res g)
  with step show ?thesis
    using take_sqe_effect [OF inv, of h i "\<lambda>_. M_crash (M_retry h i res g)" res g pc' ctx' made] by simp
qed (use step in simp_all)

section \<open>What the workers' steps and a submission do\<close>

lemma posts_iff: "cq_ok r \<Longrightarrow> posts sqe r = (unat (cq_tail r - cq_head r) < length (cqes r) \<and> cq_unwrapped r)"
  by (simp add: posts_def post_cqe_cases)

lemma post_effect:
  assumes inv: "ring_inv pc r" and r': "r' = fst (snd (post_cqe sqe res r))"
  shows "ring_inv pc r'" and "ring_wq r' = ring_wq r"
    and "sq_contents (sq_view pc r') = sq_contents (sq_view pc r)"
    and "cq_view pc r' = cq_view pc r @ (if posts sqe r then [cqe_of sqe res] else [])"
proof -
  have ok: "cq_ok r" using inv by (simp add: ring_inv_def)
  note p = post_cqe_cases [OF ok, of sqe res] posts_iff [OF ok, of sqe]
  have "ring_inv pc r' \<and> ring_wq r' = ring_wq r \<and> sq_contents (sq_view pc r') = sq_contents (sq_view pc r) \<and>
      cq_view pc r' = cq_view pc r @ (if posts sqe r then [cqe_of sqe res] else [])"
  proof (cases "posts sqe r")
    case False
    then have "r' = r" using p(2) by (auto simp: r' p(1))
    with False inv show ?thesis by simp
  next
    case True
    let ?c = "cqe_of sqe res"
    have room: "unat (cq_tail r - cq_head r) < length (cqes r)" using True p by simp
    have eq: "r' = cq_push ?c r" using True p r' by simp
    have f: "cq_head r' = cq_head r" "cq_mask r' = cq_mask r" "sq_tail r' = sq_tail r" "ring_wq r' = ring_wq r"
        "sq_view pc r' = cq_push ?c (sq_view pc r)"
      by (simp_all add: eq cq_push_def sq_view_def split: option.splits)
    have circ: "circ_ok (cqes r) (cq_mask r)" using ok by (simp add: cq_ok_def)
    have push: "circ_contents (cqes r') (cq_mask r) h (cq_tail r') = circ_contents (cqes r) (cq_mask r) h (cq_tail r) @ [?c]"
      if "unat (cq_tail r - h) \<le> unat (cq_tail r - cq_head r)" for h
      using circ_contents_push [OF circ le_less_trans [OF that room], of ?c] by (simp add: eq cq_push_def)
    have len: "unat (cq_tail r' - h) = Suc (unat (cq_tail r - h))"
      if "unat (cq_tail r - h) \<le> unat (cq_tail r - cq_head r)" for h
      using arg_cong [OF push [OF that], of length] by simp
    have at: "h = cq_head r + i" "unat (cq_tail r - h) \<le> unat (cq_tail r - cq_head r)"
      if "at_cqe pc = Some (h, i)" for h i using inv that unfolding ring_inv_def by blast+
    have view: "cq_view pc r' = cq_view pc r @ [?c]"
    proof (cases "at_cqe pc")
      case None
      then show ?thesis using push [of "cq_head r"] by (simp add: cq_view_def f)
    next
      case (Some hi)
      obtain h i where hi: "hi = (h, i)" by (cases hi)
      with Some at(2) push [of h] show ?thesis by (simp add: cq_view_def f)
    qed
    have "cq_ok r'" using cq_push_ok [OF ok room, of ?c] by (simp add: eq)
    moreover have "h = cq_head r' + i \<and> unat (cq_tail r' - h) \<le> unat (cq_tail r' - cq_head r')"
      if "at_cqe pc = Some (h, i)" for h i
      using at [OF that] len [of h] len [of "cq_head r"] by (simp add: f(1))
    ultimately have "ring_inv pc r'"
      using inv by (auto simp: ring_inv_def f view)
    with f view True show ?thesis by simp
  qed
  then show "ring_inv pc r'" "ring_wq r' = ring_wq r" "sq_contents (sq_view pc r') = sq_contents (sq_view pc r)"
    "cq_view pc r' = cq_view pc r @ (if posts sqe r then [cqe_of sqe res] else [])" by blast+
qed

lemma worker_call_io:
  assumes "worker_call js net sqe w = Some (ret, (ctx, sent))"
  shows "ctx_io ctx = ctx_io (fst w)"
  using assms
  by (auto simp: worker_call_def call_get_updates_def call_module_handle_def Let_def
      split: if_splits option.splits prod.splits)

lemma worker_exec_effect:
  assumes e: "worker_exec js net d w = Some world" and d: "map_of (ctx_datas (fst w)) d = Some sqe"
    and ok: "request_ok sqe"
  obtains res where "ctx_ring (fst world) = fst (snd (post_cqe sqe res (ctx_ring (fst w))))"
    and "ctx_datas (fst world) = ctx_datas (fst w)"
proof -
  obtain ret ctx sent where c: "worker_call js net sqe w = Some (ret, (ctx, sent))"
    and s: "map_option (\<lambda>ctx1. (ctx1, sent)) (on_sys (gw_ring_wq_sqe_exec (\<lambda>_. ret) d) ctx) = Some world"
    using e d by (auto simp: worker_exec_def split: option.splits)
  note io = worker_call_io [OF c]
  let ?s = "snd (ctx_io (fst w))"
  have dd: "map_of (datas ?s) d = Some sqe" using d by (simp add: ctx_datas_def)
  obtain res where "gw_ring_wq_sqe_exec (\<lambda>_. ret) d ?s = Some (snd (post_in sqe res ?s))"
    using ok dd
    by (auto simp: request_ok_def is_punted_def sqe_ok_def gw_ring_wq_sqe_exec_def exec_tg_api_call_def
        exec_module_handle_def Let_def ring_op_defs)
  with s io have "ctx_io (fst world) = (fst (ctx_io (fst w)), snd (post_in sqe res ?s))"
    by (auto simp: on_sys_def)
  then show ?thesis using that [of res] by (simp add: ctx_ring_def ctx_datas_def post_in_fields)
qed

lemma worker_delete_effect:
  assumes "worker_delete js d ctx = Some ctx'"
  shows "ctx_ring ctx' = ctx_ring ctx \<and> ctx_datas ctx' = heap_free d (ctx_datas ctx)"
  using assms
  by (auto simp: worker_delete_def on_sys_def gw_ring_wq_sqe_delete_def free_sqe_update_def ctx_ring_def
      ctx_datas_def split: option.splits if_splits)

lemma heap_free_absent: "d \<notin> fst ` set h \<Longrightarrow> heap_free d h = h"
  by (force simp: heap_free_def filter_id_conv)

lemma submit_effect:
  assumes s: "submit_sqe sqe (e, rs) = Some (ok, (e', rs'))" and e: "io_others e = []"
    and wq: "wq_ok (ring_wq (ring rs))" and p: "is_punted sqe"
  obtains q where "ring rs' = (ring rs)\<lparr>ring_wq := q\<rparr>" and "wq_ok q"
    and "wq_contents q = wq_contents (ring_wq (ring rs)) @ (if ok then [punted_work (fresh_ptr (datas rs))] else [])"
    and "datas rs' = (if ok then [(fresh_ptr (datas rs), sqe)] else []) @ datas rs"
proof -
  let ?d = "fresh_ptr (datas rs)"
  have "fresh_ptr (datas rs) \<notin> fst ` set (datas rs)"
    by (metis fresh_ptr_unused map_of_eq_None_iff)
  then have free: "heap_free ?d ((?d, sqe) # datas rs) = datas rs"
    by (simp add: heap_free_absent [unfolded heap_free_def] heap_free_def)
  have "\<exists>q. ring rs' = (ring rs)\<lparr>ring_wq := q\<rparr> \<and> wq_ok q \<and>
      wq_contents q = wq_contents (ring_wq (ring rs)) @ (if ok then [punted_work ?d] else []) \<and>
      datas rs' = (if ok then [(?d, sqe)] else []) @ datas rs"
    if "punt_to_io_wq sqe (e, rs) = Some (ok, (e1, rs1))" and "ring rs' = ring rs1" "datas rs' = datas rs1" for e1 rs1
  proof (cases "fst (next_alloc (io_mallocs e))")
    case False
    with that have "\<not> ok" "rs1 = rs" by (auto simp: punt_to_io_wq_def Let_def split: prod.splits)
    then show ?thesis using that(2,3) wq by (intro exI [of _ "ring_wq (ring rs)"]) simp
  next
    case True
    let ?s1 = "rs\<lparr>datas := (?d, sqe) # datas rs\<rparr>"
    from True that(1) obtain ret os s2 where
      call: "ring_queue_work (io_spawn e) [] (punted_work ?d) ?s1 = Some (ret, os, s2)"
      and ok: "ok = (\<not> ret < 0)" and rs1: "rs1 = (if ret < 0 then s2\<lparr>datas := heap_free ?d (datas s2)\<rparr> else s2)"
      by (auto simp: punt_to_io_wq_def punted_work_def Let_def e split: prod.splits option.splits if_splits)
    obtain ro q ev where pass: "queue_work_pass (io_spawn e) (punted_work ?d) (ring_wq (ring rs)) = (ro, q, ev)"
      by (metis prod_cases3)
    have ro: "ro = Some ret" "ring s2 = (ring rs)\<lparr>ring_wq := q\<rparr>" "datas s2 = (?d, sqe) # datas rs"
      using call pass by (auto simp: ring_queue_work.simps Let_def split: option.splits)
    have r1: "ring rs1 = (ring rs)\<lparr>ring_wq := q\<rparr>" "datas rs1 = (if ok then [(?d, sqe)] else []) @ datas rs"
      using ro free by (simp_all add: rs1 ok)
    obtain ret1 q1 ev1 where t: "try_queue_work_locked (io_spawn e) (punted_work ?d) (ring_wq (ring rs)) = (ret1, q1, ev1)"
      by (metis prod_cases3)
    have "ret1 = ret" "q1 = q" using pass t ro(1) by (auto simp: queue_work_pass_def split: if_splits)
    with try_queue_work_locked_cases [OF wq t] pass ro(1) ok t
    have "wq_ok q" "wq_contents q = wq_contents (ring_wq (ring rs)) @ (if ok then [punted_work ?d] else [])"
      by (auto simp: queue_work_pass_def errno_defs wq split: if_splits)
    with r1 that(2,3) show ?thesis by (intro exI [of _ q]) simp
  qed
  moreover have "\<exists>e1 rs1. punt_to_io_wq sqe (e, rs) = Some (ok, (e1, rs1)) \<and> ring rs' = ring rs1 \<and> datas rs' = datas rs1"
    using s p
    by (auto simp: submit_sqe_def is_punted_def ring_op_defs issue_op_tg_api_call_def issue_op_module_handle_def
        free_sqe_update_def split: option.splits if_splits)
  ultimately show ?thesis using that by metis
qed

section \<open>The invariant\<close>

text \<open>The works a worker holds.\<close>

fun works_held :: "bot_worker \<Rightarrow> work_struct list" where
  "works_held (W_exec w) = [w]"
| "works_held (W_delete w) = [w]"
| "works_held w = []"

definition bot_works :: "('j, 'r) bot_sys \<Rightarrow> work_struct list" where
  "bot_works s = wq_contents (ring_wq (bs_ring s)) @ concat (map works_held (bs_workers s))"

text \<open>Every block belongs to exactly one work, pending, in execution or about to be deleted.\<close>

definition blocks_inv :: "('j, 'r) bot_sys \<Rightarrow> bool" where
  "blocks_inv s =
     (wq_ok (ring_wq (bs_ring s)) \<and> distinct (map fst (bs_datas s)) \<and>
      live_blocks s + dead_blocks s = mset (map fst (bs_datas s)) \<and>
      list_all (\<lambda>w. w = punted_work (arg w)) (bot_works s) \<and>
      list_all request_ok (sq_contents (sq_view (bs_main s) (bs_ring s))) \<and> list_all request_ok (map snd (bs_datas s)))"

definition polls :: "('j, 'r) bot_sys \<Rightarrow> nat" where
  "polls s = size (filter_mset is_poll_sqe (in_queue s + in_pool s)) +
     length (filter is_poll (cq_view (bs_main s) (bs_ring s))) + length (filter is_poll_sqe (bs_dropped s @ bs_unposted s))"

definition balanced :: "('j, 'r) bot_sys \<Rightarrow> bool" where
  "balanced s = (mset (bs_made s) = in_queue s + in_pool s + mset (bs_done s) + mset (bs_dropped s))"

definition bot_inv :: "('j, 'r) bot_sys \<Rightarrow> bool" where
  "bot_inv s = (ring_inv (bs_main s) (bs_ring s) \<and> blocks_inv s \<and> balanced s \<and> polls s = 1)"

lemma set_ctx_simps [simp]:
  "bs_world (set_ctx ctx s) = (ctx, snd (bs_world s))" "bs_main (set_ctx ctx s) = bs_main s"
  "bs_workers (set_ctx ctx s) = bs_workers s" "bs_made (set_ctx ctx s) = bs_made s"
  "bs_done (set_ctx ctx s) = bs_done s" "bs_dropped (set_ctx ctx s) = bs_dropped s"
  "bs_unposted (set_ctx ctx s) = bs_unposted s"
  by (simp_all add: set_ctx_def)

lemma sum_list_update_mset:
  "i < length ws \<Longrightarrow> sum_list (map f (ws[i := w])) + f (ws ! i) = sum_list (map f ws) + (f w :: 'a multiset)"
  by (induction ws arbitrary: i) (auto split: nat.splits simp: ac_simps)

lemma sum_list_memI: "w \<in> set ws \<Longrightarrow> x \<in># f w \<Longrightarrow> x \<in># sum_list (map f ws)"
  by (induction ws) auto

text \<open>A worker's block is live, and its request well formed.\<close>

lemma block_of_request: "blocks_inv s \<Longrightarrow> map_of (bs_datas s) d = Some sqe \<Longrightarrow> request_ok sqe"
  by (force simp: blocks_inv_def list_all_iff dest: map_of_SomeD)

lemma blocks_live:
  assumes "blocks_inv s" and "w \<in> set (bs_workers s)" and "d \<in># exec_of w + delete_of w"
  obtains sqe where "map_of (bs_datas s) d = Some sqe" and "request_ok sqe"
proof -
  have "d \<in># live_blocks s + dead_blocks s"
    using assms(2,3) sum_list_memI [of w _ d exec_of] sum_list_memI [of w _ d delete_of]
    by (auto simp: live_blocks_def dead_blocks_def)
  then have "d \<in># mset (map fst (bs_datas s))" using assms(1) by (simp only: blocks_inv_def)
  then have "d \<in> fst ` set (bs_datas s)" by simp
  then obtain sqe where "map_of (bs_datas s) d = Some sqe" by (metis map_of_eq_None_iff not_Some_eq)
  from that [OF this block_of_request [OF assms(1) this]] show ?thesis .
qed

lemma local_inv:
  assumes inv: "bot_inv s" and step: "main_local js (bs_main s) (bs_ctx s) = Some (pc, ctx, made)"
  shows "bot_inv ((set_ctx ctx s)\<lparr>bs_main := pc, bs_made := bs_made s @ made\<rparr>)"
proof -
  let ?t = "(set_ctx ctx s)\<lparr>bs_main := pc, bs_made := bs_made s @ made\<rparr>"
  have eff: "main_effect (bs_main s) (bs_ring s) pc (ctx_ring ctx) made" and d: "ctx_datas ctx = bs_datas s"
    using main_local_effect [OF step] inv by (simp_all add: bot_inv_def)
  obtain taken where wq: "ring_wq (ctx_ring ctx) = ring_wq (bs_ring s)"
    and sq: "sq_contents (sq_view pc (ctx_ring ctx)) = sq_contents (sq_view (bs_main s) (bs_ring s)) @ made"
    and cq: "cq_view (bs_main s) (bs_ring s) = taken @ cq_view pc (ctx_ring ctx)"
    and polls: "length (filter is_poll taken) = length (filter is_poll_sqe made)"
    and ring: "ring_inv pc (ctx_ring ctx)" "list_all request_ok made"
    using eff by (auto simp: main_effect_def)
  have v: "live_blocks ?t = live_blocks s" "dead_blocks ?t = dead_blocks s" "bot_works ?t = bot_works s"
    by (simp_all add: live_blocks_def dead_blocks_def bot_works_def wq)
  then have v2: "in_pool ?t = in_pool s" "in_queue ?t = in_queue s + mset made"
    by (simp_all add: in_pool_def in_queue_def d sq)
  have "blocks_inv ?t" using inv ring v by (simp add: bot_inv_def blocks_inv_def d wq sq)
  moreover have "polls ?t = polls s"
    by (simp add: polls_def v2 cq polls [symmetric] mset_filter [symmetric] del: mset_filter)
  moreover have "balanced ?t" using inv by (simp add: bot_inv_def balanced_def v2)
  ultimately show ?thesis using inv ring by (simp add: bot_inv_def)
qed

lemma one_submitted_submitting [simp]:
  "submitting pc = Some (h, t) \<Longrightarrow> submitting (one_submitted pc) = Some (h + 1, t)"
  by (induction pc) simp_all

lemma one_submitted_at [simp]: "at_cqe (one_submitted pc) = at_cqe pc" "at_poll (one_submitted pc) = at_poll pc"
  by (induction pc; simp)+

lemma crash_views [simp]: "sq_view (M_crash pc) r = sq_view pc r" "cq_view (M_crash pc) r = cq_view pc r"
  "ring_inv (M_crash pc) r = ring_inv pc r"
  by (simp_all add: sq_view_def cq_view_def ring_inv_def)

lemma cq_view_cong:
  "at_cqe pc' = at_cqe pc \<Longrightarrow> cq_view pc' (r\<lparr>ring_wq := q\<rparr>) = cq_view pc r"
  by (simp add: cq_view_def split: option.splits)

lemma ring_inv_wq: "ring_inv pc r \<Longrightarrow> ring_inv pc (r\<lparr>ring_wq := q\<rparr>)"
  by (auto simp: ring_inv_def sq_view_def sq_ok_def cq_view_def split: option.splits)

lemma sq_view_wq [simp]: "sq_contents (sq_view pc (r\<lparr>ring_wq := q\<rparr>)) = sq_contents (sq_view pc r)"
  by (simp add: sq_view_def sq_contents_def split: option.splits)

text \<open>The next request of a submission.\<close>

lemma submitting_next:
  assumes inv: "ring_inv pc r" and pc: "submitting pc = Some (h, t)" "h \<noteq> t"
  shows "sq_contents (sq_view pc r) = sqes r ! slot h (sq_mask r) # sq_contents (sq_view (one_submitted pc) r)"
    and "ring_inv (one_submitted pc) r"
proof -
  have t: "t = sq_tail r" and ok: "sq_ok (sq_view pc r)" using inv pc by (simp_all add: ring_inv_def)
  then show "sq_contents (sq_view pc r) = sqes r ! slot h (sq_mask r) # sq_contents (sq_view (one_submitted pc) r)"
    using circ_contents_pop [of h t "sqes r" "sq_mask r"] pc by (simp add: sq_contents_def)
  have "unat (t - (h + 1)) \<le> length (sqes r)"
    using ok pc unat_diff_pop [OF pc(2)] by (simp add: sq_ok_def t)
  then have "sq_ok (sq_view (one_submitted pc) r)" using ok pc by (simp add: sq_ok_def t)
  moreover have "cq_view (one_submitted pc) r = cq_view pc r" by (simp add: cq_view_def)
  ultimately show "ring_inv (one_submitted pc) r" using inv pc by (simp add: ring_inv_def)
qed

lemma live_in_datas: "blocks_inv s \<Longrightarrow> d \<in># live_blocks s \<Longrightarrow> d \<in> fst ` set (bs_datas s)"
  using mset_subset_eq_add_left [of "live_blocks s" "dead_blocks s"]
  by (auto simp: blocks_inv_def dest: mset_subset_eqD)

lemma in_pool_cong:
  assumes "\<And>d. d \<in># live_blocks s \<Longrightarrow> map_of h d = map_of (bs_datas s) d"
  shows "image_mset (\<lambda>d. the (map_of h d)) (live_blocks s) = in_pool s"
  unfolding in_pool_def by (rule image_mset_cong) (simp add: assms)

lemma submit_inv:
  assumes inv: "bot_inv s" and pc: "submitting (bs_main s) = Some (h, t)" "h \<noteq> t"
    and sqe: "sqe = sqes (bs_ring s) ! slot h (sq_mask (bs_ring s))" and e: "io_others e = []"
    and sub: "submit_sqe sqe (e, snd (ctx_io (bs_ctx s))) = Some (ok, io)"
  shows "bot_inv ((set_ctx ((bs_ctx s)\<lparr>ctx_io := io, ctx_mem := m\<rparr>) s)
       \<lparr>bs_main := one_submitted (bs_main s), bs_dropped := bs_dropped s @ (if ok then [] else [sqe])\<rparr>)"
    (is "bot_inv ?t")
proof -
  let ?r = "bs_ring s" and ?pc = "one_submitted (bs_main s)" and ?d = "fresh_ptr (bs_datas s)"
  have rs: "ring (snd (ctx_io (bs_ctx s))) = ?r" "datas (snd (ctx_io (bs_ctx s))) = bs_datas s"
    by (simp_all add: ctx_ring_def ctx_datas_def)
  have i: "ring_inv (bs_main s) ?r" "blocks_inv s" using inv by (simp_all add: bot_inv_def)
  note nxt = submitting_next [OF i(1) pc, folded sqe]
  have wq: "wq_ok (ring_wq ?r)" and req: "request_ok sqe" "list_all request_ok (sq_contents (sq_view ?pc ?r))"
    using i(2) nxt(1) by (simp_all add: blocks_inv_def)
  obtain e' rs' where io: "io = (e', rs')" by (cases io)
  have "is_punted sqe" using req(1) by (simp add: request_ok_def)
  from submit_effect [OF sub [unfolded io] e, unfolded rs, OF wq this] obtain q where
    ring: "ring rs' = ?r\<lparr>ring_wq := q\<rparr>" and q: "wq_ok q"
      "wq_contents q = wq_contents (ring_wq ?r) @ (if ok then [punted_work ?d] else [])"
    and datas: "datas rs' = (if ok then [(?d, sqe)] else []) @ bs_datas s" by blast
  have t: "bs_ring ?t = ?r\<lparr>ring_wq := q\<rparr>" "bs_datas ?t = datas rs'" "bs_main ?t = ?pc" "bs_workers ?t = bs_workers s"
    by (simp_all add: io ctx_ring_def ring ctx_datas_def)
  have fresh: "?d \<notin> fst ` set (bs_datas s)" by (metis fresh_ptr_unused map_of_eq_None_iff)
  have live: "live_blocks ?t = live_blocks s + (if ok then {#?d#} else {#})"
    unfolding live_blocks_def t by (simp add: q(2) punted_work_def)
  have dead: "dead_blocks ?t = dead_blocks s" by (simp add: dead_blocks_def)
  have works: "list_all (\<lambda>w. w = punted_work (arg w)) (bot_works ?t)"
    using i(2) unfolding blocks_inv_def bot_works_def t by (simp add: q(2)) (simp add: punted_work_def)
  have cong: "image_mset (\<lambda>d. the (map_of (datas rs') d)) (live_blocks s) = in_pool s"
  proof (rule in_pool_cong)
    fix d
    assume "d \<in># live_blocks s"
    then have "d \<noteq> ?d" using live_in_datas [OF i(2)] fresh by metis
    then show "map_of (datas rs') d = map_of (bs_datas s) d" by (simp add: datas)
  qed
  have "in_pool ?t = image_mset (\<lambda>d. the (map_of (datas rs') d)) (live_blocks ?t)" unfolding in_pool_def t ..
  also have "\<dots> = in_pool s + image_mset (\<lambda>d. the (map_of (datas rs') d)) (if ok then {#?d#} else {#})"
    unfolding live image_mset_union cong ..
  finally have pool: "in_pool ?t = in_pool s + (if ok then {#sqe#} else {#})" by (simp add: datas)
  have queue: "in_queue s = add_mset sqe (in_queue ?t)"
    unfolding in_queue_def t by (simp add: nxt(1))
  have cq: "cq_view ?pc (bs_ring ?t) = cq_view (bs_main s) ?r"
    unfolding t by (rule cq_view_cong) simp
  have "blocks_inv ?t"
    using i(2) q(1) works req fresh unfolding blocks_inv_def live dead t
    by (simp add: datas)
  moreover have "ring_inv ?pc (bs_ring ?t)" unfolding t by (rule ring_inv_wq [OF nxt(2)])
  moreover have "balanced ?t" using inv by (simp add: bot_inv_def balanced_def pool queue)
  moreover have "polls ?t = polls s" unfolding polls_def t(3) cq by (simp add: pool queue)
  ultimately show ?thesis using inv by (simp add: bot_inv_def)
qed

text \<open>The worker \<open>i\<close> moves to \<open>w\<close>.\<close>

lemma worker_moves:
  assumes "i < length ws"
  shows "sum_list (map exec_of (ws[i := w])) + exec_of (ws ! i) = sum_list (map exec_of ws) + exec_of w"
    and "sum_list (map delete_of (ws[i := w])) + delete_of (ws ! i) = sum_list (map delete_of ws) + delete_of w"
    and "list_all P (concat (map works_held ws)) \<Longrightarrow> list_all P (works_held w) \<Longrightarrow>
      list_all P (concat (map works_held (ws[i := w])))"
  using sum_list_update_mset [OF assms, of exec_of w] sum_list_update_mset [OF assms, of delete_of w]
    set_update_subset_insert [of ws i w]
  by (auto simp: list_all_iff)

lemma section_inv:
  assumes inv: "bot_inv s" and i: "i < length (bs_workers s)" "bs_workers s ! i = W_pool pc" and run: "runnable pc"
    and sec: "worker_section pc (ring_wq (bs_ring s)) = (turn, q, ev)"
  shows "bot_inv ((set_ctx (on_ring (\<lambda>r. r\<lparr>ring_wq := q\<rparr>) (bs_ctx s)) s)
       \<lparr>bs_workers := (bs_workers s)[i := worker_of_turn turn]\<rparr>)" (is "bot_inv ?t")
proof -
  let ?r = "bs_ring s" and ?w = "worker_of_turn turn"
  have b: "blocks_inv s" "ring_inv (bs_main s) ?r" using inv by (simp_all add: bot_inv_def)
  then have ok: "wq_ok (ring_wq ?r)" by (simp add: blocks_inv_def)
  note sum = worker_section_summary [OF ok run sec]
  have t: "bs_ring ?t = ?r\<lparr>ring_wq := q\<rparr>" "bs_datas ?t = bs_datas s" "bs_main ?t = bs_main s"
      "bs_workers ?t = (bs_workers s)[i := ?w]" by simp_all
  have w: "exec_of ?w = image_mset arg (mset (works_of_turn turn))" "delete_of ?w = {#}"
      "works_held ?w = works_of_turn turn" by (cases turn; simp)+
  have live: "live_blocks ?t = live_blocks s"
    using worker_moves(1) [OF i(1), of ?w] unfolding live_blocks_def t
    by (simp add: i(2) w(1) sum(11))
  have dead: "dead_blocks ?t = dead_blocks s"
    using worker_moves(2) [OF i(1), of ?w] unfolding dead_blocks_def t by (simp add: i(2) w(2))
  have "list_all (\<lambda>w. w = punted_work (arg w)) (bot_works ?t)"
    using b(1) worker_moves(3) [OF i(1), of _ ?w] unfolding bot_works_def blocks_inv_def t
    by (simp add: w(3) sum(11))
  then have "blocks_inv ?t" using b(1) sum(1) unfolding blocks_inv_def live dead t by simp
  moreover have "in_pool ?t = in_pool s" "in_queue ?t = in_queue s"
    unfolding in_pool_def in_queue_def live t by simp_all
  moreover from this have "polls ?t = polls s" "balanced ?t = balanced s"
    by (simp_all add: polls_def balanced_def cq_view_cong)
  moreover have "ring_inv (bs_main ?t) (bs_ring ?t)" unfolding t by (rule ring_inv_wq [OF b(2)])
  ultimately show ?thesis using inv by (simp add: bot_inv_def)
qed

lemma wake_inv:
  assumes inv: "bot_inv s" and i: "i < length (bs_workers s)" "bs_workers s ! i = W_pool pc"
  shows "bot_inv (s\<lparr>bs_workers := (bs_workers s)[i := W_pool pc']\<rparr>)" (is "bot_inv ?t")
proof -
  have v: "live_blocks ?t = live_blocks s" "dead_blocks ?t = dead_blocks s"
    using worker_moves(1,2) [OF i(1), of "W_pool pc'"] by (simp_all add: live_blocks_def dead_blocks_def i(2))
  have "list_all (\<lambda>w. w = punted_work (arg w)) (bot_works ?t)"
    using inv worker_moves(3) [OF i(1), of _ "W_pool pc'"] by (simp add: bot_inv_def blocks_inv_def bot_works_def)
  then have "blocks_inv ?t" using inv by (simp add: bot_inv_def blocks_inv_def v)
  moreover have "in_pool ?t = in_pool s" "in_queue ?t = in_queue s" by (simp_all add: in_pool_def in_queue_def v)
  ultimately show ?thesis using inv by (simp add: bot_inv_def polls_def balanced_def)
qed

lemma exec_inv:
  assumes inv: "bot_inv s" and i: "i < length (bs_workers s)" "bs_workers s ! i = W_exec w"
    and sqe: "map_of (bs_datas s) (arg w) = Some sqe" and ex: "worker_exec js net (arg w) (bs_world s) = Some world"
  shows "bot_inv (s\<lparr>bs_world := world, bs_workers := (bs_workers s)[i := W_delete w],
       bs_done := bs_done s @ [sqe],
       bs_unposted := bs_unposted s @ (if posts sqe (bs_ring s) then [] else [sqe])\<rparr>)" (is "bot_inv ?t")
proof -
  let ?r = "bs_ring s"
  have b: "blocks_inv s" "ring_inv (bs_main s) ?r" using inv by (simp_all add: bot_inv_def)
  have ok: "request_ok sqe" by (rule block_of_request [OF b(1) sqe])
  obtain res where r': "ctx_ring (fst world) = fst (snd (post_cqe sqe res ?r))"
    and d: "ctx_datas (fst world) = bs_datas s" by (rule worker_exec_effect [OF ex sqe ok])
  note post = post_effect [OF b(2) r']
  have t: "bs_ring ?t = ctx_ring (fst world)" "bs_datas ?t = bs_datas s" "bs_main ?t = bs_main s"
      "bs_workers ?t = (bs_workers s)[i := W_delete w]" by (simp_all add: d)
  have live: "live_blocks s = add_mset (arg w) (live_blocks ?t)"
    using worker_moves(1) [OF i(1), of "W_delete w"] unfolding live_blocks_def t post(2) by (simp add: i(2))
  have dead: "dead_blocks ?t = add_mset (arg w) (dead_blocks s)"
    using worker_moves(2) [OF i(1), of "W_delete w"] unfolding dead_blocks_def t by (simp add: i(2))
  have pool: "in_pool s = add_mset sqe (in_pool ?t)"
    unfolding in_pool_def live t(2) by (simp add: sqe)
  have queue: "in_queue ?t = in_queue s" unfolding in_queue_def t post(3) ..
  have "w = punted_work (arg w)"
    using b(1) nth_mem [OF i(1)] by (fastforce simp: i(2) blocks_inv_def bot_works_def list_all_iff)
  then have "list_all (\<lambda>w. w = punted_work (arg w)) (bot_works ?t)"
    using b(1) worker_moves(3) [OF i(1), of _ "W_delete w"] unfolding bot_works_def blocks_inv_def t post(2)
    by simp
  then have "blocks_inv ?t" using b(1) unfolding blocks_inv_def live dead t post(2,3) by simp
  moreover have "polls ?t = polls s"
    unfolding polls_def queue pool t post(4) by simp
  moreover have "balanced ?t" using inv by (simp add: bot_inv_def balanced_def queue pool)
  ultimately show ?thesis using inv post(1) by (simp add: bot_inv_def)
qed

lemma map_fst_heap_free: "map fst (heap_free d h) = filter (\<lambda>q. q \<noteq> d) (map fst h)"
  by (induction h) (auto simp: heap_free_def)

lemma filter_absent: "x \<notin># M \<Longrightarrow> filter_mset (\<lambda>y. y \<noteq> x) M = M"
  by (induction M) auto

lemma delete_inv:
  assumes inv: "bot_inv s" and i: "i < length (bs_workers s)" "bs_workers s ! i = W_delete w"
    and del: "worker_delete js (arg w) (bs_ctx s) = Some ctx"
  shows "bot_inv ((set_ctx ctx s)\<lparr>bs_workers := (bs_workers s)[i := W_pool (Running w)]\<rparr>)" (is "bot_inv ?t")
proof -
  let ?d = "arg w"
  have b: "blocks_inv s" using inv by (simp add: bot_inv_def)
  note eff = worker_delete_effect [OF del]
  have t: "bs_ring ?t = bs_ring s" "bs_datas ?t = heap_free ?d (bs_datas s)" "bs_main ?t = bs_main s"
      "bs_workers ?t = (bs_workers s)[i := W_pool (Running w)]" by (simp_all add: eff)
  have live: "live_blocks ?t = live_blocks s"
    using worker_moves(1) [OF i(1), of "W_pool (Running w)"] unfolding live_blocks_def t by (simp add: i(2))
  have dead: "dead_blocks s = add_mset ?d (dead_blocks ?t)"
    using worker_moves(2) [OF i(1), of "W_pool (Running w)"] unfolding dead_blocks_def t by (simp add: i(2))
  have all: "add_mset ?d (live_blocks s + dead_blocks ?t) = mset (map fst (bs_datas s))"
    and dist: "distinct (map fst (bs_datas s))"
    using b by (simp_all add: blocks_inv_def dead)
  have "count (mset (map fst (bs_datas s))) ?d \<le> 1"
    using dist by (simp only: distinct_count_atmost_1) simp
  then have "?d \<notin># live_blocks s + dead_blocks ?t"
    unfolding all [symmetric] by (simp add: not_in_iff)
  then have out: "?d \<notin># live_blocks s" "?d \<notin># live_blocks s + dead_blocks ?t" by auto
  have "mset (map fst (heap_free ?d (bs_datas s))) = filter_mset (\<lambda>q. q \<noteq> ?d) (add_mset ?d (live_blocks s + dead_blocks ?t))"
    unfolding all map_fst_heap_free by simp
  also have "\<dots> = live_blocks s + dead_blocks ?t" using filter_absent [OF out(2)] by simp
  finally have keys: "live_blocks s + dead_blocks ?t = mset (map fst (heap_free ?d (bs_datas s)))" by simp
  have "in_pool ?t = image_mset (\<lambda>d. the (map_of (heap_free ?d (bs_datas s)) d)) (live_blocks s)"
    unfolding in_pool_def live t ..
  also have "\<dots> = in_pool s" by (rule in_pool_cong) (use out(1) in auto)
  finally have pool: "in_pool ?t = in_pool s" .
  have queue: "in_queue ?t = in_queue s" unfolding in_queue_def t ..
  have "list_all (\<lambda>w. w = punted_work (arg w)) (bot_works ?t)"
    using b worker_moves(3) [OF i(1), of _ "W_pool (Running w)"] unfolding bot_works_def blocks_inv_def t by simp
  moreover have "list_all request_ok (map snd (heap_free ?d (bs_datas s)))" "distinct (map fst (heap_free ?d (bs_datas s)))"
    using b dist by (auto simp: blocks_inv_def list_all_iff heap_free_def map_fst_heap_free [unfolded heap_free_def])
  ultimately have "blocks_inv ?t" using b keys unfolding blocks_inv_def live t by simp
  moreover have "polls ?t = polls s" "balanced ?t = balanced s" unfolding polls_def balanced_def pool queue t by simp_all
  ultimately show ?thesis using inv by (simp add: bot_inv_def eff)
qed

text \<open>Crashing moves no request.\<close>

lemma crash_inv_place:
  assumes "bot_inv s" and "bs_main t = M_crash (bs_main s)" and "bs_world t = bs_world s"
    and "bs_workers t = bs_workers s" and "bs_made t = bs_made s" and "bs_done t = bs_done s"
    and "bs_dropped t = bs_dropped s" and "bs_unposted t = bs_unposted s"
  shows "bot_inv t"
  using assms
  by (simp add: bot_inv_def blocks_inv_def balanced_def polls_def in_queue_def in_pool_def live_blocks_def
      dead_blocks_def bot_works_def)

lemma bot_step_inv:
  assumes "bot_inv s" and "bot_step js s a t"
  shows "bot_inv t"
  using assms(2)
proof cases
  case (bot_local pc ctx made)
  from local_inv [OF assms(1) bot_local(3)] show ?thesis by (simp only: bot_local(2))
next
  case (bot_submit h t' sqe e ok io m)
  from submit_inv [OF assms(1) bot_submit(3,4,6-8)] show ?thesis by (simp only: bot_submit(2))
next
  case (bot_submit_crash h t' sqe e ok io)
  have "(bs_ctx s)\<lparr>ctx_io := io, ctx_mem := ctx_mem (bs_ctx s)\<rparr> = (bs_ctx s)\<lparr>ctx_io := io\<rparr>" by simp
  from submit_inv [OF assms(1) bot_submit_crash(3,4,6-8), of "ctx_mem (bs_ctx s)", unfolded this]
  show ?thesis by (rule crash_inv_place) (simp_all add: bot_submit_crash(2))
next
  case (bot_section i pc turn q ev)
  from section_inv [OF assms(1) bot_section(3-6)] show ?thesis by (simp only: bot_section(2))
next
  case (bot_wake i pc pc')
  from wake_inv [OF assms(1) bot_wake(3,4)] show ?thesis by (simp only: bot_wake(2))
next
  case (bot_exec i w sqe net world)
  from exec_inv [OF assms(1) bot_exec(3-6)] show ?thesis by (simp only: bot_exec(2))
next
  case (bot_delete i w ctx)
  from delete_inv [OF assms(1) bot_delete(3-5)] show ?thesis by (simp only: bot_delete(2))
qed

lemma bot_init_inv:
  assumes "bot_init js s"
  shows "bot_inv s"
proof -
  obtain ctx0 ctx ws where fresh: "fresh_bot ctx0" and arm: "arm_update_sqe js ctx0 = Some (Done ctx)"
    and ws: "set ws \<subseteq> {W_pool Not_created, W_pool Starting}"
    and s: "s = \<lparr>bs_world = (ctx, []), bs_main = M_top, bs_workers = ws,
      bs_made = [poll_request (ctx_max_update_id ctx0 + 1)], bs_done = [], bs_dropped = [], bs_unposted = []\<rparr>"
    using assms unfolding bot_init_def by blast
  let ?r = "ctx_ring ctx0" and ?p = "poll_request (ctx_max_update_id ctx0 + 1)"
  have f: "ring_ok ?r" "sq_head ?r = 0" "sq_tail ?r = 0" "cq_contents ?r = []" "wq_contents (ring_wq ?r) = []"
      "ctx_datas ctx0 = []" using fresh by (simp_all add: fresh_bot_def)
  then have ok: "cq_ok ?r" "sq_ok ?r" "wq_ok (ring_wq ?r)" by (simp_all add: ring_ok_def)
  have len: "0 < length (sqes ?r)" using ok(2) circ_ok_length by (auto simp: sq_ok_def)
  then have "sq_room (Suc 0) ?r" using ok(2) f(2,3) by (simp add: sq_room_def Suc_le_eq)
  from arm_room [OF this] arm have ctx: "ctx = on_ring (sq_push ?p) (ctx0\<lparr>ctx_updates := NULL\<rparr>)" by simp
  have push: "sq_ok (sq_push ?p ?r)" "sq_contents (sq_push ?p ?r) = [?p]"
    using sq_push_ok [OF ok(2), of ?p] len f(2,3) by (simp_all add: sq_contents_def)
  have v: "bs_ring s = sq_push ?p ?r" "bs_datas s = []" "bs_main s = M_top" "bs_workers s = ws"
    by (simp_all add: s ctx f)
  have "sum_list (map exec_of ws) = {#} \<and> sum_list (map delete_of ws) = {#} \<and> concat (map works_held ws) = []"
    using ws by (induction ws) auto
  then have w: "live_blocks s = {#}" "dead_blocks s = {#}" "bot_works s = []"
    unfolding live_blocks_def dead_blocks_def bot_works_def v by (simp_all add: f)
  have q: "in_queue s = {#?p#}" "in_pool s = {#}" unfolding in_queue_def in_pool_def w v by (simp_all add: push)
  have cq: "cq_view M_top (sq_push ?p ?r) = []" using f(4) by (simp add: cq_view_idle)
  have "ring_inv M_top (sq_push ?p ?r)" using ok(1) push(1) by (simp add: ring_inv_def)
  moreover have "blocks_inv s" unfolding blocks_inv_def w v by (simp add: ok(3) push poll_request_facts)
  moreover have "polls s = 1" unfolding polls_def q v cq by (simp add: s poll_request_facts)
  moreover have "balanced s" unfolding balanced_def q by (simp add: s)
  ultimately show ?thesis unfolding bot_inv_def v by simp
qed

abbreviation bot_reach :: "('j, 'r) json_ops \<Rightarrow> ('j, 'r) bot_sys \<Rightarrow> bool" where
  "bot_reach js \<equiv> reach (bot_init js) (bot_step js)"

interpretation bot_run: invariant_system "bot_init js" "bot_step js" bot_inv
  by unfold_locales (rule bot_init_inv, assumption, rule bot_step_inv, assumption+)

section \<open>Every request is somewhere\<close>

text \<open>
  C3: in every interleaving of the main thread and the workers, with threads created late, spurious wake-ups and memory
  that runs out, no request is lost, duplicated or made up: each one written into the submission queue is still there, or in the pool
  (pending, or in execution), or was executed once, or was dropped by the submission that could not punt it.
\<close>

theorem requests_conserved:
  assumes "bot_reach js s"
  shows "mset (bs_made s) = in_queue s + in_pool s + mset (bs_done s) + mset (bs_dropped s)"
  using bot_run.reach_inv [OF assms] by (simp add: bot_inv_def balanced_def)

text \<open>
  C4: there is always exactly one request for updates: in the submission queue, in the pool, as a completion not yet
  processed, or lost because the submission dropped it or its completion found no room. So the bot
  never polls twice at a time, it falls silent only by such a loss, and \<open>ctx->updates\<close> has one user at a time.
\<close>

theorem one_poll:
  assumes "bot_reach js s"
  shows "size (filter_mset is_poll_sqe (in_queue s + in_pool s)) + length (filter is_poll (cq_view (bs_main s) (bs_ring s))) +
    length (filter is_poll_sqe (bs_dropped s @ bs_unposted s)) = 1"
  using bot_run.reach_inv [OF assms] by (simp add: bot_inv_def polls_def)

text \<open>While the main thread reads \<open>ctx->updates\<close>, no worker executes the request that writes it.\<close>

lemma inv_not_shared:
  assumes "bot_inv s" and "at_poll (bs_main s)"
  shows "filter_mset is_poll_sqe (in_queue s + in_pool s) = {#}"
proof -
  have inv: "ring_inv (bs_main s) (bs_ring s)" "polls s = 1"
    using assms(1) by (simp_all add: bot_inv_def)
  obtain c cs where "cq_view (bs_main s) (bs_ring s) = c # cs" "is_poll c"
    using inv(1) assms(2) by (auto simp: ring_inv_def)
  with inv(2) show ?thesis by (simp add: polls_def)
qed

lemma updates_not_shared:
  "bot_reach js s \<Longrightarrow> at_poll (bs_main s) \<Longrightarrow> filter_mset is_poll_sqe (in_queue s + in_pool s) = {#}"
  by (rule inv_not_shared [OF bot_run.reach_inv])

text \<open>A lost poll: it stays lost, and no poll is made in its place.\<close>

definition poll_lost :: "('j, 'r) bot_sys \<Rightarrow> bool" where
  "poll_lost s = (\<exists>sqe \<in> set (bs_dropped s @ bs_unposted s). is_poll_sqe sqe)"

lemma lost_poll_alone:
  assumes "bot_inv s" and "poll_lost s"
  shows "filter_mset is_poll_sqe (in_queue s + in_pool s) = {#}" and "filter is_poll (cq_view (bs_main s) (bs_ring s)) = []"
    and "\<not> at_poll (bs_main s)"
proof -
  have "filter is_poll_sqe (bs_dropped s @ bs_unposted s) \<noteq> []"
    using assms(2) by (auto simp: poll_lost_def filter_empty_conv)
  then have "0 < length (filter is_poll_sqe (bs_dropped s @ bs_unposted s))" by (simp only: length_greater_0_conv) simp
  with assms(1) have z: "size (filter_mset is_poll_sqe (in_queue s + in_pool s)) = 0"
    "length (filter is_poll (cq_view (bs_main s) (bs_ring s))) = 0" unfolding bot_inv_def polls_def by linarith+
  from z(1) show "filter_mset is_poll_sqe (in_queue s + in_pool s) = {#}" by (simp only: size_eq_0_iff_empty)
  from z(2) show cq: "filter is_poll (cq_view (bs_main s) (bs_ring s)) = []" by simp
  show "\<not> at_poll (bs_main s)"
  proof
    assume "at_poll (bs_main s)"
    then obtain c cs where "cq_view (bs_main s) (bs_ring s) = c # cs" "is_poll c"
      using assms(1) by (auto simp: bot_inv_def ring_inv_def)
    with cq show False by simp
  qed
qed

lemma lost_poll_step:
  assumes inv: "bot_inv s" and lost: "poll_lost s" and step: "bot_step js s a t"
  shows "poll_lost t \<and> filter is_poll_sqe (bs_made t) = filter is_poll_sqe (bs_made s)"
  using step
proof cases
  case (bot_local pc ctx made)
  have "ring_inv (bs_main s) (bs_ring s)" using inv by (simp add: bot_inv_def)
  from main_local_effect [OF bot_local(3) this] obtain taken where
    "cq_view (bs_main s) (bs_ring s) = taken @ cq_view pc (ctx_ring ctx)"
    "length (filter is_poll taken) = length (filter is_poll_sqe made)"
    by (auto simp: main_effect_def)
  with lost_poll_alone(2) [OF inv lost] have "filter is_poll_sqe made = []" by simp
  with lost show ?thesis by (simp add: bot_local(2) poll_lost_def)
qed (use lost in \<open>auto simp: poll_lost_def\<close>)

lemma lost_poll_steps:
  assumes "steps (bot_step js) (\<lambda>_. True) k s t" and "bot_inv s" and "poll_lost s"
  shows "bot_inv t \<and> poll_lost t \<and> filter is_poll_sqe (bs_made t) = filter is_poll_sqe (bs_made s)"
  using assms
proof (induction rule: steps.induct)
  case (steps_more k s t a u)
  then have t: "bot_inv t" "poll_lost t" "filter is_poll_sqe (bs_made t) = filter is_poll_sqe (bs_made s)" by simp_all
  from lost_poll_step [OF t(1,2) steps_more.hyps(3)] bot_step_inv [OF t(1) steps_more.hyps(3)] t(3) show ?case by simp
qed simp

text \<open>
  C29: a lost poll silences the bot for good. Once a request for updates has been dropped by its submission (its block could not
  be allocated, or the work queue was being destroyed) or its completion found no room, then in every state that any steps of the main
  thread and the workers lead to no request for updates is queued, pending or in execution, no completion of one is left to be
  processed, the main thread is not handling an answer, and no further request for updates has been made.
\<close>

theorem lost_poll_silences:
  assumes "bot_reach js s" and "\<exists>sqe \<in> set (bs_dropped s @ bs_unposted s). is_poll_sqe sqe"
    and "steps (bot_step js) (\<lambda>_. True) k s t"
  shows "filter_mset is_poll_sqe (in_queue t + in_pool t) = {#} \<and> filter is_poll (cq_view (bs_main t) (bs_ring t)) = [] \<and>
    \<not> at_poll (bs_main t) \<and> filter is_poll_sqe (bs_made t) = filter is_poll_sqe (bs_made s)"
proof -
  have "poll_lost s" using assms(2) by (simp add: poll_lost_def)
  from lost_poll_steps [OF assms(3) bot_run.reach_inv [OF assms(1)] this] lost_poll_alone [of t] show ?thesis by blast
qed

text \<open>
  C6: what a worker of the pool holds is well typed at any time: the block of the work it executes or deletes is live,
  holds a request of a kind a worker can execute with the member of the union that this kind reads, and belongs to no other work.
\<close>

theorem workers_own_blocks:
  assumes "bot_reach js s" and "wk \<in> set (bs_workers s)" and "d \<in># exec_of wk + delete_of wk"
  shows "\<exists>sqe. map_of (bs_datas s) d = Some sqe \<and> request_ok sqe \<and> count (live_blocks s + dead_blocks s) d = 1"
proof -
  have inv: "blocks_inv s" using bot_run.reach_inv [OF assms(1)] by (simp add: bot_inv_def)
  then obtain sqe where sqe: "map_of (bs_datas s) d = Some sqe" "request_ok sqe"
    using blocks_live [OF inv assms(2,3)] by blast
  have "d \<in> set (map fst (bs_datas s))" using map_of_SomeD [OF sqe(1)] by force
  then have "count (mset (map fst (bs_datas s))) d = 1"
    using inv distinct_count_atmost_1 [of "map fst (bs_datas s)"] by (simp add: blocks_inv_def)
  then have "count (live_blocks s + dead_blocks s) d = 1" using inv by (simp only: blocks_inv_def)
  with sqe show ?thesis by blast
qed

section \<open>Schedules\<close>

declare tok_loop.simps [code]

datatype bot_cmd = B_local | B_submit | B_section nat | B_exec nat | B_delete nat

fun exec_bot ::
    "('j, 'r) json_ops \<Rightarrow> 'j net \<Rightarrow> bot_cmd \<Rightarrow> ('j, 'r) bot_sys \<Rightarrow> ('j, 'r) bot_sys option" where
  "exec_bot js net B_local s =
     (case main_local js (bs_main s) (bs_ctx s) of
        None \<Rightarrow> None
      | Some (pc, ctx, made) \<Rightarrow> Some ((set_ctx ctx s)\<lparr>bs_main := pc, bs_made := bs_made s @ made\<rparr>))"
| "exec_bot js net B_submit s =
     (case submitting (bs_main s) of
        None \<Rightarrow> None
      | Some (h, t) \<Rightarrow>
          let sqe = sqes (bs_ring s) ! slot h (sq_mask (bs_ring s))
          in if h = t \<or> crashed (bs_main s) \<or> io_others (fst (ctx_io (bs_ctx s))) \<noteq> [] then None
             else case submit_sqe sqe (ctx_io (bs_ctx s)) of
                    None \<Rightarrow> None
                  | Some (ok, io) \<Rightarrow>
                      map_option (\<lambda>m. (set_ctx ((bs_ctx s)\<lparr>ctx_io := io, ctx_mem := m\<rparr>) s)
                        \<lparr>bs_main := one_submitted (bs_main s), bs_dropped := bs_dropped s @ (if ok then [] else [sqe])\<rparr>)
                        (free_dropped js sqe ok (ctx_mem (bs_ctx s))))"
| "exec_bot js net (B_section i) s =
     (if i < length (bs_workers s)
      then case bs_workers s ! i of
             W_pool pc \<Rightarrow>
               if runnable pc
               then let (turn, q, ev) = worker_section pc (ring_wq (bs_ring s))
                    in Some ((set_ctx (on_ring (\<lambda>r. r\<lparr>ring_wq := q\<rparr>) (bs_ctx s)) s)
                         \<lparr>bs_workers := (bs_workers s)[i := worker_of_turn turn]\<rparr>)
               else None
           | W_exec w \<Rightarrow> None
           | W_delete w \<Rightarrow> None
      else None)"
| "exec_bot js net (B_exec i) s =
     (if i < length (bs_workers s)
      then case bs_workers s ! i of
             W_exec w \<Rightarrow>
               (case map_of (bs_datas s) (arg w) of
                  None \<Rightarrow> None
                | Some sqe \<Rightarrow>
                    map_option (\<lambda>world. s\<lparr>bs_world := world, bs_workers := (bs_workers s)[i := W_delete w],
                       bs_done := bs_done s @ [sqe],
                       bs_unposted := bs_unposted s @ (if posts sqe (bs_ring s) then [] else [sqe])\<rparr>)
                      (worker_exec js net (arg w) (bs_world s)))
           | W_pool pc \<Rightarrow> None
           | W_delete w \<Rightarrow> None
      else None)"
| "exec_bot js net (B_delete i) s =
     (if i < length (bs_workers s)
      then case bs_workers s ! i of
             W_delete w \<Rightarrow>
               map_option (\<lambda>ctx. (set_ctx ctx s)\<lparr>bs_workers := (bs_workers s)[i := W_pool (Running w)]\<rparr>)
                 (worker_delete js (arg w) (bs_ctx s))
           | W_pool pc \<Rightarrow> None
           | W_exec w \<Rightarrow> None
      else None)"

fun exec_bots :: "('j, 'r) json_ops \<Rightarrow> 'j net \<Rightarrow> bot_cmd list \<Rightarrow> ('j, 'r) bot_sys \<Rightarrow> ('j, 'r) bot_sys option" where
  "exec_bots js net [] s = Some s"
| "exec_bots js net (c # cs) s = (case exec_bot js net c s of None \<Rightarrow> None | Some t \<Rightarrow> exec_bots js net cs t)"

lemma exec_bot_step: "exec_bot js net c s = Some t \<Longrightarrow> \<exists>a. bot_step js s a t"
proof (cases c)
  case B_local
  assume "exec_bot js net c s = Some t"
  with B_local show ?thesis by (auto split: option.splits intro: bot_step.intros)
next
  case B_submit
  assume e: "exec_bot js net c s = Some t"
  obtain env rs where io: "ctx_io (bs_ctx s) = (env, rs)" by (cases "ctx_io (bs_ctx s)")
  from e B_submit obtain h t' ok io' m where st: "submitting (bs_main s) = Some (h, t')" "h \<noteq> t'" "io_others env = []"
    and live: "\<not> crashed (bs_main s)" and st2:
    "submit_sqe (sqes (bs_ring s) ! slot h (sq_mask (bs_ring s))) (env, rs) = Some (ok, io')"
    "free_dropped js (sqes (bs_ring s) ! slot h (sq_mask (bs_ring s))) ok (ctx_mem (bs_ctx s)) = Some m"
    "t = (set_ctx ((bs_ctx s)\<lparr>ctx_io := io', ctx_mem := m\<rparr>) s)\<lparr>bs_main := one_submitted (bs_main s),
       bs_dropped := bs_dropped s @ (if ok then [] else [sqes (bs_ring s) ! slot h (sq_mask (bs_ring s))])\<rparr>"
    by (auto simp: Let_def io split: option.splits if_splits)
  from bot_step.bot_submit [OF st(1,2) live refl st(3) _ st2(2)] st2(1,3) show ?thesis by (auto simp: io)
next
  case (B_section i)
  assume "exec_bot js net c s = Some t"
  with B_section show ?thesis
    by (auto split: if_splits bot_worker.splits prod.splits intro: bot_step.bot_section)
next
  case (B_exec i)
  assume "exec_bot js net c s = Some t"
  with B_exec obtain w sqe world where st: "i < length (bs_workers s)" "bs_workers s ! i = W_exec w"
    "map_of (bs_datas s) (arg w) = Some sqe" "worker_exec js net (arg w) (bs_world s) = Some world"
    "t = s\<lparr>bs_world := world, bs_workers := (bs_workers s)[i := W_delete w], bs_done := bs_done s @ [sqe],
       bs_unposted := bs_unposted s @ (if posts sqe (bs_ring s) then [] else [sqe])\<rparr>"
    by (auto simp del: append.simps append_Nil2 split: if_splits bot_worker.splits option.splits)
  from bot_step.bot_exec [OF st(1-4)] st(5) show ?thesis by blast
next
  case (B_delete i)
  assume "exec_bot js net c s = Some t"
  with B_delete show ?thesis
    by (auto split: if_splits bot_worker.splits intro: bot_step.bot_delete)
qed

lemma exec_bots_reach: "exec_bots js net cs s = Some t \<Longrightarrow> bot_reach js s \<Longrightarrow> bot_reach js t"
proof (induction cs arbitrary: s)
  case (Cons c cs)
  then obtain u where u: "exec_bot js net c s = Some u" "exec_bots js net cs u = Some t"
    by (auto split: option.splits)
  from exec_bot_step [OF u(1)] Cons.prems(2) have "bot_reach js u" by (auto intro: reach_next)
  with Cons.IH [OF u(2)] show ?case .
qed simp

definition sample_bot_ctx :: "(json, nat) tg_bot_ctx" where
  "sample_bot_ctx = sample_ctx sample_ring sample_mem"

definition sample_bot :: "(json, nat) bot_sys" where
  "sample_bot = \<lparr>bs_world = (on_ring (sq_push (poll_request 1)) sample_bot_ctx, []), bs_main = M_top,
     bs_workers = [W_pool Starting], bs_made = [poll_request 1], bs_done = [], bs_dropped = [], bs_unposted = []\<rparr>"

lemma sample_bot_reach: "bot_reach js sample_bot"
proof (rule reach_init)
  let ?c = "sample_bot_ctx"
  have f: "ctx_ring ?c = sample_ring" "ctx_datas ?c = []" "ctx_max_update_id ?c = 0" "ctx_updates ?c = NULL"
    by (simp_all add: sample_bot_ctx_def ctx_datas_def fresh_sys_def)
  have "wq_contents sample_wq = []" by (simp add: wq_contents_Nil_iff)
  then have fr: "fresh_bot ?c" using sample_ring_ok by (simp add: fresh_bot_def f)
  have upd: "?c\<lparr>ctx_updates := NULL\<rparr> = ?c" by (simp add: sample_bot_ctx_def sample_ctx_def)
  have "sq_room (Suc 0) sample_ring" using sample_ring_room by (simp add: sq_room_def)
  from arm_room [of 0 ?c, unfolded f upd, OF this]
  have "arm_update_sqe js ?c = Some (Done (on_ring (sq_push (poll_request 1)) ?c))" by simp
  with fr show "bot_init js sample_bot"
    unfolding bot_init_def sample_bot_def by (intro exI [of _ ?c] exI [of _ "on_ring (sq_push (poll_request 1)) ?c"] exI [of _ "[W_pool Starting]"]) (simp add: f)
qed

text \<open>A schedule in which the first poll fails and the bot asks again. The state before the failure is reached by its first part.\<close>

definition failing_net :: "json net" where
  "failing_net = (sample_net J_null)\<lparr>net_perform := \<lambda>url d. (False, d)\<rparr>"

definition first_poll :: "bot_cmd list" where
  "first_poll = [B_local, B_submit, B_local, B_section 0]"

definition second_poll :: "bot_cmd list" where
  "second_poll = first_poll @ [B_exec 0, B_local, B_local, B_local, B_local, B_local, B_delete 0, B_submit, B_section 0]"

theorem requests_conserved_witness:
  "\<exists>s. bot_reach sample_js s \<and> bs_made s = [poll_request 1, poll_request 1] \<and> bs_done s = [poll_request 1] \<and>
     in_queue s + in_pool s = {#poll_request 1#}"
proof -
  have "map_option (\<lambda>s. (bs_made s, bs_done s, bs_dropped s))
      (exec_bots sample_js failing_net second_poll sample_bot) =
    Some ([poll_request 1, poll_request 1], [poll_request 1], [])" by code_simp
  then obtain s where s: "exec_bots sample_js failing_net second_poll sample_bot = Some s"
      "bs_made s = [poll_request 1, poll_request 1]" "bs_done s = [poll_request 1]" "bs_dropped s = []" by auto
  have r: "bot_reach sample_js s" by (rule exec_bots_reach [OF s(1) sample_bot_reach])
  from requests_conserved [OF r] s(2-4) have "in_queue s + in_pool s = {#poll_request 1#}" by simp
  with r s(2,3) show ?thesis by blast
qed

theorem one_poll_witness:
  "\<exists>s. bot_reach sample_js s \<and> bs_dropped s = [] \<and> bs_unposted s = [] \<and> cq_view (bs_main s) (bs_ring s) = [] \<and>
     size (filter_mset is_poll_sqe (in_queue s + in_pool s)) = 1"
proof -
  have "map_option (\<lambda>s. (bs_dropped s, bs_unposted s, cq_view (bs_main s) (bs_ring s)))
      (exec_bots sample_js failing_net second_poll sample_bot) = Some ([], [], [])" by code_simp
  then obtain s where s: "exec_bots sample_js failing_net second_poll sample_bot = Some s"
      "bs_dropped s = []" "bs_unposted s = []" "cq_view (bs_main s) (bs_ring s) = []" by auto
  have r: "bot_reach sample_js s" by (rule exec_bots_reach [OF s(1) sample_bot_reach])
  from one_poll [OF r] s(2-4) have "size (filter_mset is_poll_sqe (in_queue s + in_pool s)) = 1" by simp
  with r s(2-4) show ?thesis by blast
qed

text \<open>The allocation for the first poll fails; the main thread goes to sleep all the same.\<close>

lemma submit_poll_no_memory:
  "submit_sqe (poll_request k) (quiet_env\<lparr>io_mallocs := [False]\<rparr>, rs) = Some (False, (quiet_env, rs))"
  by (simp add: submit_sqe_def poll_request_def ring_op_defs issue_op_tg_api_call_def punt_to_io_wq_def quiet_env_def Let_def)

theorem lost_poll_silences_witness:
  "\<exists>s t. bot_reach sample_js s \<and> bs_dropped s = [poll_request 1] \<and> steps (bot_step sample_js) (\<lambda>_. True) 2 s t \<and>
     bs_main t = M_asleep \<and> filter_mset is_poll_sqe (in_queue t + in_pool t) = {#} \<and>
     filter is_poll (cq_view (bs_main t) (bs_ring t)) = []"
proof -
  have "map_option (\<lambda>s. (bs_main s, sqes (bs_ring s) ! slot 0 (sq_mask (bs_ring s)), bs_dropped s,
        cq_head (bs_ring s), cq_tail (bs_ring s), ring_should_stop (bs_ring s)))
      (exec_bots sample_js failing_net [B_local] sample_bot) =
    Some (M_submit 0 1, poll_request 1, [], 0, 0, False)" by code_simp
  then obtain s0 where s0: "exec_bots sample_js failing_net [B_local] sample_bot = Some s0" "bs_main s0 = M_submit 0 1"
      "poll_request 1 = sqes (bs_ring s0) ! slot 0 (sq_mask (bs_ring s0))" "bs_dropped s0 = []"
      "cq_head (bs_ring s0) = 0" "cq_tail (bs_ring s0) = 0" "\<not> ring_should_stop (bs_ring s0)" by auto
  have r0: "bot_reach sample_js s0" by (rule exec_bots_reach [OF s0(1) sample_bot_reach])
  have sub: "submitting (bs_main s0) = Some (0, 1)" "(0 :: u32) \<noteq> 1" "\<not> crashed (bs_main s0)"
      "io_others (quiet_env\<lparr>io_mallocs := [False]\<rparr>) = []"
      "free_dropped sample_js (poll_request 1) False (ctx_mem (bs_ctx s0)) = Some (ctx_mem (bs_ctx s0))"
    by (simp_all add: s0(2) quiet_env_def free_dropped_def ring_op_defs)
  note step = bot_step.bot_submit [OF sub(1-3) s0(3) sub(4) submit_poll_no_memory sub(5)]
  have "\<exists>s. bot_step sample_js s0 Main s \<and> bs_main s = M_submit 1 1 \<and> bs_dropped s = [poll_request 1] \<and> bs_ring s = bs_ring s0"
    by (intro exI, intro conjI, rule step) (simp_all add: s0(2,4) ctx_ring_def)
  then obtain s where st: "bot_step sample_js s0 Main s" and s: "bs_main s = M_submit 1 1" "bs_dropped s = [poll_request 1]"
    "bs_ring s = bs_ring s0" by blast
  from reach_next [OF r0, OF st] have r: "bot_reach sample_js s" .
  have "main_local sample_js (bs_main s) (bs_ctx s) = Some (M_wait, on_ring (\<lambda>r. r\<lparr>sq_head := 1\<rparr>) (bs_ctx s), [])"
    by (simp add: s)
  note step = bot_step.bot_local [OF this]
  have "\<exists>u. bot_step sample_js s Main u \<and> bs_main u = M_wait \<and> bs_ring u = (bs_ring s)\<lparr>sq_head := 1\<rparr>"
    by (intro exI, intro conjI, rule step) simp_all
  then obtain u where su: "bot_step sample_js s Main u" and u: "bs_main u = M_wait" "bs_ring u = (bs_ring s)\<lparr>sq_head := 1\<rparr>" by blast
  have "wait_cqe_pass (bs_ring u) = (None, (bs_ring u)\<lparr>wait_cqe_cond_flag := True\<rparr>)"
    using s0(5-7) by (simp add: u s wait_cqe_pass_def gw_ring_wait_cqe_once_def EAGAIN_def)
  then have "main_local sample_js (bs_main u) (bs_ctx u) =
      Some (M_asleep, on_ring (\<lambda>_. (bs_ring u)\<lparr>wait_cqe_cond_flag := True\<rparr>) (bs_ctx u), [])" by (simp add: u(1))
  note step = bot_step.bot_local [OF this]
  have "\<exists>t. bot_step sample_js u Main t \<and> bs_main t = M_asleep" by (intro exI, intro conjI, rule step) simp
  then obtain t where ut: "bot_step sample_js u Main t" "bs_main t = M_asleep" by blast
  have "steps (bot_step sample_js) (\<lambda>_. True) (Suc (Suc 0)) s t"
    using su ut(1) by (blast intro: steps_more steps_none)
  then have two: "steps (bot_step sample_js) (\<lambda>_. True) 2 s t" by (simp only: numeral_2_eq_2)
  have "\<exists>sqe \<in> set (bs_dropped s @ bs_unposted s). is_poll_sqe sqe" by (simp add: s(2) poll_request_facts)
  from lost_poll_silences [OF r this two] r s(2) two ut(2) show ?thesis by blast
qed

theorem workers_own_blocks_witness:
  "\<exists>s sqe. bot_reach sample_js s \<and> bs_workers s = [W_exec (punted_work 1)] \<and>
     map_of (bs_datas s) 1 = Some sqe \<and> request_ok sqe"
proof -
  have "map_option bs_workers (exec_bots sample_js failing_net first_poll sample_bot) =
    Some [W_exec (punted_work 1)]" by code_simp
  then obtain s where s: "exec_bots sample_js failing_net first_poll sample_bot = Some s"
      "bs_workers s = [W_exec (punted_work 1)]" by auto
  have r: "bot_reach sample_js s" by (rule exec_bots_reach [OF s(1) sample_bot_reach])
  have "W_exec (punted_work 1) \<in> set (bs_workers s)" "1 \<in># exec_of (W_exec (punted_work 1)) + delete_of (W_exec (punted_work 1))"
    using s(2) by (simp_all add: punted_work_def)
  from workers_own_blocks [OF r this] r s(2) show ?thesis by blast
qed

end
