(* ===== verification/BotCrash.thy ===== *)
theory BotCrash
  imports BotInv
begin

text \<open>
  Which steps of theory BotSys crash the main thread: never one that takes a slot, unless the ring is being stopped, and never the
  release of an update that a submission drops; so only the first look at an array of updates that is gone. The list
  parser can hand such an array over, and does when Telegram's answer has a \<open>null\<close> among the updates.
\<close>

section \<open>Stopping\<close>

lemma ring_stop_frame [simp]:
  "ring_should_stop (sq_push x r) = ring_should_stop r" "ring_should_stop (gw_ring_cq_advance n r) = ring_should_stop r"
  "ring_should_stop (write_sqe i f r) = ring_should_stop r"
  by (simp_all add: sq_push_def gw_ring_cq_advance_def write_sqe_def)

lemma get_sqe_stop:
  "ctx_get_sqe ctx = (so, ctx1) \<Longrightarrow> ring_should_stop (ctx_ring ctx1) = ring_should_stop (ctx_ring ctx)"
  by (auto simp: ctx_get_sqe_def gw_ring_get_sqe_def split: if_splits)

lemma got_sqe_stop:
  "got_sqe h i res g sqe ctx = (pc', ctx', made) \<Longrightarrow> ring_should_stop (ctx_ring ctx') = ring_should_stop (ctx_ring ctx)"
  by (auto simp: got_sqe_def after_goal_def write_goal_def Let_def split: goal.splits if_splits)

lemma main_local_stop:
  assumes "main_local js pc ctx = Some (pc', ctx', made)"
  shows "ring_should_stop (ctx_ring ctx') = ring_should_stop (ctx_ring ctx)"
proof (cases pc)
  case M_wait
  with assms show ?thesis
    by (auto simp: wait_cqe_pass_def Let_def split: if_splits option.splits prod.splits)
next
  case (M_get h i res g)
  obtain so ctx1 where get: "ctx_get_sqe ctx = (so, ctx1)" by (cases "ctx_get_sqe ctx")
  with assms M_get get_sqe_stop [OF get] show ?thesis by (auto split: option.splits dest: got_sqe_stop)
next
  case (M_retry h i res g)
  obtain so ctx1 where get: "ctx_get_sqe ctx = (so, ctx1)" by (cases "ctx_get_sqe ctx")
  with assms M_retry get_sqe_stop [OF get] show ?thesis by (auto split: option.splits dest: got_sqe_stop)
qed (use assms in \<open>auto simp: Let_def wait_cqe_woken_def split: if_splits option.splits\<close>)

section \<open>Arrays of updates stay\<close>

text \<open>No array goes or changes its size, and a new one has at least the length it states.\<close>

definition grows :: "('j, 'r) tg_mem \<Rightarrow> ('j, 'r) tg_mem \<Rightarrow> bool" where
  "grows m m' =
     (\<forall>p. case map_of (arrays m') p of
            None \<Rightarrow> map_of (arrays m) p = None
          | Some ups' \<Rightarrow>
              (case map_of (arrays m) p of
                 None \<Rightarrow> updates_len ups' \<le> length (updates_arr ups')
               | Some ups \<Rightarrow> updates_len ups' = updates_len ups \<and> length (updates_arr ups') = length (updates_arr ups)))"

lemma grows_same: "arrays m' = arrays m \<Longrightarrow> grows m m'"
  by (simp add: grows_def split: option.splits)

lemma grows_store_update: "grows m (store_update a u m)"
  by (auto simp: grows_def store_update_def update_conv' split: option.splits)

lemma grows_free_update_at:
  assumes "free_update_at js a m = Some m'"
  shows "grows m m'"
proof -
  obtain u where m': "m' = store_update a (fst (tgapi_free_update js u m)) (snd (tgapi_free_update js u m))"
    using assms by (auto simp: free_update_at_def split_beta Let_def)
  have "grows (snd (tgapi_free_update js u m)) m'" unfolding m' by (rule grows_store_update)
  then show ?thesis unfolding grows_def free_update_arrays .
qed

text \<open>The list parser leaves the caller's pointer, or sets it to an address where no array was.\<close>

lemma grows_parse:
  assumes "tgapi_parse_updates_len_max js tok mx up m = Some (ret, p, m')"
  shows "grows m m' \<and> (p = up \<or> map_of (arrays m) p = None)"
proof -
  obtain r jo where pj: "parse_json tok = Some (r, jo)"
    using assms by (auto simp: tgapi_parse_updates_len_max_def split: option.splits)
  obtain ok ms where a: "next_alloc (tg_mallocs m) = (ok, ms)" by (cases "next_alloc (tg_mallocs m)")
  show ?thesis
  proof (cases "\<exists>jobj result. jo = Some jobj \<and> js_get js jobj ''result'' = Some result \<and> ok")
    case False
    with assms pj a have "p = up" "arrays m' = arrays m"
      by (auto simp: tgapi_parse_updates_len_max_def Let_def split: option.splits)
    then show ?thesis by (simp add: grows_same)
  next
    case True
    then obtain jobj result where j: "jo = Some jobj" "js_get js jobj ''result'' = Some result" "ok" by blast
    let ?n = "min (js_length js result) mx" and ?m1 = "m\<lparr>tg_mallocs := ms\<rparr>"
    obtain fin k us m2 where l: "parse_updates_loop js result 0 ?n 0 (replicate ?n (zero_update js)) ?m1 = (fin, k, us, m2)"
      by (metis prod_cases4)
    have fr: "arrays m2 = arrays m" "length us = ?n" using parse_updates_loop_frame [OF l] by simp_all
    have free: "map_of (arrays m) (fresh_ptr (arrays m)) = None" by simp
    from assms pj a j l have p: "p = fresh_ptr (arrays m)"
      and m': "arrays m' = (if fin then [(p, \<lparr>updates_len = ?n, updates_arr = us\<rparr>)] else []) @ arrays m"
      using fr by (auto simp: tgapi_parse_updates_len_max_def Let_def)
    have "grows m m'" unfolding grows_def m' using free fr(2) p by (auto split: option.splits)
    moreover have "map_of (arrays m) p = None" unfolding p by (rule free)
    ultimately show ?thesis by blast
  qed
qed

lemma grows_call:
  assumes "call_get_updates js net call ctx = Some (ret, ctx')"
  shows "grows (ctx_mem ctx) (ctx_mem ctx') \<and>
    (ctx_updates ctx' = ctx_updates ctx \<or> map_of (arrays (ctx_mem ctx)) (ctx_updates ctx') = None)"
  using assms grows_same [of "ctx_mem ctx" "ctx_mem ctx"]
  by (auto simp: call_get_updates_def tgapi_call_get_updates_def tgapi_parse_updates_len_def Let_def
      split: if_splits prod.splits dest: grows_parse)

lemma grows_worker_call:
  assumes "worker_call js net sqe w = Some (ret, w')"
  shows "grows (ctx_mem (fst w)) (ctx_mem (fst w')) \<and>
    (ctx_updates (fst w') = ctx_updates (fst w) \<or> map_of (arrays (ctx_mem (fst w))) (ctx_updates (fst w')) = None)"
  using assms grows_same [of "ctx_mem (fst w)" "ctx_mem (fst w)"]
  by (auto simp: worker_call_def call_module_handle_def Let_def split: if_splits option.splits prod.splits
      dest: grows_call)

lemma worker_call_module:
  assumes "worker_call js net sqe w = Some (ret, w')" and "sqe_op sqe \<noteq> GW_RING_OP_TG_API_CALL"
  shows "fst w' = fst w"
  using assms
  by (auto simp: worker_call_def call_module_handle_def Let_def split: if_splits option.splits prod.splits)

lemma worker_exec_call:
  assumes "worker_exec js net d w = Some world" and "map_of (ctx_datas (fst w)) d = Some sqe"
  obtains ret w1 where "worker_call js net sqe w = Some (ret, w1)" and "ctx_mem (fst world) = ctx_mem (fst w1)"
    and "ctx_updates (fst world) = ctx_updates (fst w1)"
  using assms by (fastforce simp: worker_exec_def on_sys_def split: option.splits prod.splits)

lemma grows_worker_delete:
  assumes "worker_delete js d ctx = Some ctx'"
  shows "ctx_updates ctx' = ctx_updates ctx \<and> grows (ctx_mem ctx) (ctx_mem ctx')"
proof -
  obtain m where m: "m = ctx_mem ctx \<or> (\<exists>a. free_update_at js a (ctx_mem ctx) = Some m)"
    and c: "on_sys (gw_ring_wq_sqe_delete d) (ctx\<lparr>ctx_mem := m\<rparr>) = Some ctx'"
    using assms by (auto simp: worker_delete_def split: option.splits if_splits)
  from c have "ctx_updates ctx' = ctx_updates ctx" "ctx_mem ctx' = m" by (auto simp: on_sys_def)
  with m show ?thesis using grows_same [of m m] grows_free_update_at by metis
qed

section \<open>Requests to hand over an update\<close>

text \<open>The update that a module request names exists.\<close>

definition names_update :: "('j, 'r) tg_mem \<Rightarrow> gw_ring_sqe \<Rightarrow> bool" where
  "names_update m sqe = (sqe_op sqe = GW_RING_OP_MODULE_HANDLE \<longrightarrow>
     (\<exists>h. sqe_module_handle sqe = Some h \<and> update_at m (handle_update h) \<noteq> None))"

lemma grows_update_at: "grows m m' \<Longrightarrow> update_at m a \<noteq> None \<Longrightarrow> update_at m' a \<noteq> None"
  unfolding grows_def update_at_def
  by (drule spec [of _ "a div 2 ^ 32"]) (auto split: option.splits if_splits)

lemma update_at_arrays:
  assumes "map_of (arrays m) p = Some ups" and "unat j < length (updates_arr ups)"
  shows "update_at m (update_addr p j) \<noteq> None"
proof -
  have "unat j < 2 ^ 32" using unsigned_less [of j] by simp
  with assms show ?thesis by (simp add: update_at_def update_addr_def)
qed

lemma grows_names: "grows m m' \<Longrightarrow> names_update m sqe \<Longrightarrow> names_update m' sqe"
  using grows_update_at unfolding names_update_def by blast

lemma dropped_freed: "names_update m sqe \<Longrightarrow> free_dropped js sqe ok m \<noteq> None"
  by (auto simp: names_update_def free_dropped_def free_update_at_def)

lemma grows_dropped: "free_dropped js sqe ok m = Some m' \<Longrightarrow> grows m m'"
  by (auto simp: free_dropped_def grows_same dest: grows_free_update_at split: if_splits option.splits)

text \<open>The array at \<open>ctx->updates\<close>, if there is one, is as long as it says.\<close>

definition batch_ok :: "('j, 'r) tg_bot_ctx \<Rightarrow> bool" where
  "batch_ok ctx = (ctx_updates ctx = NULL \<or>
     (\<forall>ups. map_of (arrays (ctx_mem ctx)) (ctx_updates ctx) = Some ups \<longrightarrow> updates_len ups \<le> length (updates_arr ups)))"

lemma grows_batch:
  assumes "grows m m'" and "batch_ok ctx" and "ctx_mem ctx = m" and "ctx_mem ctx' = m'"
    and "ctx_updates ctx' = ctx_updates ctx \<or> map_of (arrays m) (ctx_updates ctx') = None"
  shows "batch_ok ctx'"
proof -
  from assms(1) have "case map_of (arrays m') (ctx_updates ctx') of
      None \<Rightarrow> map_of (arrays m) (ctx_updates ctx') = None
    | Some ups' \<Rightarrow> (case map_of (arrays m) (ctx_updates ctx') of
          None \<Rightarrow> updates_len ups' \<le> length (updates_arr ups')
        | Some ups \<Rightarrow> updates_len ups' = updates_len ups \<and> length (updates_arr ups') = length (updates_arr ups))"
    unfolding grows_def by blast
  with assms(2-5) show ?thesis by (auto simp: batch_ok_def split: option.splits)
qed

text \<open>Where the main thread wants to hand over an update there is one; after a refill there is room.\<close>

fun goal_ok :: "goal \<Rightarrow> ('j, 'r) tg_bot_ctx \<Rightarrow> bool" where
  "goal_ok (Hand_over j) ctx = (ctx_updates ctx \<noteq> NULL \<and> update_at (ctx_mem ctx) (update_addr (ctx_updates ctx) j) \<noteq> None)"
| "goal_ok Ask ctx = True"

fun place_ok :: "main_pc \<Rightarrow> ('j, 'r) tg_bot_ctx \<Rightarrow> bool" where
  "place_ok (M_get h i res g) ctx = goal_ok g ctx"
| "place_ok (M_refill h i res g h1 t) ctx = goal_ok g ctx"
| "place_ok (M_retry h i res g) ctx =
     (goal_ok g ctx \<and> (ring_should_stop (ctx_ring ctx) \<or> sq_head (ctx_ring ctx) = sq_tail (ctx_ring ctx)))"
| "place_ok (M_updates h i res j) ctx = (ctx_updates ctx \<noteq> NULL)"
| "place_ok pc ctx = True"

lemma goal_ok_request: "goal_ok g ctx \<Longrightarrow> names_update (ctx_mem ctx) (goal_request g ctx)"
  by (cases g) (simp_all add: names_update_def goal_request_def poll_request_def ring_op_defs)

lemma goal_ok_cong:
  "goal_ok g ctx \<Longrightarrow> grows (ctx_mem ctx) (ctx_mem ctx') \<Longrightarrow> ctx_updates ctx' = ctx_updates ctx \<Longrightarrow> goal_ok g ctx'"
  by (cases g) (simp_all add: grows_update_at del: not_None_eq)

lemma place_ok_cong:
  assumes "place_ok pc ctx" and "grows (ctx_mem ctx) (ctx_mem ctx')" and "at_poll pc \<Longrightarrow> ctx_updates ctx' = ctx_updates ctx"
    and "ring_should_stop (ctx_ring ctx') = ring_should_stop (ctx_ring ctx)"
    and "sq_head (ctx_ring ctx') = sq_head (ctx_ring ctx)" and "sq_tail (ctx_ring ctx') = sq_tail (ctx_ring ctx)"
  shows "place_ok pc ctx'"
  using assms by (cases pc) (auto intro: goal_ok_cong)

text \<open>What a step without a submission keeps, and where it crashes.\<close>

definition local_ok :: "('j, 'r) tg_bot_ctx \<Rightarrow> main_pc \<Rightarrow> ('j, 'r) tg_bot_ctx \<Rightarrow> gw_ring_sqe list \<Rightarrow> bool" where
  "local_ok ctx pc' ctx' made =
     (grows (ctx_mem ctx) (ctx_mem ctx') \<and> batch_ok ctx' \<and> place_ok pc' ctx' \<and> list_all (names_update (ctx_mem ctx')) made)"

lemma got_sqe_ok:
  assumes "got_sqe h i res g sqe ctx1 = (pc', ctx', made)" and "goal_ok g ctx" and "batch_ok ctx"
    and "ctx_mem ctx1 = ctx_mem ctx" and "ctx_updates ctx1 = ctx_updates ctx"
  shows "local_ok ctx pc' ctx' made \<and> \<not> crashed pc'"
proof -
  have "goal_ok g ctx1" using goal_ok_cong [OF assms(2)] assms(4,5) grows_same by metis
  note names = goal_ok_request [OF this, unfolded assms(4)]
  show ?thesis
    using assms names grows_same [of "ctx_mem ctx" "ctx_mem ctx"]
    by (cases g; cases "res = 0") (auto simp: got_sqe_def after_goal_def write_goal_def Let_def local_ok_def batch_ok_def)
qed

lemma get_sqe_frame:
  "ctx_get_sqe ctx = (so, ctx1) \<Longrightarrow> ctx_mem ctx1 = ctx_mem ctx \<and> ctx_updates ctx1 = ctx_updates ctx"
  by (auto simp: ctx_get_sqe_def split: prod.splits)

lemma batch_ok_frame:
  "batch_ok ctx \<Longrightarrow> arrays (ctx_mem ctx') = arrays (ctx_mem ctx) \<Longrightarrow> ctx_updates ctx' = ctx_updates ctx \<Longrightarrow> batch_ok ctx'"
  by (simp add: batch_ok_def)

lemma local_okI:
  "batch_ok ctx \<Longrightarrow> arrays (ctx_mem ctx') = arrays (ctx_mem ctx) \<Longrightarrow> ctx_updates ctx' = ctx_updates ctx \<Longrightarrow>
   place_ok pc' ctx' \<Longrightarrow> local_ok ctx pc' ctx' []"
  by (simp add: local_ok_def grows_same batch_ok_frame)

lemma main_local_ok:
  assumes step: "main_local js pc ctx = Some (pc', ctx', made)" and inv: "ring_inv pc (ctx_ring ctx)"
    and ok: "batch_ok ctx" "place_ok pc ctx"
  shows "local_ok ctx pc' ctx' made \<and>
    (crashed pc' \<longrightarrow> ring_should_stop (ctx_ring ctx) \<or>
       (\<exists>h i res j. pc = M_updates h i res j) \<and> map_of (arrays (ctx_mem ctx)) (ctx_updates ctx) = None)"
proof (cases pc)
  case M_wait
  with step ok(1) show ?thesis
    by (auto simp: Let_def split: if_splits option.splits prod.splits intro!: local_okI)
next
  case (M_cqes h i ret)
  with step ok(1) show ?thesis
    by (auto simp: Let_def split: if_splits option.splits intro!: local_okI)
next
  case (M_updates h i res j)
  show ?thesis
  proof (cases "map_of (arrays (ctx_mem ctx)) (ctx_updates ctx)")
    case None
    with M_updates step ok(1) show ?thesis by (auto intro!: local_okI)
  next
    case (Some ups)
    let ?u = "updates_arr ups ! unat j"
    have "pc' = M_get h i res (Hand_over j) \<and> unat j < updates_len ups \<and> ctx' = noted js [?u] ctx \<and> made = [] \<or>
        pc' = M_get h i res Ask \<and> ctx' = ctx \<and> made = []"
      using step M_updates Some by (auto split: if_splits)
    moreover have "update_at (json_ref js (update_json ?u) (ctx_mem ctx)) (update_addr (ctx_updates ctx) j) \<noteq> None"
      if "unat j < updates_len ups"
      using that ok M_updates Some by (simp add: batch_ok_def update_at_arrays)
    ultimately show ?thesis
      using ok M_updates Some by (auto intro!: local_okI simp: tgapi_inc_ref_update_def)
  qed
next
  case (M_get h i res g)
  obtain so ctx1 where get: "ctx_get_sqe ctx = (so, ctx1)" by (cases "ctx_get_sqe ctx")
  note fr = get_sqe_frame [OF get]
  show ?thesis
  proof (cases so)
    case None
    have "goal_ok g ctx1" using goal_ok_cong [of g ctx ctx1] M_get ok(2) fr by (simp add: grows_same)
    with None M_get step get fr ok(1) show ?thesis
      by (cases "ring_should_stop (ctx_ring ctx1)") (auto intro!: local_okI)
  next
    case (Some sqe)
    with M_get step get have "got_sqe h i res g sqe ctx1 = (pc', ctx', made)" by simp
    from got_sqe_ok [OF this] M_get ok fr show ?thesis by simp
  qed
next
  case (M_refill h i res g h1 t)
  with inv have "t = sq_tail (ctx_ring ctx)" by (simp add: ring_inv_def)
  moreover have "goal_ok g (on_ring f ctx)" for f
    using goal_ok_cong [of g ctx "on_ring f ctx"] M_refill ok(2) by (simp add: grows_same)
  ultimately show ?thesis using step M_refill ok(1) by (auto split: if_splits intro!: local_okI)
next
  case (M_retry h i res g)
  obtain so ctx1 where get: "ctx_get_sqe ctx = (so, ctx1)" by (cases "ctx_get_sqe ctx")
  note fr = get_sqe_frame [OF get]
  show ?thesis
  proof (cases so)
    case None
    have "ring_should_stop (ctx_ring ctx)"
    proof (rule ccontr)
      assume "\<not> ring_should_stop (ctx_ring ctx)"
      then have sq: "sq_ok (ctx_ring ctx)" "sq_head (ctx_ring ctx) = sq_tail (ctx_ring ctx)"
        using M_retry inv ok by (simp_all add: ring_inv_def)
      then have "\<not> sq_blocked (ctx_ring ctx)" by (auto simp: sq_blocked_def sq_ok_def dest: circ_ok_length)
      with free_slot [OF sq(1) get] None show False by simp
    qed
    with None M_retry step get fr ok(1) show ?thesis by (auto intro!: local_okI)
  next
    case (Some sqe)
    with M_retry step get have "got_sqe h i res g sqe ctx1 = (pc', ctx', made)" by simp
    from got_sqe_ok [OF this _ ok(1)] M_retry ok(2) fr show ?thesis by simp
  qed
qed (use step ok in \<open>auto split: if_splits intro!: local_okI\<close>)

section \<open>The crash of the main thread\<close>

definition crash_inv :: "('j, 'r) bot_sys \<Rightarrow> bool" where
  "crash_inv s = (bot_inv s \<and> batch_ok (bs_ctx s) \<and> place_ok (bs_main s) (bs_ctx s) \<and>
     list_all (names_update (ctx_mem (bs_ctx s))) (sq_contents (sq_view (bs_main s) (bs_ring s)) @ map snd (bs_datas s)))"



lemma names_all: "grows m m' \<Longrightarrow> list_all (names_update m) xs \<Longrightarrow> list_all (names_update m') xs"
  by (auto simp: list_all_iff intro: grows_names)

lemma at_poll_exec:
  assumes inv: "bot_inv s" and poll: "at_poll (bs_main s)" and w: "W_exec w \<in> set (bs_workers s)"
    and sqe: "map_of (bs_datas s) (arg w) = Some sqe"
  shows "sqe_op sqe \<noteq> GW_RING_OP_TG_API_CALL"
proof -
  have "blocks_inv s" using inv by (simp add: bot_inv_def)
  note req = block_of_request [OF this sqe]
  from sum_list_memI [OF w, of "arg w" exec_of] have "arg w \<in># live_blocks s" by (simp add: live_blocks_def)
  then have "sqe \<in># in_pool s" using sqe by (force simp: in_pool_def)
  then have "is_poll_sqe sqe \<Longrightarrow> sqe \<in># filter_mset is_poll_sqe (in_queue s + in_pool s)" by simp
  then have "\<not> is_poll_sqe sqe" using inv_not_shared [OF inv poll] by auto
  then show ?thesis using req by (auto simp: request_ok_def)
qed

lemma submitted_names:
  assumes inv: "bot_inv s" and names: "list_all (names_update m) (sq_contents (sq_view (bs_main s) (bs_ring s)) @ map snd (bs_datas s))"
    and pc: "submitting (bs_main s) = Some (h, t)" "h \<noteq> t"
    and sqe: "sqe = sqes (bs_ring s) ! slot h (sq_mask (bs_ring s))" and e: "io_others e = []"
    and sub: "submit_sqe sqe (e, snd (ctx_io (bs_ctx s))) = Some (ok, io)"
  shows "names_update m sqe" and "sq_head (ring (snd io)) = sq_head (bs_ring s)" and "sq_tail (ring (snd io)) = sq_tail (bs_ring s)"
    and "ring_should_stop (ring (snd io)) = ring_should_stop (bs_ring s)"
    and "list_all (names_update m) (sq_contents (sq_view (one_submitted (bs_main s)) (ring (snd io))) @ map snd (datas (snd io)))"
proof -
  have i: "ring_inv (bs_main s) (bs_ring s)" "blocks_inv s" using inv by (simp_all add: bot_inv_def)
  note nxt = submitting_next [OF i(1) pc, folded sqe]
  obtain e' rs' where io: "io = (e', rs')" by (cases io)
  have rs: "ring (snd (ctx_io (bs_ctx s))) = bs_ring s" "datas (snd (ctx_io (bs_ctx s))) = bs_datas s"
    by (simp_all add: ctx_ring_def ctx_datas_def)
  have "wq_ok (ring_wq (bs_ring s))" "is_punted sqe" using i(2) nxt(1) by (simp_all add: blocks_inv_def request_ok_def)
  from submit_effect [OF sub [unfolded io] e, unfolded rs, OF this] obtain q where
    r: "ring rs' = (bs_ring s)\<lparr>ring_wq := q\<rparr>" and d: "datas rs' = (if ok then [(fresh_ptr (bs_datas s), sqe)] else []) @ bs_datas s"
    by blast
  show "names_update m sqe" using names nxt(1) by simp
  then show "list_all (names_update m) (sq_contents (sq_view (one_submitted (bs_main s)) (ring (snd io))) @ map snd (datas (snd io)))"
    using names nxt(1) by (simp add: io r d)
  show "sq_head (ring (snd io)) = sq_head (bs_ring s)" "sq_tail (ring (snd io)) = sq_tail (bs_ring s)"
    "ring_should_stop (ring (snd io)) = ring_should_stop (bs_ring s)" by (simp_all add: io r)
qed

lemma one_submitted_place [simp]: "place_ok (one_submitted pc) ctx = place_ok pc ctx"
  by (cases pc) simp_all

lemma crash_inv_step:
  assumes inv: "crash_inv s" and step: "bot_step js s a t"
  shows "crash_inv t"
proof -
  let ?m = "ctx_mem (bs_ctx s)"
  have i: "bot_inv s" "ring_inv (bs_main s) (bs_ring s)" "blocks_inv s" and batch: "batch_ok (bs_ctx s)"
    and place: "place_ok (bs_main s) (bs_ctx s)"
    and names: "list_all (names_update ?m) (sq_contents (sq_view (bs_main s) (bs_ring s)) @ map snd (bs_datas s))"
    using inv by (simp_all add: crash_inv_def bot_inv_def)
  have "batch_ok (bs_ctx t) \<and> place_ok (bs_main t) (bs_ctx t) \<and>
    list_all (names_update (ctx_mem (bs_ctx t))) (sq_contents (sq_view (bs_main t) (bs_ring t)) @ map snd (bs_datas t))"
    using step
  proof cases
    case (bot_local pc ctx made)
    from main_local_ok [OF bot_local(3) i(2) batch place] have ok: "local_ok (bs_ctx s) pc ctx made" by blast
    from main_local_effect [OF bot_local(3) i(2)]
    have "sq_contents (sq_view pc (ctx_ring ctx)) = sq_contents (sq_view (bs_main s) (bs_ring s)) @ made"
      "ctx_datas ctx = bs_datas s" by (simp_all add: main_effect_def)
    with ok names_all [OF _ names, of "ctx_mem ctx"] show ?thesis by (simp add: bot_local(2) local_ok_def)
  next
    case (bot_submit h t' sqe e ok io m)
    note sub = submitted_names [OF i(1) names bot_submit(3,4,6-8)]
    note g = grows_dropped [OF bot_submit(9)]
    let ?ctx = "(bs_ctx s)\<lparr>ctx_io := io, ctx_mem := m\<rparr>"
    have "batch_ok ?ctx" by (rule grows_batch [OF g batch refl]) simp_all
    moreover have "place_ok (bs_main s) ?ctx"
      by (rule place_ok_cong [OF place]) (simp_all add: g sub(2-4))
    ultimately show ?thesis using names_all [OF g sub(5)] by (simp add: bot_submit(2) ctx_datas_def)
  next
    case (bot_submit_crash h t' sqe e ok io)
    from submitted_names(1) [OF i(1) names bot_submit_crash(3,4,6-8)] dropped_freed bot_submit_crash(9)
    show ?thesis by metis
  next
    case (bot_section i pc turn q ev)
    have "place_ok (bs_main s) (bs_ctx t)"
      by (rule place_ok_cong [OF place]) (simp_all add: bot_section(2) grows_same)
    with names batch show ?thesis by (simp add: bot_section(2) batch_ok_def)
  next
    case (bot_wake i pc pc')
    with names batch place show ?thesis by simp
  next
    case (bot_exec i w sqe net world)
    have req: "request_ok sqe" by (rule block_of_request [OF i(3) bot_exec(5)])
    obtain res where r: "ctx_ring (fst world) = fst (snd (post_cqe sqe res (bs_ring s)))"
      and d: "ctx_datas (fst world) = bs_datas s"
      by (rule worker_exec_effect [OF bot_exec(6,5) req])
    then have ring: "ring_should_stop (ctx_ring (fst world)) = ring_should_stop (bs_ring s)"
        "sq_head (ctx_ring (fst world)) = sq_head (bs_ring s)" "sq_tail (ctx_ring (fst world)) = sq_tail (bs_ring s)"
      by (simp_all add: post_cqe_def Let_def cq_push_def)
    obtain ret w1 where c: "worker_call js net sqe (bs_world s) = Some (ret, w1)"
      and m: "ctx_mem (fst world) = ctx_mem (fst w1)" "ctx_updates (fst world) = ctx_updates (fst w1)"
      by (rule worker_exec_call [OF bot_exec(6,5)])
    from grows_worker_call [OF c] have g: "grows ?m (ctx_mem (fst world))"
      "ctx_updates (fst world) = ctx_updates (bs_ctx s) \<or> map_of (arrays ?m) (ctx_updates (fst world)) = None"
      by (simp_all add: m)
    have W: "W_exec w \<in> set (bs_workers s)" using bot_exec(3,4) by (metis nth_mem)
    have "place_ok (bs_main s) (fst world)"
    proof (rule place_ok_cong [OF place g(1)])
      assume "at_poll (bs_main s)"
      from worker_call_module [OF c at_poll_exec [OF i(1) this W bot_exec(5)]] m(2)
      show "ctx_updates (fst world) = ctx_updates (bs_ctx s)" by simp
    qed (rule ring)+
    moreover have "batch_ok (fst world)" by (rule grows_batch [OF g(1) batch refl refl g(2)])
    moreover have "sq_contents (sq_view (bs_main s) (ctx_ring (fst world))) = sq_contents (sq_view (bs_main s) (bs_ring s))"
      by (rule post_effect(3) [OF i(2) r])
    ultimately show ?thesis using names_all [OF g(1) names] by (simp add: bot_exec(2) d)
  next
    case (bot_delete i w ctx)
    note eff = worker_delete_effect [OF bot_delete(5)] and g = grows_worker_delete [OF bot_delete(5)]
    have "place_ok (bs_main s) ctx" by (rule place_ok_cong [OF place]) (simp_all add: g eff)
    moreover have "batch_ok ctx" by (rule grows_batch [OF g [THEN conjunct2] batch refl refl]) (simp add: g)
    ultimately show ?thesis using names_all [OF g [THEN conjunct2] names] eff
      by (auto simp: bot_delete(2) list_all_iff heap_free_def)
  qed
  with bot_step_inv [OF i(1) step] show ?thesis by (simp add: crash_inv_def)
qed

lemma crash_inv_init:
  assumes "bot_init js s"
  shows "crash_inv s"
proof -
  obtain ctx0 ctx ws where fresh: "fresh_bot ctx0" and arm: "arm_update_sqe js ctx0 = Some (Done ctx)"
    and s: "bs_world s = (ctx, [])" "bs_main s = M_top"
    using assms unfolding bot_init_def by auto
  let ?r = "ctx_ring ctx0" and ?p = "poll_request (ctx_max_update_id ctx0 + 1)"
  have f: "sq_ok ?r" "sq_head ?r = 0" "sq_tail ?r = 0" "ctx_datas ctx0 = []"
    using fresh by (simp_all add: fresh_bot_def ring_ok_def)
  have len: "0 < length (sqes ?r)" using f(1) circ_ok_length by (auto simp: sq_ok_def)
  then have "sq_room (Suc 0) ?r" using f by (simp add: sq_room_def Suc_le_eq)
  from arm_room [OF this] arm have ctx: "ctx = on_ring (sq_push ?p) (ctx0\<lparr>ctx_updates := NULL\<rparr>)" by simp
  have "sq_contents (sq_push ?p ?r) = [?p]"
    using sq_push_ok [OF f(1), of ?p] len f(2,3) by (simp add: sq_contents_def)
  then show ?thesis using bot_init_inv [OF assms]
    by (simp add: crash_inv_def s ctx f batch_ok_def names_update_def poll_request_def ring_op_defs)
qed

interpretation bot_crash: invariant_system "bot_init js" "bot_step js" crash_inv
  by unfold_locales (rule crash_inv_init, assumption, rule crash_inv_step, assumption+)

text \<open>
  C7: in every interleaving, as long as the ring is not being stopped, the main thread has one step that crashes, whatever
  allocation fails and whichever updates the submissions drop: the first look at the array of a batch of updates, when no such array
  exists. It is not the unchecked second answer of \<open>gw_ring_get_sqe\<close>, which is never \<open>NULL\<close>, and not the release of
  an update by a submission. The witness reaches such a step: Telegram answers the first poll with a list that contains \<open>null\<close>.
\<close>

theorem crash_cause:
  assumes "bot_reach js s" and "bot_step js s a t" and "\<not> ring_should_stop (bs_ring s)"
    and "\<not> crashed (bs_main s)" and "crashed (bs_main t)"
  shows "\<exists>h i res j. bs_main s = M_updates h i res j \<and> bs_main t = M_crash (M_updates h i res j) \<and>
    map_of (arrays (ctx_mem (bs_ctx s))) (ctx_updates (bs_ctx s)) = None"
proof -
  have inv: "bot_inv s" "ring_inv (bs_main s) (bs_ring s)" "batch_ok (bs_ctx s)" "place_ok (bs_main s) (bs_ctx s)"
    and names: "list_all (names_update (ctx_mem (bs_ctx s))) (sq_contents (sq_view (bs_main s) (bs_ring s)) @ map snd (bs_datas s))"
    using bot_crash.reach_inv [OF assms(1)] by (simp_all add: crash_inv_def bot_inv_def)
  from assms(2) show ?thesis
  proof cases
    case (bot_local pc ctx made)
    with main_local_ok [OF bot_local(3) inv(2-4)] assms(3,5) obtain h i res j where
      "bs_main s = M_updates h i res j" "map_of (arrays (ctx_mem (bs_ctx s))) (ctx_updates (bs_ctx s)) = None" by auto
    moreover from this bot_local(3) have "pc = M_crash (M_updates h i res j)" by simp
    ultimately show ?thesis by (simp add: bot_local(2))
  next
    case (bot_submit h t' sqe e ok io m)
    with assms(4,5) show ?thesis by (cases "bs_main s") simp_all
  next
    case (bot_submit_crash h t' sqe e ok io)
    from submitted_names(1) [OF inv(1) names bot_submit_crash(3,4,6-8)] dropped_freed bot_submit_crash(9)
    show ?thesis by metis
  qed (use assms(4,5) in simp_all)
qed

section \<open>A crash\<close>

lemma local_reach:
  assumes "bot_reach js s" and "main_local js (bs_main s) (bs_ctx s) = Some (pc, ctx, made)"
  obtains t where "bot_reach js t" and "bs_main t = pc" and "bs_ctx t = ctx"
proof -
  note step = bot_step.bot_local [OF assms(2)]
  show ?thesis by (rule that [OF reach_next [OF assms(1), OF step]]) simp_all
qed

definition null_answer :: json where
  "null_answer = J_obj [(''result'', J_arr [J_null])]"

lemma call_null_answer:
  assumes "tg_mallocs (ctx_mem ctx) = []"
  obtains m p where "call_get_updates sample_js (sample_net null_answer) call ctx =
      Some (0, ctx\<lparr>ctx_mem := m, ctx_updates := p\<rparr>)"
    and "p \<noteq> NULL" and "map_of (arrays m) p = None"
proof -
  have get: "js_get sample_js null_answer ''result'' = Some (J_arr [J_null])" by (simp add: sample_js_def null_answer_def)
  have "0 < min (js_length sample_js (J_arr [J_null])) (2 ^ 64 - 1 :: nat)" by (simp add: sample_js_def)
  moreover have "js_idx sample_js (J_arr [J_null]) 0 = js_null sample_js" by (simp add: sample_js_def)
  moreover have "fst (next_alloc (tg_mallocs (ctx_mem ctx)))" by (simp add: assms)
  ultimately obtain p m where
    "tgapi_parse_updates_len_max sample_js (tok_once null_answer) (2 ^ 64 - 1) (ctx_updates ctx) (ctx_mem ctx) = Some (0, p, m)"
    "p \<noteq> NULL" "map_of (arrays m) p = None"
    using parse_updates_null_element [OF parse_json_once get] by blast
  moreover from this have "call_get_updates sample_js (sample_net null_answer) call ctx =
      Some (0, ctx\<lparr>ctx_mem := m, ctx_updates := p\<rparr>)"
    by (simp add: call_get_updates_def tgapi_call_get_updates_def curl_http_get_def sample_net_fields
        tgapi_parse_updates_len_def)
  ultimately show ?thesis using that by blast
qed

lemma first_poll_state:
  obtains s where "bot_reach sample_js s" and "bs_main s = M_wait" and "bs_workers s = [W_exec (punted_work 1)]"
    and "map_of (bs_datas s) 1 = Some (poll_request 1)" and "tg_mallocs (ctx_mem (bs_ctx s)) = []"
    and "cq_head (bs_ring s) = 0" and "cq_tail (bs_ring s) = 0" and "cq_mask (bs_ring s) = 3"
    and "length (cqes (bs_ring s)) = 4" and "\<not> ring_should_stop (bs_ring s)"
proof -
  have "map_option (\<lambda>s. (bs_main s, bs_workers s, map_of (bs_datas s) 1, tg_mallocs (ctx_mem (bs_ctx s)), cq_head (bs_ring s),
        cq_tail (bs_ring s), cq_mask (bs_ring s), length (cqes (bs_ring s)), ring_should_stop (bs_ring s)))
      (exec_bots sample_js failing_net first_poll sample_bot) =
    Some (M_wait, [W_exec (punted_work 1)], Some (poll_request 1), [], 0, 0, 3, 4, False)" by code_simp
  then obtain s where s: "exec_bots sample_js failing_net first_poll sample_bot = Some s"
    and "bs_main s = M_wait" "bs_workers s = [W_exec (punted_work 1)]" "map_of (bs_datas s) 1 = Some (poll_request 1)"
      "tg_mallocs (ctx_mem (bs_ctx s)) = []" "cq_head (bs_ring s) = 0" "cq_tail (bs_ring s) = 0" "cq_mask (bs_ring s) = 3"
      "length (cqes (bs_ring s)) = 4" "\<not> ring_should_stop (bs_ring s)" by auto
  moreover have "bot_reach sample_js s" by (rule exec_bots_reach [OF s sample_bot_reach])
  ultimately show ?thesis using that by blast
qed

lemma null_crash:
  obtains s t where "bot_reach sample_js s" and "bot_step sample_js s Main t" and "\<not> ring_should_stop (bs_ring s)"
    and "\<not> crashed (bs_main s)" and "crashed (bs_main t)"
proof -
  obtain s where r: "bot_reach sample_js s" and main: "bs_main s = M_wait" and w: "bs_workers s = [W_exec (punted_work 1)]"
    and d: "map_of (bs_datas s) 1 = Some (poll_request 1)" and mem: "tg_mallocs (ctx_mem (bs_ctx s)) = []"
    and cq: "cq_head (bs_ring s) = 0" "cq_tail (bs_ring s) = 0" "cq_mask (bs_ring s) = 3" "length (cqes (bs_ring s)) = 4"
      "\<not> ring_should_stop (bs_ring s)"
    by (rule first_poll_state)
  obtain m p where call: "call_get_updates sample_js (sample_net null_answer) \<lparr>call_op = TG_API_GET_UPDATES,
      call_ctx = CTX_TCTX, updates_p = CTX_UPDATES, call_offset = 1\<rparr> (bs_ctx s) =
      Some (0, (bs_ctx s)\<lparr>ctx_mem := m, ctx_updates := p\<rparr>)"
    and p: "p \<noteq> NULL" "map_of (arrays m) p = None"
    by (rule call_null_answer [OF mem])
  let ?io = "ctx_io (bs_ctx s)" and ?c = "cqe_of (poll_request 1) 0"
  let ?ctx = "(bs_ctx s)\<lparr>ctx_mem := m, ctx_updates := p, ctx_io := (fst ?io, snd (post_in (poll_request 1) 0 (snd ?io)))\<rparr>"
  from worker_exec_poll [OF d call, of "snd (bs_world s)"]
  have ex: "worker_exec sample_js (sample_net null_answer) (arg (punted_work 1)) (bs_world s) = Some (?ctx, snd (bs_world s))"
    by (simp add: punted_work_def)
  have st: "0 < length (bs_workers s)" "bs_workers s ! 0 = W_exec (punted_work 1)"
    "map_of (bs_datas s) (arg (punted_work 1)) = Some (poll_request 1)" using w d by (simp_all add: punted_work_def)
  have "\<exists>t. bot_step sample_js s (Worker 0) t \<and> bs_main t = M_wait \<and> bs_ctx t = ?ctx"
    by (intro exI, intro conjI, rule bot_step.bot_exec [OF st ex]) (simp_all add: main)
  then obtain s1 where "bot_step sample_js s (Worker 0) s1" and s1: "bs_main s1 = M_wait" "bs_ctx s1 = ?ctx"
    by blast
  from reach_next [OF r, OF this(1)] have r1: "bot_reach sample_js s1" .
  let ?r = "cq_push ?c (bs_ring s)"
  have ring: "ctx_ring ?ctx = ?r"
    using cq by (simp add: post_in_fields) (simp add: ctx_ring_def post_cqe_def u32_diff_def Let_def)
  have f: "cq_head ?r = 0" "cq_tail ?r = 1" "cq_mask ?r = 3" "\<not> ring_should_stop ?r" "cqes ?r ! slot 0 3 = ?c"
    using cq by (simp_all add: cq_push_def slot_def)
  have pos: "0 < sint (u32_diff 1 0)" by code_simp
  then obtain sl where pass: "wait_cqe_pass ?r = (Some (sint (u32_diff 1 0), sl), ?r)"
    by (simp add: wait_cqe_pass_def gw_ring_wait_cqe_once_def f)
  have same: "on_ring (\<lambda>_. ?r) ?ctx = ?ctx" using ring by (simp add: on_ring_def)
  have 1: "main_local sample_js (bs_main s1) (bs_ctx s1) = Some (M_cqes 0 0 (sint (u32_diff 1 0)), ?ctx, [])"
    unfolding s1 main_local.simps ring pass prod.case option.case same f(1) using pos by simp
  obtain s2 where r2: "bot_reach sample_js s2" and s2: "bs_main s2 = M_cqes 0 0 (sint (u32_diff 1 0))" "bs_ctx s2 = ?ctx"
    by (rule local_reach [OF r1 1])
  have poll: "is_poll ?c" "poll_res ?c = 0" by (simp_all add: poll_request_facts) (simp add: poll_res_def cqe_of_def)
  have "gw_ring_load_head_cqe 0 ?r = Some ?c" by (simp add: gw_ring_load_head_cqe_def f)
  then have 2: "main_local sample_js (bs_main s2) (bs_ctx s2) = Some (M_updates 0 0 0 0, ?ctx, [])"
    using poll p(1) unfolding s2 main_local.simps ring by (simp add: Let_def)
  obtain s3 where r3: "bot_reach sample_js s3" and s3: "bs_main s3 = M_updates 0 0 0 0" "bs_ctx s3 = ?ctx"
    by (rule local_reach [OF r2 2])
  have 3: "main_local sample_js (bs_main s3) (bs_ctx s3) = Some (M_crash (M_updates 0 0 0 0), ?ctx, [])"
    unfolding s3 by (simp add: p(2))
  show ?thesis by (rule that [OF r3 bot_step.bot_local [OF 3]]) (use ring f(4) in \<open>simp_all add: s3\<close>)
qed

theorem crash_cause_witness:
  "\<exists>s t. bot_reach sample_js s \<and> bot_step sample_js s Main t \<and> (\<exists>h i res j. bs_main s = M_updates h i res j \<and>
     bs_main t = M_crash (M_updates h i res j) \<and> map_of (arrays (ctx_mem (bs_ctx s))) (ctx_updates (bs_ctx s)) = None)"
proof -
  obtain s t where s: "bot_reach sample_js s" "bot_step sample_js s Main t" "\<not> ring_should_stop (bs_ring s)"
    "\<not> crashed (bs_main s)" "crashed (bs_main t)" by (rule null_crash)
  from crash_cause [OF s] s(1,2) show ?thesis by blast
qed

end
