(* ===== verification/BotRefine.thy ===== *)
theory BotRefine
  imports BotSys
begin

text \<open>
  The main thread of theory BotSys against the whole functions of theory BotMain: left alone, its small steps do what
  \<open>run_tg_bot_loop\<close> does, forced submissions and crashes included.
\<close>

section \<open>Runs of the main thread\<close>

text \<open>The main thread alone gets from one place to another.\<close>

definition leads ::
    "('j, 'r) json_ops \<Rightarrow> main_pc \<Rightarrow> ('j, 'r) tg_bot_ctx \<Rightarrow> main_pc \<Rightarrow> ('j, 'r) tg_bot_ctx \<Rightarrow> bool" where
  "leads js pc ctx pc' ctx' =
     (\<forall>s. bs_main s = pc \<and> bs_ctx s = ctx \<longrightarrow>
        (\<exists>k t. steps (bot_step js) ((=) Main) k s t \<and> bs_main t = pc' \<and> bs_ctx t = ctx' \<and>
           bs_workers t = bs_workers s))"

lemma steps_trans: "steps step mine k t u \<Longrightarrow> steps step mine j s t \<Longrightarrow> steps step mine (j + k) s u"
  by (induction rule: steps.induct) (auto intro: steps_more)

lemma leads_refl: "leads js pc ctx pc ctx"
  unfolding leads_def by (blast intro: steps_none)

lemma leads_trans:
  assumes "leads js a c a1 c1" and "leads js a1 c1 a2 c2"
  shows "leads js a c a2 c2"
  unfolding leads_def
proof (intro allI impI)
  fix s :: "('a, 'b) bot_sys"
  assume s: "bs_main s = a \<and> bs_ctx s = c"
  obtain k t where t: "steps (bot_step js) ((=) Main) k s t" "bs_main t = a1" "bs_ctx t = c1" "bs_workers t = bs_workers s"
    using assms(1) s unfolding leads_def by blast
  obtain m u where u: "steps (bot_step js) ((=) Main) m t u" "bs_main u = a2" "bs_ctx u = c2" "bs_workers u = bs_workers t"
    using assms(2) t(2,3) unfolding leads_def by blast
  from steps_trans [OF u(1) t(1)] u t(4)
  show "\<exists>k t. steps (bot_step js) ((=) Main) k s t \<and> bs_main t = a2 \<and> bs_ctx t = c2 \<and> bs_workers t = bs_workers s"
    by auto
qed

lemma leads_step:
  assumes "\<And>s. bs_main s = pc \<Longrightarrow> bs_ctx s = ctx \<Longrightarrow>
    \<exists>t. bot_step js s Main t \<and> bs_main t = pc' \<and> bs_ctx t = ctx' \<and> bs_workers t = bs_workers s"
  shows "leads js pc ctx pc' ctx'"
  unfolding leads_def using assms by (blast intro: steps_more steps_none)

lemma leads_local:
  assumes "main_local js pc ctx = Some (pc', ctx', made)"
  shows "leads js pc ctx pc' ctx'"
proof (rule leads_step)
  fix s assume s: "bs_main s = pc" "bs_ctx s = ctx"
  then have "main_local js (bs_main s) (bs_ctx s) = Some (pc', ctx', made)" using assms by simp
  note st = bot_step.bot_local [OF this]
  show "\<exists>t. bot_step js s Main t \<and> bs_main t = pc' \<and> bs_ctx t = ctx' \<and> bs_workers t = bs_workers s"
    by (intro exI, intro conjI, rule st) (simp_all add: set_ctx_def s)
qed

text \<open>The main thread alone crashes.\<close>

definition crashes :: "('j, 'r) json_ops \<Rightarrow> main_pc \<Rightarrow> ('j, 'r) tg_bot_ctx \<Rightarrow> bool" where
  "crashes js pc ctx = (\<exists>pc' ctx'. leads js pc ctx (M_crash pc') ctx')"

lemma crashes_trans: "leads js pc ctx pc1 ctx1 \<Longrightarrow> crashes js pc1 ctx1 \<Longrightarrow> crashes js pc ctx"
  unfolding crashes_def using leads_trans by blast

section \<open>Submissions\<close>

text \<open>Nobody else acts during a sleep of the main thread in \<open>queue_work\<close>.\<close>

definition alone :: "('j, 'r) tg_bot_ctx \<Rightarrow> bool" where
  "alone ctx = (io_others (fst (ctx_io ctx)) = [])"

text \<open>One request.\<close>

lemma leads_submit:
  assumes pc: "submitting pc = Some (h, t)" "h \<noteq> t" "\<not> crashed pc" and alone: "alone ctx"
    and sub: "ctx_submit_sqe js (sqes (ctx_ring ctx) ! slot h (sq_mask (ctx_ring ctx))) ctx = Some oc"
  shows "case oc of Crash \<Rightarrow> crashes js pc ctx | Done (ok, ctx1) \<Rightarrow> leads js pc ctx (one_submitted pc) ctx1"
proof -
  let ?sqe = "sqes (ctx_ring ctx) ! slot h (sq_mask (ctx_ring ctx))"
  have others: "io_others (fst (ctx_io ctx)) = []" using alone by (simp add: alone_def)
  obtain ok io where io: "submit_sqe ?sqe (fst (ctx_io ctx), snd (ctx_io ctx)) = Some (ok, io)"
    and oc: "oc = (case free_dropped js ?sqe ok (ctx_mem ctx) of
      None \<Rightarrow> Crash | Some m \<Rightarrow> Done (ok, ctx\<lparr>ctx_io := io, ctx_mem := m\<rparr>))"
    using sub by (auto simp: ctx_submit_sqe_def split: option.splits)
  show ?thesis
  proof (cases "free_dropped js ?sqe ok (ctx_mem ctx)")
    case None
    have "leads js pc ctx (M_crash (one_submitted pc)) (ctx\<lparr>ctx_io := io\<rparr>)"
    proof (rule leads_step)
      fix s assume s: "bs_main s = pc" "bs_ctx s = ctx"
      note st = bot_step.bot_submit_crash [of s h t ?sqe, unfolded s, OF pc refl others io None]
      show "\<exists>t. bot_step js s Main t \<and> bs_main t = M_crash (one_submitted pc) \<and> bs_ctx t = ctx\<lparr>ctx_io := io\<rparr> \<and>
          bs_workers t = bs_workers s"
        by (intro exI, intro conjI, rule st) (simp_all add: set_ctx_def s)
    qed
    then show ?thesis using oc None by (auto simp: crashes_def)
  next
    case (Some m)
    have "leads js pc ctx (one_submitted pc) (ctx\<lparr>ctx_io := io, ctx_mem := m\<rparr>)"
    proof (rule leads_step)
      fix s assume s: "bs_main s = pc" "bs_ctx s = ctx"
      note st = bot_step.bot_submit [of s h t ?sqe, unfolded s, OF pc refl others io Some]
      show "\<exists>t. bot_step js s Main t \<and> bs_main t = one_submitted pc \<and> bs_ctx t = ctx\<lparr>ctx_io := io, ctx_mem := m\<rparr> \<and>
          bs_workers t = bs_workers s"
        by (intro exI, intro conjI, rule st) (simp_all add: set_ctx_def s)
    qed
    then show ?thesis using oc Some by simp
  qed
qed

lemma submit_sqe_alone:
  assumes "submit_sqe sqe (e, rs) = Some (ok, (e', rs'))" and "io_others e = []"
  shows "io_others e' = []"
proof -
  have q: "os = []" if "ring_queue_work tc [] w s = Some (ret, os, s')" for tc w s ret os s'
    using that by (auto simp: ring_queue_work.simps Let_def split: prod.splits option.splits)
  have "io_others e1 = []" if "punt_to_io_wq sqe (e, rs) = Some (ok1, (e1, rs1))" for ok1 e1 rs1
    using that assms(2) by (auto simp: punt_to_io_wq_def Let_def dest: q split: prod.splits option.splits if_splits)
  with assms show ?thesis
    by (auto simp: submit_sqe_def issue_op_nop_def issue_op_tg_api_call_def issue_op_module_handle_def
        split: if_splits option.splits prod.splits)
qed

lemma ctx_submit_sqe_alone:
  assumes sub: "ctx_submit_sqe js sqe ctx = Some (Done (ok, ctx1))" and alone: "alone ctx"
  shows "alone ctx1" and "sq_mask (ctx_ring ctx1) = sq_mask (ctx_ring ctx)"
proof -
  obtain e rs e1 rs1 where st: "ctx_io ctx = (e, rs)" "ctx_io ctx1 = (e1, rs1)" by (cases "ctx_io ctx", cases "ctx_io ctx1")
  with ctx_submit_sqe_io [OF sub] have s: "submit_sqe sqe (e, rs) = Some (ok, (e1, rs1))" by simp
  have e: "io_others e = []" using alone by (simp add: alone_def st)
  from submit_sqe_alone [OF s e] show "alone ctx1" by (simp add: alone_def st)
  have "locked_env e" using e by (simp add: locked_env_def)
  from submit_sqe_sq [OF s this] show "sq_mask (ctx_ring ctx1) = sq_mask (ctx_ring ctx)"
    by (simp add: same_sq_def ctx_ring_def st)
qed

lemma submit_loop_leads:
  assumes "ctx_submit_loop js msk h t ret ctx = Some oc" and "alone ctx"
    and "sq_mask (ctx_ring ctx) = msk" and "\<And>h. submitting (pcf h) = Some (h, t)"
    and "\<And>h. one_submitted (pcf h) = pcf (h + 1)" and "\<And>h. \<not> crashed (pcf h)"
  shows "case oc of Crash \<Rightarrow> crashes js (pcf h) ctx
    | Done (ret', h', ctx') \<Rightarrow> leads js (pcf h) ctx (pcf t) ctx' \<and> h' = t \<and> alone ctx' \<and> ret \<le> ret'"
  using assms
proof (induction js msk h t ret ctx rule: ctx_submit_loop.induct)
  case (1 js msk h t ret ctx)
  note run = "1.prems"(1) and alone = "1.prems"(2) and m = "1.prems"(3) and pcf = "1.prems"(4,5,6)
  show ?case
  proof (cases "h = t")
    case True
    with run have "oc = Done (ret, t, ctx)" by (simp add: ctx_submit_loop.simps [of js msk t t])
    then show ?thesis using True alone leads_refl by simp
  next
    case False
    let ?sqe = "sqes (ctx_ring ctx) ! slot h msk"
    obtain oc1 where sub: "ctx_submit_sqe js ?sqe ctx = Some oc1"
      using run False by (auto simp: ctx_submit_loop.simps [of js msk h] split: option.splits)
    note step = leads_submit [OF pcf(1) False pcf(3) alone, of js oc1, unfolded m, OF sub]
    show ?thesis
    proof (cases oc1)
      case Crash
      with run sub False have "oc = Crash" by (simp add: ctx_submit_loop.simps [of js msk h])
      with step Crash show ?thesis by simp
    next
      case (Done x)
      obtain ok ctx1 where x: "x = (ok, ctx1)" by (cases x)
      let ?ret = "if ok then ret + 1 else ret"
      have rec: "ctx_submit_loop js msk (h + 1) t ?ret ctx1 = Some oc"
        using run sub False by (simp add: Done x ctx_submit_loop.simps [of js msk h])
      note sub1 = sub [unfolded Done x]
      note al = ctx_submit_sqe_alone [OF sub1 alone]
      have m1: "sq_mask (ctx_ring ctx1) = msk" using al(2) m by simp
      from "1.IH" [OF False sub1 refl refl rec al(1) m1 pcf]
      have IH: "case oc of Crash \<Rightarrow> crashes js (pcf (h + 1)) ctx1
        | Done (ret', h', ctx') \<Rightarrow> leads js (pcf (h + 1)) ctx1 (pcf t) ctx' \<and> h' = t \<and> alone ctx' \<and> ?ret \<le> ret'" .
      have l: "leads js (pcf h) ctx (pcf (h + 1)) ctx1" using step by (simp add: Done x pcf(2))
      show ?thesis
      proof (cases oc)
        case Crash
        with IH crashes_trans [OF l] show ?thesis by simp
      next
        case (Done y)
        with IH leads_trans [OF l] show ?thesis by (cases y) (auto split: if_splits)
      qed
    qed
  qed
qed

lemma ctx_submit_leads:
  assumes sub: "ctx_submit js ctx = Some oc" and alone: "alone ctx" and live: "\<not> ring_should_stop (ctx_ring ctx)"
    and pcf: "\<And>h. submitting (pcf h) = Some (h, sq_tail (ctx_ring ctx))" "\<And>h. one_submitted (pcf h) = pcf (h + 1)"
      "\<And>h. \<not> crashed (pcf h)"
    and last: "\<And>c. main_local js (pcf (sq_tail (ctx_ring ctx))) c =
      Some (pc', on_ring (\<lambda>r. r\<lparr>sq_head := sq_tail (ctx_ring ctx)\<rparr>) c, [])"
  shows "case oc of Crash \<Rightarrow> crashes js (pcf (sq_head (ctx_ring ctx))) ctx
    | Done (ret, ctx') \<Rightarrow> leads js (pcf (sq_head (ctx_ring ctx))) ctx pc' ctx' \<and> alone ctx' \<and> 0 \<le> ret"
proof -
  let ?r = "ctx_ring ctx"
  obtain oc1 where loop: "ctx_submit_loop js (sq_mask ?r) (sq_head ?r) (sq_tail ?r) 0 ctx = Some oc1"
    using sub live by (auto simp: ctx_submit_def Let_def split: option.splits)
  note l = submit_loop_leads [OF loop alone refl pcf]
  show ?thesis
  proof (cases oc1)
    case Crash
    with sub live loop have "oc = Crash" by (simp add: ctx_submit_def)
    with l Crash show ?thesis by simp
  next
    case (Done x)
    obtain ret h ctx1 where x: "x = (ret, h, ctx1)" by (metis prod_cases3)
    let ?c = "on_ring (\<lambda>r. r\<lparr>sq_head := h\<rparr>) ctx1"
    have l1: "leads js (pcf (sq_head ?r)) ctx (pcf (sq_tail ?r)) ctx1" and h: "h = sq_tail ?r"
      and al: "alone ctx1" "0 \<le> ret" using l by (simp_all add: Done x)
    have oc: "oc = Done (ret, ?c)" using sub live loop by (simp add: ctx_submit_def Done x)
    have "leads js (pcf (sq_head ?r)) ctx pc' ?c"
      by (rule leads_trans [OF l1 leads_local]) (simp add: last h)
    moreover have "alone ?c" using al(1) by (simp add: alone_def)
    ultimately show ?thesis using oc al(2) by simp
  qed
qed

section \<open>Requests\<close>

lemma alone_simps [simp]:
  "alone (ctx\<lparr>ctx_updates := p\<rparr>) = alone ctx" "alone (ctx\<lparr>ctx_mem := m\<rparr>) = alone ctx"
  "alone (ctx\<lparr>ctx_max_update_id := k\<rparr>) = alone ctx" "alone (noted js us ctx) = alone ctx"
  "alone (on_ring f ctx) = alone ctx"
  by (simp_all add: alone_def noted_def)

lemma get_sqe_fields:
  assumes "ctx_get_sqe ctx = (so, ctx1)"
  shows "alone ctx1 = alone ctx" "ctx_updates ctx1 = ctx_updates ctx" "so = None \<Longrightarrow> ctx1 = ctx"
  using assms by (auto simp: ctx_get_sqe_def gw_ring_get_sqe_def on_ring_def ctx_ring_def alone_def split: if_splits)

lemma write_goal_alone [simp]: "alone (write_goal g sqe ctx) = alone ctx"
  by (cases g) (simp_all add: write_goal_def Let_def)

text \<open>Taking a slot for a goal, with the submission that makes room.\<close>

lemma get_sqe_leads:
  assumes run: "get_sqe_or_submit js ctx = Some oc" and alone: "alone ctx"
  shows "case oc of Crash \<Rightarrow> crashes js (M_get h i res g) ctx
    | Done (sqe, ctx1) \<Rightarrow> alone ctx1 \<and> ctx_updates ctx1 = ctx_updates ctx \<and>
        (\<forall>pc' ctx'. after_goal h i res g (write_goal g sqe ctx1) = (pc', ctx') \<longrightarrow>
           leads js (M_get h i res g) ctx pc' ctx')"
proof -
  obtain so ctx1 where get: "ctx_get_sqe ctx = (so, ctx1)" by (cases "ctx_get_sqe ctx")
  note f = get_sqe_fields [OF get]
  show ?thesis
  proof (cases so)
    case (Some sqe)
    have "leads js (M_get h i res g) ctx pc' ctx'" if "after_goal h i res g (write_goal g sqe ctx1) = (pc', ctx')" for pc' ctx'
      by (rule leads_local) (simp add: get Some got_sqe_def that)
    with run get Some f alone show ?thesis by (auto simp: get_sqe_or_submit_def)
  next
    case None
    then have c: "ctx1 = ctx" using f(3) by simp
    obtain oc1 where sub: "ctx_submit js ctx = Some oc1"
      using run get None c by (auto simp: get_sqe_or_submit_def split: option.splits)
    have retry: "case oc1 of Crash \<Rightarrow> crashes js (M_get h i res g) ctx
      | Done (ret, ctx2) \<Rightarrow> leads js (M_get h i res g) ctx (M_retry h i res g) ctx2 \<and> alone ctx2"
    proof (cases "ring_should_stop (ctx_ring ctx)")
      case True
      then have "oc1 = Done (- EOWNERDEAD, ctx)" using sub by (simp add: ctx_submit_def)
      moreover have "leads js (M_get h i res g) ctx (M_retry h i res g) ctx"
        by (rule leads_local) (simp add: get None c True)
      ultimately show ?thesis using alone by simp
    next
      case False
      let ?r = "ctx_ring ctx"
      have to: "leads js (M_get h i res g) ctx (M_refill h i res g (sq_head ?r) (sq_tail ?r)) ctx"
        by (rule leads_local) (simp add: get None c False)
      from ctx_submit_leads [OF sub alone False, of "\<lambda>h1. M_refill h i res g h1 (sq_tail ?r)" "M_retry h i res g"]
      have l: "case oc1 of Crash \<Rightarrow> crashes js (M_refill h i res g (sq_head ?r) (sq_tail ?r)) ctx
        | Done (ret, ctx2) \<Rightarrow> leads js (M_refill h i res g (sq_head ?r) (sq_tail ?r)) ctx (M_retry h i res g) ctx2 \<and>
            alone ctx2 \<and> 0 \<le> ret" by simp
      show ?thesis
        using l leads_trans [OF to] crashes_trans [OF to] by (cases oc1) (auto split: prod.splits)
    qed
    show ?thesis
    proof (cases oc1)
      case Crash
      with run get None c sub have "oc = Crash" by (simp add: get_sqe_or_submit_def)
      with retry Crash show ?thesis by simp
    next
      case (Done x)
      obtain ret c2 where x: "x = (ret, c2)" by (cases x)
      have l: "leads js (M_get h i res g) ctx (M_retry h i res g) c2" and al: "alone c2"
        and up: "ctx_updates c2 = ctx_updates ctx"
        using retry ctx_submit_io(2) [OF sub [unfolded Done x]] by (simp_all add: Done x)
      obtain so2 ctx2 where get2: "ctx_get_sqe c2 = (so2, ctx2)" by (cases "ctx_get_sqe c2")
      note f2 = get_sqe_fields [OF get2]
      show ?thesis
      proof (cases so2)
        case None
        have "leads js (M_retry h i res g) c2 (M_crash (M_retry h i res g)) ctx2"
          by (rule leads_local) (simp add: get2 None)
        then have "crashes js (M_retry h i res g) c2" unfolding crashes_def by blast
        with crashes_trans l have "crashes js (M_get h i res g) ctx" by blast
        moreover have "oc = Crash" using run get \<open>so = None\<close> c sub Done x get2 None by (simp add: get_sqe_or_submit_def)
        ultimately show ?thesis by simp
      next
        case (Some sqe)
        have "leads js (M_get h i res g) ctx pc' ctx'" if "after_goal h i res g (write_goal g sqe ctx2) = (pc', ctx')" for pc' ctx'
        proof -
          have "leads js (M_retry h i res g) c2 pc' ctx'" by (rule leads_local) (simp add: get2 Some got_sqe_def that)
          then show ?thesis using l leads_trans by blast
        qed
        moreover have "oc = Done (sqe, ctx2)" using run get None c sub Done x get2 Some by (simp add: get_sqe_or_submit_def)
        ultimately show ?thesis using f2 al up by simp
      qed
    qed
  qed
qed

lemma arm_leads:
  assumes run: "arm_update_sqe js ctx = Some oc" and alone: "alone ctx"
  shows "case oc of Crash \<Rightarrow> crashes js (M_get h i res Ask) ctx
    | Done ctx2 \<Rightarrow> alone ctx2 \<and>
        leads js (M_get h i res Ask) ctx (fst (after_goal h i res Ask ctx2)) (snd (after_goal h i res Ask ctx2))"
proof -
  obtain oc1 where get: "get_sqe_or_submit js ctx = Some oc1"
    using run by (auto simp: arm_update_sqe_def split: option.splits)
  note l = get_sqe_leads [OF get alone, of h i res Ask]
  show ?thesis
  proof (cases oc1)
    case Crash
    with run get l show ?thesis by (simp add: arm_update_sqe_def)
  next
    case (Done x)
    obtain sqe ctx1 where x: "x = (sqe, ctx1)" by (cases x)
    have "oc = Done (write_goal Ask sqe ctx1)"
      using run get Done x by (simp add: arm_update_sqe_def write_goal_def Let_def)
    with l Done x show ?thesis by (simp add: prod_eq_iff)
  qed
qed

lemma prep_leads:
  assumes run: "prep_update_handle js (update_addr (ctx_updates ctx) j) ctx = Some oc" and alone: "alone ctx"
  shows "case oc of Crash \<Rightarrow> crashes js (M_get h i res (Hand_over j)) ctx
    | Done (ret, ctx2) \<Rightarrow> ret = 0 \<and> alone ctx2 \<and>
        leads js (M_get h i res (Hand_over j)) ctx (M_updates h i res (j + 1)) ctx2"
proof -
  obtain oc1 where get: "get_sqe_or_submit js ctx = Some oc1"
    using run by (auto simp: prep_update_handle_def split: option.splits)
  note l = get_sqe_leads [OF get alone, of h i res "Hand_over j"]
  show ?thesis
  proof (cases oc1)
    case Crash
    with run get l show ?thesis by (simp add: prep_update_handle_def)
  next
    case (Done x)
    obtain sqe ctx1 where x: "x = (sqe, ctx1)" by (cases x)
    have "oc = Done (0, write_goal (Hand_over j) sqe ctx1)"
      using run get Done x l by (simp add: prep_update_handle_def write_goal_def)
    with l Done x show ?thesis by (simp add: after_goal_def)
  qed
qed

section \<open>Completions\<close>

lemma updates_leads:
  assumes "updates_loop js j ctx = Some oc"
  shows "alone ctx \<longrightarrow>
     (case oc of Crash \<Rightarrow> crashes js (M_updates h i res j) ctx
      | Done ctx' \<Rightarrow> alone ctx' \<and> leads js (M_updates h i res j) ctx (M_get h i res Ask) ctx')"
    (is "?P js j ctx oc")
proof (rule updates_loop.raw_induct [of ?P, OF _ assms])
  fix loop js j ctx oc
  assume 1: "\<And>js j ctx oc. loop js j ctx = Some oc \<Longrightarrow> ?P js j ctx oc"
    "(case map_of (arrays (ctx_mem ctx)) (ctx_updates ctx) of
        None \<Rightarrow> Some Crash
      | Some ups \<Rightarrow>
          if unat j < updates_len ups
          then case process_update_at js j (updates_arr ups ! unat j) ctx of
                 None \<Rightarrow> None
               | Some Crash \<Rightarrow> Some Crash
               | Some (Done (ret, ctx1)) \<Rightarrow> loop js (j + 1) ctx1
          else Some (Done ctx)) = Some oc"
  show "?P js j ctx oc"
  proof
    assume alone: "alone ctx"
    show "case oc of Crash \<Rightarrow> crashes js (M_updates h i res j) ctx
      | Done ctx' \<Rightarrow> alone ctx' \<and> leads js (M_updates h i res j) ctx (M_get h i res Ask) ctx'"
    proof (cases "map_of (arrays (ctx_mem ctx)) (ctx_updates ctx)")
      case None
      have "leads js (M_updates h i res j) ctx (M_crash (M_updates h i res j)) ctx" by (rule leads_local) (simp add: None)
      with 1(2) None show ?thesis by (auto simp: crashes_def)
    next
      case (Some ups)
      show ?thesis
      proof (cases "unat j < updates_len ups")
        case False
        have "leads js (M_updates h i res j) ctx (M_get h i res Ask) ctx" by (rule leads_local) (simp add: Some False)
        with 1(2) Some False alone show ?thesis by auto
      next
        case True
        let ?u = "updates_arr ups ! unat j"
        let ?c = "noted js [?u] ctx"
        have pass: "leads js (M_updates h i res j) ctx (M_get h i res (Hand_over j)) ?c"
          by (rule leads_local) (simp add: Some True)
        have p: "process_update_at js j ?u ctx = prep_update_handle js (update_addr (ctx_updates ?c) j) ?c"
          by (simp add: process_update_at_def process_tg_api_update_def noted_def)
        obtain oc1 where prep: "prep_update_handle js (update_addr (ctx_updates ?c) j) ?c = Some oc1"
          using 1(2) Some True p by (auto split: option.splits)
        have "alone ?c" using alone by simp
        note l = prep_leads [OF prep this, of h i res]
        show ?thesis
        proof (cases oc1)
          case Crash
          with 1(2) Some True p prep have "oc = Crash" by simp
          with l Crash crashes_trans [OF pass] show ?thesis by simp
        next
          case (Done x)
          obtain ret ctx2 where x: "x = (ret, ctx2)" by (cases x)
          with Done 1(2) Some True p prep have "loop js (j + 1) ctx2 = Some oc" by simp
          from 1(1) [OF this] l Done x leads_trans [OF pass] crashes_trans [OF pass] show ?thesis
            by (auto split: outcome.splits intro: leads_trans crashes_trans)
        qed
      qed
    qed
  qed
qed

text \<open>The processing of the completion of a poll, from the loop over the completions.\<close>

lemma process_updates_leads:
  assumes run: "process_tg_api_updates js (poll_res cqe) ctx = Some oc" and alone: "alone ctx"
    and load: "gw_ring_load_head_cqe h (ctx_ring ctx) = Some cqe" and poll: "is_poll cqe"
  shows "case oc of Crash \<Rightarrow> crashes js (M_cqes h i ret) ctx
    | Done (ret1, ctx1) \<Rightarrow> alone ctx1 \<and>
        (if ret1 \<noteq> 0 then leads js (M_cqes h i ret) ctx (M_exit ret1) (on_ring (gw_ring_cq_advance (i + 1)) ctx1)
         else leads js (M_cqes h i ret) ctx (M_cqes (h + 1) (i + 1) 0) ctx1)"
proof -
  let ?res = "poll_res cqe"
  have arm: "case oc of Crash \<Rightarrow> crashes js (M_cqes h i ret) ctx
      | Done (ret1, ctx1) \<Rightarrow> alone ctx1 \<and>
        (if ret1 \<noteq> 0 then leads js (M_cqes h i ret) ctx (M_exit ret1) (on_ring (gw_ring_cq_advance (i + 1)) ctx1)
         else leads js (M_cqes h i ret) ctx (M_cqes (h + 1) (i + 1) 0) ctx1)"
    if ret: "returning r (arm_update_sqe js c) = Some oc" and cc: "alone c"
      and ld: "leads js (M_cqes h i ret) ctx (M_get h i r Ask) c" for r c
  proof -
    obtain oc1 where a: "arm_update_sqe js c = Some oc1" using ret by (auto simp: returning_def)
    note l = arm_leads [OF a cc, of h i r]
    show ?thesis
    proof (cases oc1)
      case Crash
      with l a ret crashes_trans [OF ld] show ?thesis by (simp add: returning_def)
    next
      case (Done c2)
      with l a ret leads_trans [OF ld] show ?thesis
        by (auto simp: returning_def after_goal_def)
    qed
  qed
  show ?thesis
  proof (cases "?res < 0")
    case True
    have "leads js (M_cqes h i ret) ctx (M_get h i 0 Ask) ctx"
      by (rule leads_local) (simp add: load poll True Let_def)
    moreover have "returning 0 (arm_update_sqe js ctx) = Some oc" using run True by (simp add: process_tg_api_updates_def)
    ultimately show ?thesis using arm alone by blast
  next
    case False
    show ?thesis
    proof (cases "ctx_updates ctx = NULL")
      case True
      have "leads js (M_cqes h i ret) ctx (M_get h i ?res Ask) ctx"
        by (rule leads_local) (simp add: load poll False True Let_def)
      moreover have "returning ?res (arm_update_sqe js ctx) = Some oc"
        using run False True by (simp add: process_tg_api_updates_def)
      ultimately show ?thesis using arm alone by blast
    next
      case ups: False
      have pass: "leads js (M_cqes h i ret) ctx (M_updates h i ?res 0) ctx"
        by (rule leads_local) (simp add: load poll False ups Let_def)
      obtain oc1 where loop: "updates_loop js 0 ctx = Some oc1"
        using run False ups by (auto simp: process_tg_api_updates_def returning_def split: option.splits)
      note l = updates_leads [OF loop, of h i ?res, rule_format, OF alone]
      show ?thesis
      proof (cases oc1)
        case Crash
        with run False ups loop have "oc = Crash" by (simp add: process_tg_api_updates_def returning_def)
        with l Crash crashes_trans [OF pass] show ?thesis by simp
      next
        case (Done c)
        with l have "leads js (M_cqes h i ret) ctx (M_get h i ?res Ask) c" "alone c" using leads_trans [OF pass] by auto
        moreover have "returning ?res (arm_update_sqe js c) = Some oc"
          using run False ups loop Done by (simp add: process_tg_api_updates_def returning_def)
        ultimately show ?thesis using arm by blast
      qed
    qed
  qed
qed

lemma cqe_loop_leads:
  assumes "cqe_loop js h i ret ctx = Some oc"
  shows "alone ctx \<longrightarrow>
     (case oc of Crash \<Rightarrow> crashes js (M_cqes h i ret) ctx
      | Done (ret', i', ctx') \<Rightarrow> alone ctx' \<and>
          leads js (M_cqes h i ret) ctx (if ret' \<noteq> 0 then M_exit ret' else M_top) (on_ring (gw_ring_cq_advance i') ctx'))"
    (is "?P js h i ret ctx oc")
proof (rule cqe_loop.raw_induct [of ?P, OF _ assms])
  fix loop js h i ret ctx oc
  assume 1: "\<And>js h i ret ctx oc. loop js h i ret ctx = Some oc \<Longrightarrow> ?P js h i ret ctx oc"
    "(case gw_ring_load_head_cqe h (ctx_ring ctx) of
        None \<Rightarrow> Some (Done (ret, i, ctx))
      | Some cqe \<Rightarrow>
          (case process_cqe js cqe ctx of
             None \<Rightarrow> None
           | Some Crash \<Rightarrow> Some Crash
           | Some (Done (ret1, ctx1)) \<Rightarrow>
               if ret1 \<noteq> 0 then Some (Done (ret1, i + 1, ctx1))
               else loop js (h + 1) (i + 1) ret1 ctx1)) = Some oc"
  show "?P js h i ret ctx oc"
  proof (cases "gw_ring_load_head_cqe h (ctx_ring ctx)")
    case None
    have "leads js (M_cqes h i ret) ctx (if ret \<noteq> 0 then M_exit ret else M_top) (on_ring (gw_ring_cq_advance i) ctx)"
      by (rule leads_local) (simp add: None)
    with 1(2) None show ?thesis by (auto split: if_splits)
  next
    case (Some cqe)
    show ?thesis
    proof (cases "is_poll cqe")
      case False
      have "leads js (M_cqes h i ret) ctx (M_cqes (h + 1) (i + 1) 0) ctx" by (rule leads_local) (simp add: Some False)
      moreover have "loop js (h + 1) (i + 1) 0 ctx = Some oc"
        using 1(2) Some False by (simp add: process_cqe_cases)
      ultimately show ?thesis using 1(1)
        by (fastforce split: outcome.splits intro: leads_trans crashes_trans)
    next
      case True
      show ?thesis
      proof
        assume alone: "alone ctx"
        obtain oc1 where p: "process_tg_api_updates js (poll_res cqe) ctx = Some oc1"
          using 1(2) Some True by (auto simp: process_cqe_cases split: option.splits)
        note l = process_updates_leads [OF p alone Some True, of i ret]
        show "case oc of Crash \<Rightarrow> crashes js (M_cqes h i ret) ctx
          | Done (ret', i', ctx') \<Rightarrow> alone ctx' \<and>
            leads js (M_cqes h i ret) ctx (if ret' \<noteq> 0 then M_exit ret' else M_top) (on_ring (gw_ring_cq_advance i') ctx')"
        proof (cases oc1)
          case Crash
          with 1(2) Some True p l show ?thesis by (simp add: process_cqe_cases)
        next
          case (Done x)
          obtain ret1 ctx1 where x: "x = (ret1, ctx1)" by (cases x)
          show ?thesis
          proof (cases "ret1 = 0")
            case False
            with 1(2) Some True p Done x have "oc = Done (ret1, i + 1, ctx1)" by (simp add: process_cqe_cases)
            with l Done x False show ?thesis by simp
          next
            case zero: True
            with 1(2) Some True p Done x have "loop js (h + 1) (i + 1) 0 ctx1 = Some oc" by (simp add: process_cqe_cases)
            from 1(1) [OF this] l Done x zero show ?thesis
              by (fastforce split: outcome.splits intro: leads_trans crashes_trans)
          qed
        qed
      qed
    qed
  qed
qed

section \<open>One pass of the main loop\<close>

text \<open>From the wait of the pass to its end.\<close>

lemma wait_leads:
  assumes to: "leads js M_top ctx M_wait c"
    and run: "(case ctx_wait_cqe [] c of None \<Rightarrow> None
          | Some (ret, others1, ctx1) \<Rightarrow>
              if ret < 0 then Some (Done (ret, others1, ctx1))
              else map_option (\<lambda>oc. case oc of Crash \<Rightarrow> Crash
                  | Done (ret, i, ctx2) \<Rightarrow> Done (ret, others1, on_ring (gw_ring_cq_advance i) ctx2))
                (cqe_loop js (cq_head (ctx_ring ctx1)) 0 ret ctx1)) = Some oc"
    and al: "alone c"
  shows "case oc of Crash \<Rightarrow> crashes js M_top ctx
    | Done (ret, others, ctx') \<Rightarrow> leads js M_top ctx (if ret \<noteq> 0 then M_exit ret else M_top) ctx'"
proof -
  obtain ret sl r where pass: "wait_cqe_pass (ctx_ring c) = (Some (ret, sl), r)"
    using run by (auto simp: ctx_wait_cqe.simps split: option.splits prod.splits)
  let ?c = "on_ring (\<lambda>_. r) c"
  have wait: "ctx_wait_cqe [] c = Some (ret, [], ?c)" using pass by (simp add: ctx_wait_cqe.simps)
  have w: "leads js M_top ctx (if ret < 0 then M_exit ret else M_cqes (cq_head r) 0 ret) ?c"
    by (rule leads_trans [OF to leads_local]) (use pass in simp)
  have al1: "alone ?c" using al by simp
  show ?thesis
  proof (cases "ret < 0")
    case True
    with run wait have "oc = Done (ret, [], ?c)" by simp
    with w True show ?thesis by simp
  next
    case go: False
    obtain oc1 where loop: "cqe_loop js (cq_head (ctx_ring ?c)) 0 ret ?c = Some oc1"
      using run wait go by auto
    note l = cqe_loop_leads [OF loop, rule_format, OF al1]
    have w2: "leads js M_top ctx (M_cqes (cq_head (ctx_ring ?c)) 0 ret) ?c" using w go by simp
    show ?thesis
    proof (cases oc1)
      case Crash
      with run wait go loop have "oc = Crash" by simp
      with l Crash crashes_trans [OF w2] show ?thesis by simp
    next
      case (Done x)
      obtain ret3 i ctx3 where x: "x = (ret3, i, ctx3)" by (metis prod_cases3)
      with Done run wait go loop have "oc = Done (ret3, [], on_ring (gw_ring_cq_advance i) ctx3)" by simp
      with l Done x leads_trans [OF w2] show ?thesis by simp
    qed
  qed
qed

text \<open>
  C5: one call of \<open>run_tg_bot_loop\<close> in which the main thread does not sleep (neither in \<open>gw_ring_wait_cqe\<close> nor in a
  submission, so that there is nobody to wake it: \<open>alone\<close>) is a run of the small steps of the main thread, with the same context
  and the same place after it: the next pass, the exit with the same result, or a crash. This covers allocations that fail, a
  work queue that is being stopped, and the release of the updates of the requests that are dropped then. So what the small steps
  allow, interleaved with the workers, starts from what the code does.
\<close>

theorem main_thread_refines:
  assumes "run_tg_bot_loop js [] ctx = Some oc" and "alone ctx"
  shows "case oc of Crash \<Rightarrow> crashes js M_top ctx
    | Done (ret, others, ctx') \<Rightarrow> leads js M_top ctx (if ret \<noteq> 0 then M_exit ret else M_top) ctx'"
proof -
  let ?r = "ctx_ring ctx"
  obtain oc0 where sub: "ctx_submit js ctx = Some oc0"
    using assms(1) by (auto simp: run_tg_bot_loop_def split: option.splits)
  show ?thesis
  proof (cases "ring_should_stop ?r")
    case True
    then have "oc0 = Done (- EOWNERDEAD, ctx)" using sub by (simp add: ctx_submit_def)
    with assms(1) sub have "oc = Done (- EOWNERDEAD, [], ctx)" by (simp add: run_tg_bot_loop_def EOWNERDEAD_def)
    moreover have "leads js M_top ctx (M_exit (- EOWNERDEAD)) ctx" by (rule leads_local) (simp add: True)
    ultimately show ?thesis by (simp add: EOWNERDEAD_def)
  next
    case False
    have top: "leads js M_top ctx (M_submit (sq_head ?r) (sq_tail ?r)) ctx" by (rule leads_local) (simp add: False)
    from ctx_submit_leads [OF sub assms(2) False, of "\<lambda>h. M_submit h (sq_tail ?r)" M_wait]
    have s: "case oc0 of Crash \<Rightarrow> crashes js (M_submit (sq_head ?r) (sq_tail ?r)) ctx
      | Done (ret, c) \<Rightarrow> leads js (M_submit (sq_head ?r) (sq_tail ?r)) ctx M_wait c \<and> alone c \<and> 0 \<le> ret" by simp
    show ?thesis
    proof (cases oc0)
      case Crash
      with assms(1) sub have "oc = Crash" by (simp add: run_tg_bot_loop_def)
      with s Crash crashes_trans [OF top] show ?thesis by simp
    next
      case (Done x)
      obtain ret c where x: "x = (ret, c)" by (cases x)
      have l: "leads js (M_submit (sq_head ?r) (sq_tail ?r)) ctx M_wait c" "alone c" "0 \<le> ret" using s by (simp_all add: Done x)
      note sub1 = sub [unfolded Done x]
      have "leads js M_top ctx M_wait c" by (rule leads_trans [OF top l(1)])
      moreover have "(case ctx_wait_cqe [] c of None \<Rightarrow> None
          | Some (ret, others1, ctx1) \<Rightarrow>
              if ret < 0 then Some (Done (ret, others1, ctx1))
              else map_option (\<lambda>oc. case oc of Crash \<Rightarrow> Crash
                  | Done (ret, i, ctx2) \<Rightarrow> Done (ret, others1, on_ring (gw_ring_cq_advance i) ctx2))
                (cqe_loop js (cq_head (ctx_ring ctx1)) 0 ret ctx1)) = Some oc"
        using assms(1) sub1 l(3) by (simp add: run_tg_bot_loop_def)
      ultimately show ?thesis using l(2) by (intro wait_leads)
    qed
  qed
qed

theorem main_thread_refines_witness:
  "\<exists>ctx'. leads sample_js M_top (polled_ctx (cq_push poll_done sample_ring)) M_top ctx' \<and>
     sq_contents (ctx_ring ctx') = batch_requests [one_update] (polled_ctx (cq_push poll_done sample_ring))"
proof -
  let ?ctx = "polled_ctx (cq_push poll_done sample_ring)"
  from bot_pass_run [of ?ctx "[]" poll_done "[]" "[one_update]" sample_js "[]"] polled_ring polled_ctx_batch [of "cq_push poll_done sample_ring"]
  obtain ctx' where run: "run_tg_bot_loop sample_js [] ?ctx = Some (Done (0, [], ctx'))"
    and q: "sq_contents (ctx_ring ctx') = batch_requests [one_update] ?ctx" by auto
  have "alone ?ctx" by (simp add: alone_def polled_ctx_def quiet_env_def)
  from main_thread_refines [OF run this] q show ?thesis by auto
qed

end
