(* ===== verification/Spec2Isabelle.thy ===== *)
theory Spec2Isabelle
  imports WorkqueueSys RingSys BotProcess BotLife GwThread GwPthread BotCrash BotRefine
begin

text \<open>
  GNUWeebBot2 is a Telegram bot in C. Its main thread (core/main.c) asks Telegram for updates and hands
  each of them to a worker; both are requests put on a submission queue, and what they return comes back on
  a completion queue (core/ring.c, modelled on io_uring). The ring hands its requests to a pool of threads with a
  bounded queue of works (core/workqueue.c). A worker runs either the HTTP call and the parsing of
  its answer (lib/curl.c, lib/tgapi.c) or the modules that handle an update (modules/module.c,
  modules/ping/ping.c). core/print.c writes to the console, core/thread.cc wraps the thread library.

  THEORIES, each with the part of src/ it models:

  \<^item> GwPrelude: machine integers, error numbers, traces of resources with their replay \<open>held\<close>,
    answers of allocators, heaps, counting threads, condition variables (\<open>wake_one\<close>, \<open>wake_all\<close>).
  \<^item> GwCirc: circular buffers on 32-bit indices and a mask, \<open>u32_diff\<close>, and the locale
    \<open>bounded_fifo\<close> with the laws of a bounded queue. It is interpreted on the works of a work queue and
    on both queues of a ring.
  \<^item> GwSteps: step relations, reachability, runs; the locales \<open>invariant_system\<close> and
    \<open>draining_system\<close>, interpreted on the work queue (twice and once) and on the completion queue.
  \<^item> Workqueue: core/workqueue.c and include/gw/workqueue.h, one definition per critical section (the
    code between taking \<open>work_list_lock\<close> and releasing it or sleeping), the allocation with its unwinding
    labels, and what destruction releases. \<open>queue_work\<close> is the whole call, with what the other
    threads do during each sleep as a list of functions.
  \<^item> WorkqueueSys: all threads of a work queue. A state has the queue, a program counter per worker slot
    and client and ghost histories of works; a step is one critical section, the end of a work, or a
    spurious wake-up. A signal may wake any sleeper.
  \<^item> Ring: core/ring.c and include/gw/ring.h: set-up and tear-down, both queues, submission and the
    punting of requests, what a worker does with them, and their deletion.
  \<^item> RingSys: the threads that post completions, wait for them and consume them, as a step relation.
  \<^item> Tgapi: lib/tgapi.c and include/gw/lib/tgapi.h, from JSON to updates. json-c is the argument
    \<open>json_ops\<close>; the blocks of the parser and the arrays of updates are heaps in \<open>tg_mem\<close>, with the frees that
    were wrong recorded.
  \<^item> TgHttp: lib/curl.c and the HTTP half of lib/tgapi.c; libcurl is an argument.
  \<^item> Modules: modules/module.c, include/gw/module.h and modules/ping/ping.c; the table of modules, which the build
    generates, is an argument.
  \<^item> BotMain: core/main.c without \<open>main\<close>: the context \<open>tg_bot_ctx\<close> with the memory behind its
    pointers, every function, the loops as loops. Its submission \<open>ctx_submit\<close> is the one of Ring together with the
    release of the updates of dropped requests, which Ring only records. BotProcess: \<open>main\<close>, its error paths and its resources.
  \<^item> BotLife: the worker's side of the ring on the bot's context, with the API call, the modules and the release of an
    update filled in, and a batch of updates on its way through the whole program.
  \<^item> BotSys: the main loop in small steps (one slot taken, one request submitted, one completion looked at), with the
    workers of the pool acting between any two of them; a crash of the main thread is a place it stays at. BotInv: what holds
    in every state of that system, and what a lost poll means for it. BotCrash: which steps crash the main thread.
    BotRefine: the small steps of the main thread against the whole functions of BotMain.
  \<^item> GwPrint: core/print.c. GwThread: core/thread.cc in its C++ variant, GwPthread: in its pthread variant, with the
    objects of the two libraries as their standards describe them.
  \<^item> GwMonitor: threads that run critical sections on a lock and condition variables, in small steps, and the locale
    \<open>monitor\<close>: such programs refine the system in which a section is one step. The interpretation on the functions of
    GwPthread is why a critical section may be one definition elsewhere.

  CONVENTIONS. Integers keep their width (\<open>u8\<close>, \<open>u32\<close>, \<open>u64\<close>, \<open>i64\<close> are words, read with \<open>uint\<close> or
  \<open>sint\<close>); an \<open>int\<close> that only carries a result or a negative error number is a HOL integer. Pointers are
  natural numbers with 0 as \<open>NULL\<close>. The sizes of the response buffer are 64-bit words, those of a JSON array
  natural numbers. A \<open>goto\<close> label is a definition of its own. A call that does not return (a
  loop without end, a sleep nobody ends) is \<open>None\<close>; a crash, where the code can have one, is a value of its own
  (\<open>Crash\<close>, \<open>Terminates\<close>, \<open>Undefined\<close>) or \<open>None\<close> where the definition says so. Messages on the console are
  left out, except in GwPrint. Atomic accesses are plain ones, as they all happen under a lock or by the one
  thread that owns the index.

  WHAT IS SHOWN. For the pool: no interleaving loses, duplicates or reorders a work, the counters are exact,
  the workers drain the queue in a number of steps known beforehand unless a \<open>thread_create\<close> has failed, destruction
  lets every worker exit when no thread ever calls \<open>wait_all_work_done\<close>, and that call neither returns early nor is
  forgotten. For the ring: completions come
  out as they were posted, submission refines a fold over the queued requests, a punted request is executed, posted and freed
  once, and no waiter is forgotten before the indices wrap. For the parser: ownership on every path, and what the slots of the array
  hold when no allocation fails and the answer has no \<open>null\<close>. For the bot: while there is room and memory, one pass of the main
  loop submits what is queued, hands over every update in order and asks again from the next offset.
  For the whole program: what Telegram's answer to a poll makes the bot send, through the parser, the main loop, the
  submission and the workers in any order; and in every interleaving of the main thread and the workers, over any number of
  batches, no request is lost or duplicated, one request for updates is under way, no worker touches a
  block that is not its own, and unless the ring is being stopped the main thread crashes for one reason only, whatever allocation fails;
  left alone, its steps are what \<open>run_tg_bot_loop\<close> does. The unwinding of every initialisation gives back what was acquired.

  The same models prove where the code falls short: two lost wake-ups of the work queue, the ring after its
  indices wrap, the bot that never asks again once a poll is lost, the list parser on \<open>null\<close>, the inverted test of
  \<open>tgapi_free_update\<close> and the leak behind it, the pool of curl handles after 1024 calls, long console messages, the mutexes
  that are never destroyed, and condition variables in the C++ variant.

  BOUNDS. No fuel is used: loops on indices terminate by the distance of the indices, the rounding loops, the
  tokener's loop and the loops of the bot are \<open>partial_function (option)\<close> with theorems that say when they return. The
  interleaving theorems hold for every number of workers and waiters and fewer than \<open>2 ^ 32\<close> callers of \<open>queue_work\<close>;
  the one about waiters in RingSys for rings of at most \<open>2 ^ 29\<close> slots and, as a hypothesis, fewer than \<open>2 ^ 32\<close>
  completions posted; its steps have no such bound. The write callback is shown to stay in its buffer below \<open>2 ^ 61\<close> bytes, and
  \<open>curl_write_wraps\<close> shows that a size which wraps leaves it.
  Theorems about the bot with room in the submission queue hold until its tail wraps.

  NOT MODELLED. \<open>ping_init\<close> and \<open>ping_shutdown\<close> do
  nothing. The configure script, the makefiles, the generated tables of modules and the test programs are build and test
  code. The length of a JSON array is a total function of json-c's, where the library asserts that it is given an array, and the size
  of the array of updates that is asked from \<open>calloc\<close> does not wrap: a list has fewer elements than bytes were received. The type of an
  update is read once per call of the modules, none of which changes it. Field by field, of a chat and a message the fields no function reads or writes are left out.
  In BotMain, what the workers do to the update memory during a sleep of the main thread inside a submission is seen at
  the next sleep in \<open>gw_ring_wait_cqe\<close>; in BotSys it is seen at once, and a submission that would sleep there waits for a
  state in which it need not. BotSys takes the execution of a request and its release as one step each: the HTTP call and the
  modules work on memory that the worker owns, and on the update array, which the main thread does not read meanwhile
  (\<open>updates_not_shared\<close>).

  LEFT TO DO. The ownership of the updates inside an array over many batches; the tear-down of a running ring together with
  its work queue.
\<close>

end
